(* ===== verification/Prelude.thy ===== *)
theory Prelude
  imports Main "HOL-Library.Word" "HOL-Library.Multiset"
begin

text \<open>
  What the components share: the machine types of the C++ code, the memory primitives
  (\<^verbatim>\<open>memcpy\<close>, \<^verbatim>\<open>memset\<close>, reading a C string) with undefined behaviour made explicit, the
  interleaving semantics of threads, and the interface through which every component
  proves its invariants of reachable states.
\<close>

section \<open>Machine types\<close>

type_synonym byte = "8 word"
type_synonym u32 = "32 word"
type_synonym size_t = "64 word"

section \<open>Lemma collections\<close>

named_theorems seq_defs \<open>definitions of sequential operations, unfolded together\<close>
named_theorems step_defs \<open>definitions of single atomic actions of a thread\<close>

section \<open>Memory primitives\<close>

text \<open>
  A C++ object of \<open>n\<close> bytes is a list of \<open>n\<close> bytes. \<open>None\<close> is undefined behaviour: an
  access outside the object.
\<close>

definition memcpy :: "byte list \<Rightarrow> byte list \<Rightarrow> nat \<Rightarrow> byte list option" where
  "memcpy dst src n =
     (if n \<le> length dst \<and> n \<le> length src then Some (take n src @ drop n dst) else None)"

definition memset :: "byte list \<Rightarrow> byte \<Rightarrow> nat \<Rightarrow> byte list option" where
  "memset dst c n =
     (if n \<le> length dst then Some (replicate n c @ drop n dst) else None)"

text \<open>Reading a NUL-terminated string out of a buffer; without a NUL the read leaves it.\<close>

definition c_string :: "byte list \<Rightarrow> byte list option" where
  "c_string buf = (if 0 \<in> set buf then Some (takeWhile (\<lambda>c. c \<noteq> 0) buf) else None)"

lemma length_memcpy: "memcpy dst src n = Some d \<Longrightarrow> length d = length dst"
  by (auto simp: memcpy_def split: if_splits)

lemma memcpy_defined [simp]:
  "n \<le> length dst \<Longrightarrow> n \<le> length src \<Longrightarrow> memcpy dst src n = Some (take n src @ drop n dst)"
  by (simp add: memcpy_def)

lemma memset_all [simp]: "n = length dst \<Longrightarrow> memset dst c n = Some (replicate n c)"
  by (simp add: memset_def)

lemma c_string_append_nul [simp]: "0 \<notin> set s \<Longrightarrow> c_string (s @ 0 # rest) = Some s"
  by (auto simp: c_string_def takeWhile_append)

text \<open>The decimal digits \<^verbatim>\<open>std::cout\<close> and \<^verbatim>\<open>std::format\<close> write for a number.\<close>

fun decimal :: "nat \<Rightarrow> string" where
  "decimal n = (if n < 10 then [char_of (48 + n)] else decimal (n div 10) @ [char_of (48 + n mod 10)])"

declare decimal.simps [simp del]

definition decimal_int :: "int \<Rightarrow> string" where
  "decimal_int v = (if v < 0 then ''-'' @ decimal (nat (- v)) else decimal (nat v))"

lemma char_of_digits:
  "char_of (48 :: nat) = CHR ''0''" "char_of (49 :: nat) = CHR ''1''" "char_of (50 :: nat) = CHR ''2''"
  "char_of (51 :: nat) = CHR ''3''" "char_of (52 :: nat) = CHR ''4''" "char_of (53 :: nat) = CHR ''5''"
  "char_of (54 :: nat) = CHR ''6''" "char_of (55 :: nat) = CHR ''7''" "char_of (56 :: nat) = CHR ''8''"
  "char_of (57 :: nat) = CHR ''9''"
  by code_simp+

text \<open>Reading a number: characters, and the value of a list of digits.\<close>

definition is_digit :: "char \<Rightarrow> bool" where
  "is_digit c \<longleftrightarrow> 48 \<le> (of_char c :: nat) \<and> (of_char c :: nat) \<le> 57"

definition is_space :: "char \<Rightarrow> bool" where
  "is_space c \<longleftrightarrow> (of_char c :: nat) = 32 \<or> 9 \<le> (of_char c :: nat) \<and> (of_char c :: nat) \<le> 13"

definition digits_value :: "string \<Rightarrow> nat" where
  "digits_value ds = foldl (\<lambda>acc c. 10 * acc + (of_char c - 48)) 0 ds"

lemma digits_value_append: "digits_value (ds @ [c]) = 10 * digits_value ds + (of_char c - 48)"
  by (simp add: digits_value_def)

lemma of_char_digit: "d < 10 \<Longrightarrow> (of_char (char_of (48 + d)) :: nat) = 48 + d"
  by simp

lemma decimal_digits: "list_all is_digit (decimal n) \<and> decimal n \<noteq> [] \<and> digits_value (decimal n) = n"
proof (induction n rule: decimal.induct)
  case (1 n)
  show ?case
  proof (cases "n < 10")
    case True
    then have "decimal n = [char_of (48 + n)]" by (simp add: decimal.simps)
    with True show ?thesis by (simp add: is_digit_def digits_value_def of_char_digit)
  next
    case False
    then have d: "decimal n = decimal (n div 10) @ [char_of (48 + n mod 10)]" by (simp add: decimal.simps)
    have "n mod 10 < 10" by simp
    with 1 False show ?thesis unfolding d by (simp add: is_digit_def digits_value_append of_char_digit)
  qed
qed

lemma digit_not_space: "is_digit c \<Longrightarrow> \<not> is_space c \<and> c \<noteq> CHR ''-'' \<and> c \<noteq> CHR ''+''"
  by (auto simp: is_digit_def is_space_def)

section \<open>Loops with a break\<close>

text \<open>
  \<open>while (true) { ... }\<close> run for at most \<open>n\<close> iterations. An iteration tells whether the loop goes
  on; the result whether it was left. \<open>None\<close> is undefined behaviour in an iteration.
\<close>

fun loop :: "nat \<Rightarrow> ('s \<Rightarrow> (bool \<times> 's) option) \<Rightarrow> 's \<Rightarrow> (bool \<times> 's) option" where
  "loop 0 f s = Some (False, s)"
| "loop (Suc n) f s =
     (case f s of None \<Rightarrow> None
      | Some (goes_on, s') \<Rightarrow> if goes_on then loop n f s' else Some (True, s'))"

text \<open>A loop whose measure decreases with every iteration that goes on is left in time.\<close>

lemma loop_left:
  assumes "\<And>s s'. P s \<Longrightarrow> f s = Some (True, s') \<Longrightarrow> P s' \<and> (rank s' :: nat) < rank s"
    and "P s" "rank s < n" "loop n f s = Some (b, t)"
  shows b
  using assms(2-4)
proof (induction n arbitrary: s)
  case (Suc n)
  then obtain c u where f: "f s = Some (c, u)" by (auto split: option.splits)
  show ?case
  proof (cases c)
    case True
    with f assms(1)[of s u] Suc.IH[of u] Suc.prems show ?thesis by auto
  qed (use f Suc.prems in auto)
qed simp

section \<open>Threads and interleaving\<close>

text \<open>
  A program of several threads is a list of local states and one shared state. One thread
  moves at a time, by an atomic action: sequentially consistent interleaving.
\<close>

inductive interleave ::
  "(nat \<Rightarrow> 'l \<Rightarrow> 'g \<Rightarrow> 'l \<Rightarrow> 'g \<Rightarrow> bool) \<Rightarrow> 'l list \<times> 'g \<Rightarrow> 'l list \<times> 'g \<Rightarrow> bool"
  for tstep where
  interleaveI: "i < length ls \<Longrightarrow> tstep i (ls ! i) g l' g' \<Longrightarrow>
     interleave tstep (ls, g) (ls[i := l'], g')"

inductive_cases interleaveE: "interleave tstep s t"

text \<open>A state in which no thread can move.\<close>

definition stuck :: "('s \<Rightarrow> 's \<Rightarrow> bool) \<Rightarrow> 's \<Rightarrow> bool" where
  "stuck step s \<longleftrightarrow> (\<forall>t. \<not> step s t)"

lemma interleave_length: "interleave tstep s t \<Longrightarrow> length (fst t) = length (fst s)"
  by (auto elim!: interleaveE)

text \<open>
  The threads of most programs are deterministic: \<open>act i l g\<close> is the next action of thread \<open>i\<close> in
  local state \<open>l\<close> on shared state \<open>g\<close>, and \<open>None\<close> if the thread is blocked or has ended.
\<close>

definition prog_step ::
  "(nat \<Rightarrow> 'l \<Rightarrow> 'g \<Rightarrow> ('l \<times> 'g) option) \<Rightarrow> 'l list \<times> 'g \<Rightarrow> 'l list \<times> 'g \<Rightarrow> bool" where
  "prog_step act = interleave (\<lambda>i l g l' g'. act i l g = Some (l', g'))"

lemma prog_stepI:
  "i < length ls \<Longrightarrow> act i (ls ! i) g = Some (l', g') \<Longrightarrow> prog_step act (ls, g) (ls[i := l'], g')"
  unfolding prog_step_def by (rule interleaveI)

lemma prog_stepE:
  assumes "prog_step act (ls, g) t"
  obtains i l' g' where "i < length ls" "act i (ls ! i) g = Some (l', g')" "t = (ls[i := l'], g')"
  using assms unfolding prog_step_def by (auto elim: interleaveE)

lemma stuck_prog_step: "stuck (prog_step act) (ls, g) \<longleftrightarrow> (\<forall>i<length ls. act i (ls ! i) g = None)"
proof
  assume st: "stuck (prog_step act) (ls, g)"
  show "\<forall>i<length ls. act i (ls ! i) g = None"
  proof (intro allI impI)
    fix i assume "i < length ls"
    with st prog_stepI[of i ls act g] show "act i (ls ! i) g = None"
      by (cases "act i (ls ! i) g") (auto simp: stuck_def)
  qed
next
  assume "\<forall>i<length ls. act i (ls ! i) g = None"
  then show "stuck (prog_step act) (ls, g)" by (auto simp: stuck_def elim!: prog_stepE)
qed

text \<open>Running a given schedule, to exhibit reachable states.\<close>

fun run_schedule ::
  "(nat \<Rightarrow> 'l \<Rightarrow> 'g \<Rightarrow> ('l \<times> 'g) option) \<Rightarrow> nat list \<Rightarrow> 'l list \<times> 'g \<Rightarrow> ('l list \<times> 'g) option" where
  "run_schedule act [] s = Some s"
| "run_schedule act (i # is) s =
     (if i < length (fst s) then
        (case act i (fst s ! i) (snd s) of None \<Rightarrow> None
         | Some (l', g') \<Rightarrow> run_schedule act is ((fst s)[i := l'], g'))
      else None)"

lemma run_schedule_reachable: "run_schedule act is s = Some t \<Longrightarrow> (prog_step act)\<^sup>*\<^sup>* s t"
proof (induction "is" arbitrary: s)
  case (Cons i "is")
  from Cons.prems obtain l' g' where a: "i < length (fst s)" "act i (fst s ! i) (snd s) = Some (l', g')"
    and r: "run_schedule act is ((fst s)[i := l'], g') = Some t"
    by (auto split: if_splits option.splits)
  from prog_stepI[of i "fst s" act "snd s", OF a] have "prog_step act s ((fst s)[i := l'], g')" by simp
  with Cons.IH[OF r] show ?case by (rule converse_rtranclp_into_rtranclp[rotated])
qed simp

text \<open>
  Where an action also depends on a choice of the environment (the address \<^verbatim>\<open>new\<close> returns, whether
  a weak exchange fails spuriously), \<open>act c i l g\<close> takes the choice as an argument.
\<close>

definition choice_step ::
  "('c \<Rightarrow> nat \<Rightarrow> 'l \<Rightarrow> 'g \<Rightarrow> ('l \<times> 'g) option) \<Rightarrow> 'l list \<times> 'g \<Rightarrow> 'l list \<times> 'g \<Rightarrow> bool" where
  "choice_step act = interleave (\<lambda>i l g l' g'. \<exists>c. act c i l g = Some (l', g'))"

lemma choice_stepI:
  "i < length ls \<Longrightarrow> act c i (ls ! i) g = Some (l', g') \<Longrightarrow> choice_step act (ls, g) (ls[i := l'], g')"
  unfolding choice_step_def by (rule interleaveI) blast+

lemma choice_stepE:
  assumes "choice_step act (ls, g) t"
  obtains i c l' g' where "i < length ls" "act c i (ls ! i) g = Some (l', g')" "t = (ls[i := l'], g')"
  using assms unfolding choice_step_def by (auto elim: interleaveE)

fun run_choices ::
  "('c \<Rightarrow> nat \<Rightarrow> 'l \<Rightarrow> 'g \<Rightarrow> ('l \<times> 'g) option) \<Rightarrow> (nat \<times> 'c) list \<Rightarrow> 'l list \<times> 'g \<Rightarrow> ('l list \<times> 'g) option" where
  "run_choices act [] s = Some s"
| "run_choices act ((i, c) # ics) s =
     (if i < length (fst s) then
        (case act c i (fst s ! i) (snd s) of None \<Rightarrow> None
         | Some (l', g') \<Rightarrow> run_choices act ics ((fst s)[i := l'], g'))
      else None)"

lemma run_choices_reachable: "run_choices act ics s = Some t \<Longrightarrow> (choice_step act)\<^sup>*\<^sup>* s t"
proof (induction ics arbitrary: s)
  case (Cons ic ics)
  obtain i c where ic: "ic = (i, c)" by (cases ic)
  from Cons.prems ic obtain l' g' where a: "i < length (fst s)" "act c i (fst s ! i) (snd s) = Some (l', g')"
    and r: "run_choices act ics ((fst s)[i := l'], g') = Some t"
    by (auto split: if_splits option.splits)
  from choice_stepI[of i "fst s" act c "snd s", OF a] have "choice_step act s ((fst s)[i := l'], g')" by simp
  with Cons.IH[OF r] show ?case by (rule converse_rtranclp_into_rtranclp[rotated])
qed simp

text \<open>
  Two different processes, such as the two sides of a \<^verbatim>\<open>fork\<close>, each with its own local states. The choice is whether a
  system call fails, or how much it does.
\<close>

inductive pair_step ::
  "('k \<Rightarrow> 'p \<Rightarrow> 'g \<Rightarrow> ('p \<times> 'g) option) \<Rightarrow> ('k \<Rightarrow> 'c \<Rightarrow> 'g \<Rightarrow> ('c \<times> 'g) option) \<Rightarrow> 'p \<times> 'c \<times> 'g \<Rightarrow> 'p \<times> 'c \<times> 'g \<Rightarrow> bool"
  for pact cact where
  pair_parent: "pact k p g = Some (p', g') \<Longrightarrow> pair_step pact cact (p, c, g) (p', c, g')"
| pair_child: "cact k c g = Some (c', g') \<Longrightarrow> pair_step pact cact (p, c, g) (p, c', g')"

inductive_cases pair_stepE: "pair_step pact cact (p, c, g) t"

lemma pair_step_keeps:
  assumes "pair_step pact cact (p, c, g) t"
    and "\<And>k p' g'. pact k p g = Some (p', g') \<Longrightarrow> P (p', c, g')" "\<And>k c' g'. cact k c g = Some (c', g') \<Longrightarrow> P (p, c', g')"
  shows "P t"
  using assms(1) by (rule pair_stepE) (use assms(2,3) in simp_all)

lemma stuck_pair_step: "stuck (pair_step pact cact) (p, c, g) \<longleftrightarrow> (\<forall>k. pact k p g = None \<and> cact k c g = None)"
  by (auto simp: stuck_def elim!: pair_stepE intro: pair_parent pair_child) (metis not_None_eq pair_child pair_parent surj_pair)+

text \<open>A schedule names the process that moves next, \<open>True\<close> for the parent, and its choice.\<close>

fun run_pair ::
  "('k \<Rightarrow> 'p \<Rightarrow> 'g \<Rightarrow> ('p \<times> 'g) option) \<Rightarrow> ('k \<Rightarrow> 'c \<Rightarrow> 'g \<Rightarrow> ('c \<times> 'g) option) \<Rightarrow> (bool \<times> 'k) list \<Rightarrow>
   'p \<times> 'c \<times> 'g \<Rightarrow> ('p \<times> 'c \<times> 'g) option" where
  "run_pair pact cact [] s = Some s"
| "run_pair pact cact ((b, k) # bs) (p, c, g) =
     (if b then (case pact k p g of None \<Rightarrow> None | Some (p', g') \<Rightarrow> run_pair pact cact bs (p', c, g'))
      else (case cact k c g of None \<Rightarrow> None | Some (c', g') \<Rightarrow> run_pair pact cact bs (p, c', g')))"

lemma run_pair_reachable: "run_pair pact cact bs s = Some t \<Longrightarrow> (pair_step pact cact)\<^sup>*\<^sup>* s t"
proof (induction pact cact bs s rule: run_pair.induct)
  case (2 pact cact b k bs p c g)
  show ?case
  proof (cases b)
    case True
    with 2 obtain p' g' where "pact k p g = Some (p', g')" "(pair_step pact cact)\<^sup>*\<^sup>* (p', c, g') t" by (auto split: option.splits)
    then show ?thesis by (meson converse_rtranclp_into_rtranclp pair_parent)
  next
    case False
    with 2 obtain c' g' where "cact k c g = Some (c', g')" "(pair_step pact cact)\<^sup>*\<^sup>* (p, c', g') t" by (auto split: option.splits)
    then show ?thesis by (meson converse_rtranclp_into_rtranclp pair_child)
  qed
qed simp

section \<open>Invariants of reachable states\<close>

text \<open>
  The contract between a component's step relation and its theorems: an invariant that
  holds at the start and that every step keeps.
\<close>

locale step_invariant =
  fixes init :: "'s \<Rightarrow> bool"
    and step :: "'s \<Rightarrow> 's \<Rightarrow> bool"
    and inv :: "'s \<Rightarrow> bool"
  assumes inv_init: "init s \<Longrightarrow> inv s"
    and inv_step: "inv s \<Longrightarrow> step s t \<Longrightarrow> inv t"
begin

lemma inv_steps: "step\<^sup>*\<^sup>* s t \<Longrightarrow> inv s \<Longrightarrow> inv t"
  by (induction rule: rtranclp_induct) (auto intro: inv_step)

lemma inv_reachable: "init s \<Longrightarrow> step\<^sup>*\<^sup>* s t \<Longrightarrow> inv t"
  by (blast intro: inv_steps inv_init)

end

text \<open>
  The contract of a program that can always be finished: under the invariant every state that is
  not final has a step that lowers a measure. Programs with spinning loops satisfy it.
\<close>

locale finishing_steps = step_invariant +
  fixes final :: "'s \<Rightarrow> bool"
    and rank :: "'s \<Rightarrow> nat"
  assumes advance: "inv s \<Longrightarrow> \<not> final s \<Longrightarrow> \<exists>t. step s t \<and> rank t < rank s"
begin

lemma reaches_final_inv: "inv s \<Longrightarrow> \<exists>t. step\<^sup>*\<^sup>* s t \<and> final t"
proof (induction "rank s" arbitrary: s rule: less_induct)
  case less
  show ?case
  proof (cases "final s")
    case False
    with less.prems obtain u where u: "step s u" "rank u < rank s" using advance by blast
    with less obtain t where "step\<^sup>*\<^sup>* u t" "final t" using inv_step by blast
    with u show ?thesis by (meson converse_rtranclp_into_rtranclp)
  qed auto
qed

lemma reaches_final: "init s \<Longrightarrow> step\<^sup>*\<^sup>* s t \<Longrightarrow> \<exists>u. step\<^sup>*\<^sup>* t u \<and> final u"
  by (blast intro: reaches_final_inv inv_reachable)

lemma stuck_final: "init s \<Longrightarrow> step\<^sup>*\<^sup>* s t \<Longrightarrow> stuck step t \<Longrightarrow> final t"
  using inv_reachable advance by (force simp: stuck_def)

end

text \<open>
  The contract of a terminating program: under the invariant every step decreases a
  measure, and only final states have no step. Every run then ends in a final state.
\<close>

locale terminating_steps = step_invariant +
  fixes final :: "'s \<Rightarrow> bool"
    and rank :: "'s \<Rightarrow> nat"
  assumes rank_step: "inv s \<Longrightarrow> step s t \<Longrightarrow> rank t < rank s"
    and progress: "inv s \<Longrightarrow> \<not> final s \<Longrightarrow> \<exists>t. step s t"
begin

lemma run_bounded: "inv s \<Longrightarrow> (step ^^ n) s t \<Longrightarrow> n + rank t \<le> rank s"
proof (induction n arbitrary: t)
  case (Suc n)
  then obtain u where u: "(step ^^ n) s u" "step u t" by auto
  have "inv u" using u(1) Suc.prems(1) by (meson inv_steps relpowp_imp_rtranclp)
  with Suc u show ?case using rank_step by fastforce
qed simp

end

sublocale terminating_steps \<subseteq> finishing_steps
  by unfold_locales (blast dest: rank_step progress)

section \<open>Words\<close>

lemma unat_ucast_widen [simp]: "unat (ucast (w :: u32) :: size_t) = unat w"
  by transfer simp

lemma unat_ucast_narrow: "unat (ucast (w :: size_t) :: u32) = unat w mod 2 ^ 32"
  by (simp add: unsigned_ucast_eq take_bit_eq_mod)

lemma ucast_of_nat_narrow: "n \<le> 256 \<Longrightarrow> (ucast (of_nat n :: size_t) :: u32) = of_nat n"
  by (simp add: word_unat_eq_iff unat_ucast_narrow unat_of_nat)

lemma unat_Suc_bound: "Suc (unat w) < 2 ^ 64 \<Longrightarrow> unat (w + 1 :: size_t) = Suc (unat w)"
  by (subst unat_add_lem[THEN iffD1]) auto

lemma unat_pred: "0 < unat (w :: size_t) \<Longrightarrow> unat (w - 1) = unat w - 1"
  by (metis One_nat_def unat_minus_one unat_gt_0)

section \<open>Positions in a ring of sixteen\<close>

lemma mod16_shift:
  assumes "j < 16"
  shows "((r::nat) + j) mod 16 = (if r mod 16 + j < 16 then r mod 16 + j else r mod 16 + j - 16)"
proof -
  have e: "(r + j) mod 16 = (r mod 16 + j) mod 16" by (simp only: mod_add_left_eq)
  have l: "r mod 16 < 16" by simp
  show ?thesis
  proof (cases "r mod 16 + j < 16")
    case True
    then show ?thesis by (simp only: e mod_less if_True)
  next
    case False
    then have "(r mod 16 + j) mod 16 = (r mod 16 + j - 16) mod 16" by (simp only: le_mod_geq not_less)
    also have "\<dots> = r mod 16 + j - 16" using l assms by (intro mod_less) linarith
    finally show ?thesis using False e by (simp only: if_False)
  qed
qed

lemma mod16_inject: "j < 16 \<Longrightarrow> k < 16 \<Longrightarrow> ((r::nat) + j) mod 16 = (r + k) mod 16 \<longleftrightarrow> j = k"
  using mod_less_divisor[of 16 r] by (simp only: mod16_shift) (auto split: if_splits)
section \<open>Lists\<close>

lemma nth_update_if: "xs[i := v] ! j = (if i = j \<and> j < length xs then v else xs ! j)"
  by (cases "i = j") (auto simp: list_update_beyond)

lemma mset_filter_nth_update:
  assumes "i < length xs"
  shows "filter_mset P (mset (xs[i := v])) + (if P (xs ! i) then {#xs ! i#} else {#})
       = filter_mset P (mset xs) + (if P v then {#v#} else {#})"
proof -
  have "mset xs = add_mset (xs ! i) (mset (take i xs @ drop (Suc i) xs))"
    using assms by (simp add: id_take_nth_drop[OF assms, symmetric]
        flip: mset_append mset.simps(2)) (metis assms id_take_nth_drop mset.simps(2)
        mset_append union_mset_add_mset_right)
  moreover have "mset (xs[i := v]) = add_mset v (mset (take i xs @ drop (Suc i) xs))"
    using assms by (simp add: upd_conv_take_nth_drop)
  ultimately show ?thesis by simp
qed

lemma length_filter_update:
  "i < length xs \<Longrightarrow> length (filter P (xs[i := v])) + of_bool (P (xs ! i)) = length (filter P xs) + of_bool (P v)"
  using arg_cong[OF mset_filter_nth_update[of i xs P v], where f = size]
  by (simp flip: mset_filter) (auto split: if_splits)

lemma length_filter_0: "length (filter P xs) = 0 \<longleftrightarrow> (\<forall>i<length xs. \<not> P (xs ! i))"
  by (simp add: filter_empty_conv all_set_conv_all_nth)

text \<open>One summand drops by more than all the others together gain.\<close>

lemma sum_step_less:
  fixes f f' :: "nat \<Rightarrow> nat"
  assumes "i < n" "\<And>j. j < n \<Longrightarrow> j \<noteq> i \<Longrightarrow> f' j \<le> f j + d" "f' i + d * n < f i"
  shows "(\<Sum>j<n. f' j) < (\<Sum>j<n. f j)"
proof -
  have split: "(\<Sum>j<n. h j) = h i + (\<Sum>j\<in>{..<n} - {i}. h j)" for h :: "nat \<Rightarrow> nat"
    using assms(1) by (simp add: sum.remove)
  have "(\<Sum>j\<in>{..<n} - {i}. f' j) \<le> (\<Sum>j\<in>{..<n} - {i}. f j + d)"
    using assms(2) by (intro sum_mono) auto
  also have "\<dots> \<le> (\<Sum>j\<in>{..<n} - {i}. f j) + d * n"
    using assms(1) by (simp add: sum.distrib)
  finally show ?thesis using assms(3) split[of f'] split[of f] by linarith
qed

lemma sum_list_map_update:
  fixes f :: "'a \<Rightarrow> 'b :: comm_monoid_add"
  shows "i < length xs \<Longrightarrow> sum_list (map f (xs[i := v])) + f (xs ! i) = sum_list (map f xs) + f v"
proof (induction xs arbitrary: i)
  case (Cons x xs)
  show ?case
  proof (cases i)
    case (Suc j)
    with Cons have "sum_list (map f (xs[j := v])) + f (xs ! j) = sum_list (map f xs) + f v" by simp
    with Suc show ?thesis by (simp add: add.assoc)
  qed (simp add: ac_simps)
qed simp

text \<open>A quantity kept in balance: what one thread gives up appears elsewhere.\<close>

lemma balance_step:
  fixes a :: "'a :: cancel_comm_monoid_add"
  assumes act: "a' + h' + r' + c = a + h + r + c'" and upd: "S' + h = S + h'" and bal: "a + S + r = c"
  shows "a' + S' + r' = c'"
proof -
  have "(a' + S' + r') + (h + c) = (a' + r' + c) + (S' + h)" by (simp only: ac_simps)
  also have "\<dots> = (a' + r' + c) + (S + h')" by (simp only: upd)
  also have "\<dots> = (a' + h' + r' + c) + S" by (simp only: ac_simps)
  also have "\<dots> = (a + h + r + c') + S" by (simp only: act)
  also have "\<dots> = c' + h + (a + S + r)" by (simp only: ac_simps)
  also have "\<dots> = c' + (h + c)" by (simp only: bal add.assoc[of c' h c])
  finally show ?thesis by (simp only: add_right_cancel)
qed

lemma sum_list_replicate_zero [simp]: "sum_list (replicate n (0 :: 'a :: monoid_add)) = 0"
  by (induction n) auto

lemma all_nth_update:
  "(\<And>j. j < length xs \<Longrightarrow> j \<noteq> i \<Longrightarrow> P j (xs ! j)) \<Longrightarrow> P i v \<Longrightarrow> \<forall>j<length (xs[i := v]). P j (xs[i := v] ! j)"
  by (simp add: nth_update_if)

lemma take_drop_append [simp]: "take k xs @ drop k xs @ ys = xs @ ys"
  by (induction xs arbitrary: k) (auto simp: take_Cons drop_Cons split: nat.split)

lemma ex_nat_split: "(\<exists>i::nat. P i) \<longleftrightarrow> P 0 \<or> (\<exists>i. P (Suc i))"
  by (metis not0_implies_Suc)

section \<open>Results of repeated runs\<close>

text \<open>The results a program can end with.\<close>

definition outcomes :: "('s \<Rightarrow> 's \<Rightarrow> bool) \<Rightarrow> 's \<Rightarrow> ('s \<Rightarrow> bool) \<Rightarrow> ('s \<Rightarrow> 'r) \<Rightarrow> 'r set" where
  "outcomes step s final result = {result t | t. step\<^sup>*\<^sup>* s t \<and> final t}"

lemma outcomesI: "step\<^sup>*\<^sup>* s t \<Longrightarrow> final t \<Longrightarrow> result t = r \<Longrightarrow> r \<in> outcomes step s final result"
  unfolding outcomes_def by blast

lemma outcomesE:
  assumes "r \<in> outcomes step s final result"
  obtains t where "step\<^sup>*\<^sup>* s t" "final t" "result t = r"
  using assms unfolding outcomes_def by blast

lemma outcomes_unique:
  assumes "\<And>t. step\<^sup>*\<^sup>* s t \<Longrightarrow> final t \<Longrightarrow> result t = r" "\<exists>t. step\<^sup>*\<^sup>* s t \<and> final t"
  shows "outcomes step s final result = {r}"
  using assms unfolding outcomes_def by (intro equalityI subsetI) (blast | fastforce)+

section \<open>Exhaustive exploration\<close>

text \<open>
  A program whose runs are all shorter than a bound can be explored completely: \<open>explore\<close> follows every
  schedule and collects the states without a next action. \<open>None\<close> says that the bound was too small.
\<close>

definition successors :: "(nat \<Rightarrow> 'l \<Rightarrow> 'g \<Rightarrow> ('l \<times> 'g) option) \<Rightarrow> 'l list \<times> 'g \<Rightarrow> ('l list \<times> 'g) list" where
  "successors act s = concat (map (\<lambda>i. case act i (fst s ! i) (snd s) of None \<Rightarrow> [] | Some (l', g') \<Rightarrow> [((fst s)[i := l'], g')]) [0..<length (fst s)])"

fun all_some :: "'a list option list \<Rightarrow> 'a list option" where
  "all_some [] = Some []"
| "all_some (x # xs) = (case x of None \<Rightarrow> None | Some ys \<Rightarrow> map_option (\<lambda>zs. ys @ zs) (all_some xs))"

fun explore :: "nat \<Rightarrow> (nat \<Rightarrow> 'l \<Rightarrow> 'g \<Rightarrow> ('l \<times> 'g) option) \<Rightarrow> 'l list \<times> 'g \<Rightarrow> ('l list \<times> 'g) list option" where
  "explore n act s = (case successors act s of [] \<Rightarrow> Some [s]
     | _ # _ \<Rightarrow> (case n of 0 \<Rightarrow> None | Suc m \<Rightarrow> all_some (map (explore m act) (successors act s))))"

declare explore.simps [simp del]

lemma set_successors: "set (successors act s) = {t. prog_step act s t}"
proof -
  obtain ls g where s: "s = (ls, g)" by (cases s)
  show ?thesis unfolding s
  proof (intro set_eqI iffI CollectI)
    fix t assume "t \<in> set (successors act (ls, g))"
    then obtain i l' g' where "i < length ls" "act i (ls ! i) g = Some (l', g')" "t = (ls[i := l'], g')"
      by (auto simp: successors_def split: option.splits) (metis (no_types))
    then show "prog_step act (ls, g) t" by (simp add: prog_stepI)
  next
    fix t assume "t \<in> {t. prog_step act (ls, g) t}"
    then have "prog_step act (ls, g) t" by simp
    then obtain i l' g' where "i < length ls" "act i (ls ! i) g = Some (l', g')" "t = (ls[i := l'], g')" by (rule prog_stepE)
    then show "t \<in> set (successors act (ls, g))" by (force simp: successors_def)
  qed
qed

lemma successors_stuck: "successors act s = [] \<longleftrightarrow> stuck (prog_step act) s"
  using set_successors[of act s] by (auto simp: stuck_def simp flip: set_empty)

lemma stuck_runs:
  assumes "stuck step s"
  shows "step\<^sup>*\<^sup>* s t \<longleftrightarrow> t = s" and "(step ^^ k) s t \<Longrightarrow> k = 0"
proof -
  show "step\<^sup>*\<^sup>* s t \<longleftrightarrow> t = s" using assms by (auto simp: stuck_def elim: converse_rtranclpE)
  show "(step ^^ k) s t \<Longrightarrow> k = 0" using assms by (cases k) (auto simp: stuck_def simp del: relpowp.simps(2) dest: relpowp_Suc_D2)
qed

lemma all_some_eq: "all_some xs = Some zs \<longleftrightarrow> (\<forall>x\<in>set xs. x \<noteq> None) \<and> zs = concat (map the xs)"
  by (induction xs arbitrary: zs) (auto split: option.splits)

lemma explore_complete:
  assumes "explore n act s = Some ts"
  shows "set ts = {t. (prog_step act)\<^sup>*\<^sup>* s t \<and> stuck (prog_step act) t}" and "(prog_step act ^^ k) s t \<Longrightarrow> k \<le> n"
proof -
  have "set ts = {t. (prog_step act)\<^sup>*\<^sup>* s t \<and> stuck (prog_step act) t} \<and> (\<forall>k t. (prog_step act ^^ k) s t \<longrightarrow> k \<le> n)"
    using assms
  proof (induction n arbitrary: s ts)
    case 0
    then have st: "stuck (prog_step act) s" "ts = [s]" by (auto simp: explore.simps[of 0] simp flip: successors_stuck split: list.splits)
    then show ?case by (auto simp: stuck_runs dest: stuck_runs(2)[rotated])
  next
    case (Suc n)
    show ?case
    proof (cases "successors act s = []")
      case True
      then have st: "stuck (prog_step act) s" "ts = [s]" using Suc.prems True by (auto simp: explore.simps[of "Suc n"] simp flip: successors_stuck)
      then show ?thesis by (auto simp: stuck_runs dest: stuck_runs(2)[rotated])
    next
      case False
      then have ns: "\<not> stuck (prog_step act) s" by (simp add: successors_stuck)
      from False obtain u us where "successors act s = u # us" by (cases "successors act s") auto
      then have "all_some (map (explore n act) (successors act s)) = Some ts" using Suc.prems by (simp add: explore.simps[of "Suc n"])
      then have all: "\<forall>u. prog_step act s u \<longrightarrow> explore n act u \<noteq> None" and ts: "ts = concat (map (the \<circ> explore n act) (successors act s))"
        using set_successors[of act s] by (auto simp: all_some_eq)
      have ex: "explore n act u = Some (the (explore n act u))" if "prog_step act s u" for u using all[rule_format, OF that] by (cases "explore n act u") simp_all
      note IH = Suc.IH[OF ex]
      have "set ts = (\<Union>u\<in>{u. prog_step act s u}. set (the (explore n act u)))" using set_successors[of act s] by (simp add: ts)
      also have "\<dots> = (\<Union>u\<in>{u. prog_step act s u}. {t. (prog_step act)\<^sup>*\<^sup>* u t \<and> stuck (prog_step act) t})" using IH by auto
      also have "\<dots> = {t. (prog_step act)\<^sup>*\<^sup>* s t \<and> stuck (prog_step act) t}"
        using ns by (auto intro: converse_rtranclp_into_rtranclp elim: converse_rtranclpE)
      finally have "set ts = {t. (prog_step act)\<^sup>*\<^sup>* s t \<and> stuck (prog_step act) t}" .
      moreover have "k \<le> Suc n" if "(prog_step act ^^ k) s t" for k t
      proof (cases k)
        case (Suc j)
        with that obtain u where "prog_step act s u" "(prog_step act ^^ j) u t" using relpowp_Suc_D2 by metis
        with IH Suc show ?thesis by blast
      qed simp
      ultimately show ?thesis by blast
    qed
  qed
  then show "set ts = {t. (prog_step act)\<^sup>*\<^sup>* s t \<and> stuck (prog_step act) t}" and "(prog_step act ^^ k) s t \<Longrightarrow> k \<le> n" by blast+
qed

lemma explore_outcomes:
  assumes "map_option (\<lambda>ts. remdups (map result ts)) (explore n act s) = Some rs"
  shows "outcomes (prog_step act) s (stuck (prog_step act)) result = set rs"
proof -
  from assms obtain ts where ts: "explore n act s = Some ts" "rs = remdups (map result ts)" by auto
  show ?thesis unfolding outcomes_def ts(2) set_remdups set_map explore_complete(1)[OF ts(1)] by blast
qed

lemma explore_bounded:
  assumes "explore n act s \<noteq> None" "(prog_step act ^^ k) s t"
  shows "k \<le> n"
  using assms(1) explore_complete(2)[OF _ assms(2)] by auto

end
