(* ===== verification/Ipc_Queue.thy ===== *)
theory Ipc_Queue
  imports Prelude
begin

text \<open>
  The shared-memory message queue of \<^verbatim>\<open>hw4/ipc_queue.h\<close> and \<^verbatim>\<open>hw4/ipc_queue.cpp\<close>: its layout
  as records, its operations as functions of the layout, composed of the atomic actions
  the code performs one after the other (the interleaving model of \<^verbatim>\<open>Ipc_Queue_Conc\<close>
  schedules the same actions). Pointer arguments are options, \<open>None\<close> the null pointer;
  an operation's own result is an option too, \<open>None\<close> undefined behaviour (an access outside an
  object). The lemmas show that the array sizes are kept, that a queue on which no push
  has failed for lack of space is a bounded FIFO queue, and what a failed push breaks.
\<close>

section \<open>Layout\<close>

definition PROTOCOL_MAGIC :: u32 where
  "PROTOCOL_MAGIC = 0x48573431"

definition PROTOCOL_VERSION :: u32 where
  "PROTOCOL_VERSION = 1"

definition QUEUE_CAPACITY :: size_t where
  "QUEUE_CAPACITY = 16"

definition MAX_PAYLOAD_SIZE :: size_t where
  "MAX_PAYLOAD_SIZE = 256"

datatype MessageType = UNKNOWN | TEXT | NUMBER

fun message_type_code :: "MessageType \<Rightarrow> u32" where
  "message_type_code UNKNOWN = 0"
| "message_type_code TEXT = 1"
| "message_type_code NUMBER = 2"

record MessageHeader =
  msg_type :: u32
  msg_length :: u32

record QueueMeta =
  magic :: u32
  protocol_version :: u32
  capacity :: u32
  max_payload_size :: u32

datatype SlotState = EMPTY | WRITING | READY

fun slot_state_code :: "SlotState \<Rightarrow> u32" where
  "slot_state_code EMPTY = 0"
| "slot_state_code WRITING = 1"
| "slot_state_code READY = 2"

record MessageSlot =
  slot_state :: u32
  slot_header :: MessageHeader
  payload :: "byte list"

record SharedQueueLayout =
  meta :: QueueMeta
  write_index :: size_t
  read_index :: size_t
  slots :: "MessageSlot list"

section \<open>Atomic actions\<close>

text \<open>The position in \<open>slots\<close> that the pointer returned by \<^verbatim>\<open>get_slot\<close> refers to.\<close>

definition get_slot :: "size_t \<Rightarrow> nat" where
  "get_slot index = unat (index mod QUEUE_CAPACITY)"

definition upd_slot :: "nat \<Rightarrow> (MessageSlot \<Rightarrow> MessageSlot) \<Rightarrow> SharedQueueLayout \<Rightarrow> SharedQueueLayout" where
  "upd_slot i f q = q\<lparr>slots := (slots q)[i := f (slots q ! i)]\<rparr>"

definition store_state :: "nat \<Rightarrow> SlotState \<Rightarrow> SharedQueueLayout \<Rightarrow> SharedQueueLayout" where
  "store_state i st = upd_slot i (\<lambda>s. s\<lparr>slot_state := slot_state_code st\<rparr>)"

definition store_type :: "nat \<Rightarrow> MessageType \<Rightarrow> SharedQueueLayout \<Rightarrow> SharedQueueLayout" where
  "store_type i t =
     upd_slot i (\<lambda>s. s\<lparr>slot_header := (slot_header s)\<lparr>msg_type := message_type_code t\<rparr>\<rparr>)"

definition store_length :: "nat \<Rightarrow> u32 \<Rightarrow> SharedQueueLayout \<Rightarrow> SharedQueueLayout" where
  "store_length i n = upd_slot i (\<lambda>s. s\<lparr>slot_header := (slot_header s)\<lparr>msg_length := n\<rparr>\<rparr>)"

definition store_payload :: "nat \<Rightarrow> byte list \<Rightarrow> SharedQueueLayout \<Rightarrow> SharedQueueLayout" where
  "store_payload i p = upd_slot i (\<lambda>s. s\<lparr>payload := p\<rparr>)"

text \<open>\<^verbatim>\<open>write_index.fetch_add(1)\<close>: the index reserved, and the queue with the index advanced.\<close>

definition reserve_index :: "SharedQueueLayout \<Rightarrow> size_t \<times> SharedQueueLayout" where
  "reserve_index q = (write_index q, q\<lparr>write_index := write_index q + 1\<rparr>)"

text \<open>The \<^verbatim>\<open>compare_exchange_strong\<close> of a slot from \<open>EMPTY\<close> to \<open>WRITING\<close>.\<close>

definition claim_slot :: "nat \<Rightarrow> SharedQueueLayout \<Rightarrow> bool \<times> SharedQueueLayout" where
  "claim_slot i q =
     (if slot_state (slots q ! i) = slot_state_code EMPTY
      then (True, store_state i WRITING q) else (False, q))"

section \<open>Operations\<close>

definition init_slot :: "nat \<Rightarrow> SharedQueueLayout \<Rightarrow> SharedQueueLayout" where
  "init_slot i q =
     store_payload i (replicate (unat MAX_PAYLOAD_SIZE) 0)
       (store_length i 0 (store_type i UNKNOWN (store_state i EMPTY q)))"

definition init_queue :: "SharedQueueLayout \<Rightarrow> SharedQueueLayout" where
  "init_queue q =
     fold init_slot [0..<unat QUEUE_CAPACITY]
       (q\<lparr>meta := \<lparr>magic = PROTOCOL_MAGIC, protocol_version = PROTOCOL_VERSION,
                   capacity = ucast QUEUE_CAPACITY, max_payload_size = ucast MAX_PAYLOAD_SIZE\<rparr>,
          write_index := 0, read_index := 0\<rparr>)"

definition is_queue_valid :: "SharedQueueLayout \<Rightarrow> bool" where
  "is_queue_valid q =
     (if magic (meta q) \<noteq> PROTOCOL_MAGIC then False
      else if protocol_version (meta q) \<noteq> PROTOCOL_VERSION then False
      else if ucast (capacity (meta q)) \<noteq> QUEUE_CAPACITY then False
      else if ucast (max_payload_size (meta q)) \<noteq> MAX_PAYLOAD_SIZE then False
      else True)"

definition try_push_message ::
  "SharedQueueLayout option \<Rightarrow> MessageType \<Rightarrow> byte list option \<Rightarrow> size_t \<Rightarrow>
   (bool \<times> SharedQueueLayout option) option" where
  "try_push_message queue type data len =
     (case (queue, data) of
        (Some q, Some d) \<Rightarrow>
          if len > MAX_PAYLOAD_SIZE then Some (False, queue)
          else
            let (index, q1) = reserve_index q;
                slot = get_slot index;
                (claimed, q2) = claim_slot slot q1
            in if \<not> claimed then Some (False, Some q2)
               else
                 let q3 = store_length slot (ucast len) (store_type slot type q2)
                 in case (if len > 0 then memcpy (payload (slots q3 ! slot)) d (unat len)
                          else Some (payload (slots q3 ! slot))) of
                      None \<Rightarrow> None
                    | Some p \<Rightarrow> Some (True, Some (store_state slot READY (store_payload slot p q3)))
      | _ \<Rightarrow> Some (False, queue))"

text \<open>
  The result of \<^verbatim>\<open>try_pop_message\<close>: the returned flag, the queue, the caller's buffer and the
  caller's header after the call.
\<close>

record pop_result =
  popped :: bool
  queue_after :: "SharedQueueLayout option"
  out_buffer :: "byte list option"
  out_header :: "MessageHeader option"

definition release_slot :: "nat \<Rightarrow> byte list \<Rightarrow> SharedQueueLayout \<Rightarrow> SharedQueueLayout" where
  "release_slot slot zeros q =
     store_state slot EMPTY
       (store_payload slot zeros (store_length slot 0 (store_type slot UNKNOWN q)))"

definition try_pop_message ::
  "SharedQueueLayout option \<Rightarrow> MessageType \<Rightarrow> byte list option \<Rightarrow> size_t \<Rightarrow>
   MessageHeader option \<Rightarrow> pop_result option" where
  "try_pop_message queue expected_type buf buffer_size hdr =
     (let failed = (\<lambda>q. \<lparr>popped = False, queue_after = q, out_buffer = buf, out_header = hdr\<rparr>)
      in case (queue, buf, hdr) of
           (Some q, Some b, Some h) \<Rightarrow>
             (let index = read_index q;
                  slot = get_slot index;
                  s = slots q ! slot
              in if slot_state s \<noteq> slot_state_code READY then Some (failed queue)
                 else
                   let header = slot_header s
                   in if ucast (msg_length header) > MAX_PAYLOAD_SIZE then Some (failed queue)
                      else if ucast (msg_length header) > buffer_size then Some (failed queue)
                      else
                        let matches = (msg_type header = message_type_code expected_type)
                        in case (if matches \<and> msg_length header > 0
                                 then memcpy b (payload s) (unat (msg_length header)) else Some b) of
                             None \<Rightarrow> None
                           | Some b' \<Rightarrow>
                               (case memset (payload s) 0 (unat MAX_PAYLOAD_SIZE) of
                                  None \<Rightarrow> None
                                | Some zeros \<Rightarrow>
                                    let q' = (release_slot slot zeros q)\<lparr>read_index := index + 1\<rparr>
                                    in Some \<lparr>popped = matches, queue_after = Some q',
                                             out_buffer = Some b',
                                             out_header = Some (if matches then header else h)\<rparr>))
         | _ \<Rightarrow> Some (failed queue))"


section \<open>Actions, field by field\<close>

lemma upd_slot_sel [simp]:
  "meta (upd_slot i f q) = meta q"
  "write_index (upd_slot i f q) = write_index q"
  "read_index (upd_slot i f q) = read_index q"
  "slots (upd_slot i f q) = (slots q)[i := f (slots q ! i)]"
  by (simp_all add: upd_slot_def)

lemma upd_slot_compose:
  "i < length (slots q) \<Longrightarrow> upd_slot i g (upd_slot i f q) = upd_slot i (\<lambda>s. g (f s)) q"
  by (simp add: upd_slot_def)

lemmas store_defs = store_state_def store_type_def store_length_def store_payload_def

lemma get_slot_less: "get_slot index < 16"
  by (simp add: get_slot_def QUEUE_CAPACITY_def unat_mod)

lemma get_slot_unat: "get_slot index = unat index mod 16"
  by (simp add: get_slot_def QUEUE_CAPACITY_def unat_mod)

lemma unat_consts [simp]:
  "unat QUEUE_CAPACITY = 16" "unat MAX_PAYLOAD_SIZE = 256"
  by (simp_all add: QUEUE_CAPACITY_def MAX_PAYLOAD_SIZE_def)

lemma slot_state_code_inject [simp]:
  "slot_state_code a = slot_state_code b \<longleftrightarrow> a = b"
  by (cases a; cases b) simp_all

lemma message_type_code_inject [simp]:
  "message_type_code a = message_type_code b \<longleftrightarrow> a = b"
  by (cases a; cases b) simp_all

text \<open>Sixteen divides \<open>2 ^ 64\<close>, so the slot of an index survives the wrap-around of the counter.\<close>

lemma get_slot_add: "get_slot (index + of_nat k) = (get_slot index + k) mod 16"
proof -
  have "unat (index + of_nat k) = (unat index + k) mod 2 ^ 64"
    by (simp add: unat_word_ariths unat_of_nat mod_add_right_eq)
  then have "get_slot (index + of_nat k) = (unat index + k) mod 2 ^ 64 mod 16"
    by (simp add: get_slot_unat)
  also have "\<dots> = (unat index + k) mod 16"
    by (rule mod_mod_cancel) (simp add: dvd_def)
  finally show ?thesis by (simp add: get_slot_unat mod_add_left_eq)
qed

section \<open>The array sizes are kept\<close>

definition wf_slot :: "MessageSlot \<Rightarrow> bool" where
  "wf_slot s \<longleftrightarrow> length (payload s) = 256"

definition wf_queue :: "SharedQueueLayout \<Rightarrow> bool" where
  "wf_queue q \<longleftrightarrow> length (slots q) = 16 \<and> list_all wf_slot (slots q)"

lemma wf_queueD: "wf_queue q \<Longrightarrow> length (slots q) = 16"
  by (simp add: wf_queue_def)

lemma wf_queue_nth: "wf_queue q \<Longrightarrow> i < 16 \<Longrightarrow> length (payload (slots q ! i)) = 256"
  by (simp add: wf_queue_def list_all_length wf_slot_def)

lemma wf_queue_upd_slot:
  "wf_queue q \<Longrightarrow> i < 16 \<Longrightarrow> length (payload (f (slots q ! i))) = 256 \<Longrightarrow> wf_queue (upd_slot i f q)"
  by (auto simp: wf_queue_def list_all_length nth_list_update wf_slot_def)

section \<open>Each operation as one update of one slot\<close>

definition push_slot :: "MessageType \<Rightarrow> byte list \<Rightarrow> size_t \<Rightarrow> MessageSlot \<Rightarrow> MessageSlot" where
  "push_slot type d len s =
     s\<lparr>slot_header := (slot_header s)\<lparr>msg_type := message_type_code type, msg_length := ucast len\<rparr>,
       payload := take (unat len) d @ drop (unat len) (payload s),
       slot_state := slot_state_code READY\<rparr>"

definition empty_slot :: "MessageSlot \<Rightarrow> MessageSlot" where
  "empty_slot s =
     s\<lparr>slot_header := (slot_header s)\<lparr>msg_type := message_type_code UNKNOWN, msg_length := 0\<rparr>,
       payload := replicate 256 0,
       slot_state := slot_state_code EMPTY\<rparr>"

lemma try_push_message_eq:
  assumes wf: "wf_queue q" and len: "len \<le> MAX_PAYLOAD_SIZE" and data: "unat len \<le> length d"
  defines "i \<equiv> get_slot (write_index q)"
  shows "try_push_message (Some q) type (Some d) len =
    (let q1 = q\<lparr>write_index := write_index q + 1\<rparr>
     in if slot_state (slots q ! i) = slot_state_code EMPTY
        then Some (True, Some (upd_slot i (push_slot type d len) q1))
        else Some (False, Some q1))"
proof -
  have i: "i < length (slots q)"
    using get_slot_less wf_queueD[OF wf] by (simp add: i_def)
  have p: "length (payload (slots q ! i)) = 256"
    using wf_queue_nth[OF wf] get_slot_less by (simp add: i_def)
  have n: "unat len \<le> 256"
    using len by (simp add: word_le_nat_alt)
  have zero: "len = 0" if "\<not> len > 0" using that by (simp add: word_gt_0)
  show ?thesis
    using i p n data len zero
    by (auto simp: try_push_message_def reserve_index_def claim_slot_def Let_def store_defs
        i_def[symmetric] push_slot_def upd_slot_def linorder_not_less)
qed

lemma try_pop_message_eq:
  assumes wf: "wf_queue q" and b: "unat buffer_size \<le> length b"
  fixes h :: MessageHeader
  defines "i \<equiv> get_slot (read_index q)"
  defines "s \<equiv> slots q ! i"
  defines "n \<equiv> unat (msg_length (slot_header s))"
  defines "failed \<equiv> \<lparr>popped = False, queue_after = Some q, out_buffer = Some b, out_header = Some h\<rparr>"
  defines "q' \<equiv> (upd_slot i empty_slot q)\<lparr>read_index := read_index q + 1\<rparr>"
  shows "try_pop_message (Some q) t (Some b) buffer_size (Some h) =
    (if slot_state s \<noteq> slot_state_code READY \<or> n > 256 \<or> n > unat buffer_size then Some failed
     else if msg_type (slot_header s) = message_type_code t
     then Some \<lparr>popped = True, queue_after = Some q',
                out_buffer = Some (take n (payload s) @ drop n b), out_header = Some (slot_header s)\<rparr>
     else Some \<lparr>popped = False, queue_after = Some q', out_buffer = Some b, out_header = Some h\<rparr>)"
proof -
  have i: "i < length (slots q)"
    using get_slot_less wf_queueD[OF wf] by (simp add: i_def)
  have p: "length (payload s) = 256"
    using wf_queue_nth[OF wf] get_slot_less by (simp add: i_def s_def)
  have gt: "(MAX_PAYLOAD_SIZE < ucast (msg_length (slot_header s))) = (256 < n)"
    "(buffer_size < ucast (msg_length (slot_header s))) = (unat buffer_size < n)"
    by (simp_all add: word_less_nat_alt n_def)
  have zero: "n = 0" if "\<not> 0 < msg_length (slot_header s)"
    using that by (simp add: n_def word_gt_0)
  have rel: "release_slot i (replicate 256 0) q = upd_slot i empty_slot q"
    using i by (simp add: release_slot_def store_defs upd_slot_compose empty_slot_def)
  show ?thesis
    using p b zero
    by (auto simp: try_pop_message_def Let_def i_def[symmetric] s_def[symmetric] gt rel q'_def
        failed_def n_def[symmetric])
qed

lemma wf_queue_push:
  assumes "wf_queue q" "i < 16" "unat len \<le> 256" "unat len \<le> length d"
  shows "wf_queue (upd_slot i (push_slot type d len) q)"
  using assms wf_queue_nth[of q i] by (intro wf_queue_upd_slot) (auto simp: push_slot_def)

lemma wf_queue_pop: "wf_queue q \<Longrightarrow> i < 16 \<Longrightarrow> wf_queue (upd_slot i empty_slot q)"
  by (intro wf_queue_upd_slot) (auto simp: empty_slot_def)

lemma wf_queue_indices [simp]:
  "wf_queue (q\<lparr>write_index := w\<rparr>) = wf_queue q"
  "wf_queue (q\<lparr>read_index := r\<rparr>) = wf_queue q"
  by (simp_all add: wf_queue_def)

section \<open>The queue as a bounded FIFO of messages\<close>

type_synonym message = "u32 \<times> byte list"

definition slot_message :: "MessageSlot \<Rightarrow> message" where
  "slot_message s =
     (msg_type (slot_header s), take (unat (msg_length (slot_header s))) (payload s))"

text \<open>The number of indices reserved and not yet consumed.\<close>

definition pending :: "SharedQueueLayout \<Rightarrow> nat" where
  "pending q = unat (write_index q - read_index q)"

definition nth_slot :: "SharedQueueLayout \<Rightarrow> nat \<Rightarrow> MessageSlot" where
  "nth_slot q k = slots q ! get_slot (read_index q + of_nat k)"

text \<open>
  The pending indices are exactly the \<open>READY\<close> slots, all other slots are \<open>EMPTY\<close>: what
  every queue satisfies as long as no push has failed for lack of space.
\<close>

definition fifo_ok :: "SharedQueueLayout \<Rightarrow> bool" where
  "fifo_ok q \<longleftrightarrow> wf_queue q \<and> pending q \<le> 16 \<and>
     (\<forall>k<pending q. slot_state (nth_slot q k) = slot_state_code READY
        \<and> msg_length (slot_header (nth_slot q k)) \<le> 256) \<and>
     (\<forall>k. pending q \<le> k \<longrightarrow> k < 16 \<longrightarrow> slot_state (nth_slot q k) = slot_state_code EMPTY)"

definition contents :: "SharedQueueLayout \<Rightarrow> message list" where
  "contents q = map (\<lambda>k. slot_message (nth_slot q k)) [0..<pending q]"

lemma length_contents [simp]: "length (contents q) = pending q"
  by (simp add: contents_def)

lemma fifo_okD:
  assumes "fifo_ok q"
  shows "wf_queue q" "pending q \<le> 16"
    "k < pending q \<Longrightarrow> slot_state (nth_slot q k) = slot_state_code READY"
    "k < pending q \<Longrightarrow> unat (msg_length (slot_header (nth_slot q k))) \<le> 256"
    "pending q \<le> k \<Longrightarrow> k < 16 \<Longrightarrow> slot_state (nth_slot q k) = slot_state_code EMPTY"
  using assms by (auto simp: fifo_ok_def word_le_nat_alt)

lemma fifo_okI:
  assumes "wf_queue q" "pending q = n" "n \<le> 16"
    and "\<And>k. k < n \<Longrightarrow> slot_state (nth_slot q k) = slot_state_code READY \<and>
      msg_length (slot_header (nth_slot q k)) \<le> 256"
    and "\<And>k. n \<le> k \<Longrightarrow> k < 16 \<Longrightarrow> slot_state (nth_slot q k) = slot_state_code EMPTY"
  shows "fifo_ok q"
  using assms by (simp add: fifo_ok_def)

lemma get_slot_inject:
  "j < 16 \<Longrightarrow> k < 16 \<Longrightarrow> get_slot (r + of_nat j) = get_slot (r + of_nat k) \<longleftrightarrow> j = k"
  by (simp add: get_slot_add mod16_inject)

lemma write_index_pending: "write_index q = read_index q + of_nat (pending q)"
  by (simp add: pending_def)

lemma pending_advance_write:
  "pending q < 16 \<Longrightarrow> pending (q\<lparr>write_index := write_index q + 1\<rparr>) = Suc (pending q)"
  using unat_Suc_bound[of "write_index q - read_index q"] by (simp add: pending_def algebra_simps)

lemma pending_advance_read:
  "0 < pending q \<Longrightarrow> pending (q\<lparr>read_index := read_index q + 1\<rparr>) = pending q - 1"
  using unat_pred[of "write_index q - read_index q"] by (simp add: pending_def algebra_simps)

lemma pending_upd_slot [simp]: "pending (upd_slot i f q) = pending q"
  by (simp add: pending_def)

lemma nth_slot_write [simp]: "nth_slot (q\<lparr>write_index := w\<rparr>) k = nth_slot q k"
  by (simp add: nth_slot_def)

lemma nth_slot_read:
  "nth_slot (q\<lparr>read_index := read_index q + 1\<rparr>) k = nth_slot q (Suc k)"
  by (simp add: nth_slot_def algebra_simps)

lemma nth_slot_upd_slot:
  assumes "wf_queue q" "j < 16" "k < 16"
  shows "nth_slot (upd_slot (get_slot (read_index q + of_nat j)) f q) k =
    (if j = k then f (nth_slot q k) else nth_slot q k)"
  using assms get_slot_less wf_queueD[OF assms(1)]
  by (auto simp: nth_slot_def nth_list_update get_slot_inject)

lemma nth_slot_wrap: "nth_slot q 16 = nth_slot q 0"
  using get_slot_add[of "read_index q" 16] get_slot_add[of "read_index q" 0] get_slot_less
  by (simp add: nth_slot_def)

lemma slot_message_push:
  "unat len \<le> 256 \<Longrightarrow> unat len \<le> length d \<Longrightarrow>
   slot_message (push_slot type d len s) = (message_type_code type, take (unat len) d)"
  by (simp add: slot_message_def push_slot_def unat_ucast_narrow)

lemma slot_state_push [simp]:
  "slot_state (push_slot type d len s) = slot_state_code READY"
  "msg_length (slot_header (push_slot type d len s)) = ucast len"
  by (simp_all add: push_slot_def)

lemma slot_state_empty [simp]: "slot_state (empty_slot s) = slot_state_code EMPTY"
  by (simp add: empty_slot_def)

lemma length_slot_message:
  "wf_queue q \<Longrightarrow> unat (msg_length (slot_header (nth_slot q k))) \<le> 256 \<Longrightarrow>
   length (snd (slot_message (nth_slot q k))) = unat (msg_length (slot_header (nth_slot q k)))"
  using wf_queue_nth[OF _ get_slot_less] by (simp add: slot_message_def nth_slot_def)

lemma push_fifo:
  assumes ok: "fifo_ok q" and room: "pending q < 16"
    and len: "len \<le> MAX_PAYLOAD_SIZE" and data: "unat len \<le> length d"
  shows "\<exists>q'. try_push_message (Some q) type (Some d) len = Some (True, Some q') \<and> fifo_ok q' \<and>
    contents q' = contents q @ [(message_type_code type, take (unat len) d)]"
proof -
  note okD = fifo_okD[OF ok]
  let ?q1 = "q\<lparr>write_index := write_index q + 1\<rparr>"
  let ?q' = "upd_slot (get_slot (write_index q)) (push_slot type d len) ?q1"
  have n: "unat len \<le> 256" using len by (simp add: word_le_nat_alt)
  have wi: "read_index q + of_nat (pending q) = write_index q"
    by (simp add: write_index_pending)
  have nth: "nth_slot ?q' k = (if pending q = k then push_slot type d len (nth_slot q k)
      else nth_slot q k)" if "k < 16" for k
    using nth_slot_upd_slot[of ?q1 "pending q" k "push_slot type d len"] okD(1) room that
    by (simp add: wi)
  have "slot_state (slots q ! get_slot (write_index q)) = slot_state_code EMPTY"
    using okD(5)[of "pending q"] room by (simp add: nth_slot_def wi)
  then have push: "try_push_message (Some q) type (Some d) len = Some (True, Some ?q')"
    using try_push_message_eq[OF okD(1) len data] by (simp add: Let_def)
  have p: "pending ?q' = Suc (pending q)" using room by (simp add: pending_advance_write)
  have wf: "wf_queue ?q'"
    using okD(1) n data by (intro wf_queue_push get_slot_less) simp_all
  have rdy: "slot_state (nth_slot ?q' k) = slot_state_code READY \<and>
      msg_length (slot_header (nth_slot ?q' k)) \<le> 256" if "k < Suc (pending q)" for k
    using that room n okD(3,4)[of k] by (auto simp: nth word_le_nat_alt unat_ucast_narrow)
  have emp: "slot_state (nth_slot ?q' k) = slot_state_code EMPTY"
    if "Suc (pending q) \<le> k" "k < 16" for k
    using that okD(5)[of k] by (simp add: nth)
  have "fifo_ok ?q'"
    using room by (intro fifo_okI[OF wf p _ rdy emp]) simp_all
  moreover have "contents ?q' = contents q @ [(message_type_code type, take (unat len) d)]"
    unfolding contents_def p using room n data by (auto simp: nth slot_message_push)
  ultimately show ?thesis using push by blast
qed

lemma push_full:
  assumes ok: "fifo_ok q" and full: "pending q = 16"
    and len: "len \<le> MAX_PAYLOAD_SIZE" and data: "unat len \<le> length d"
  shows "try_push_message (Some q) type (Some d) len =
    Some (False, Some (q\<lparr>write_index := write_index q + 1\<rparr>))"
proof -
  have "slots q ! get_slot (write_index q) = nth_slot q 0"
    using nth_slot_wrap[of q] full write_index_pending[of q] by (simp add: nth_slot_def)
  then have "slot_state (slots q ! get_slot (write_index q)) \<noteq> slot_state_code EMPTY"
    using fifo_okD(3)[OF ok, of 0] full by simp
  then show ?thesis
    using try_push_message_eq[OF fifo_okD(1)[OF ok] len data] by (simp add: Let_def)
qed

lemma nth_slot_upd_head:
  assumes "wf_queue q" "k < 16"
  shows "nth_slot (upd_slot (get_slot (read_index q)) f q) k =
    (if k = 0 then f (nth_slot q k) else nth_slot q k)"
  using nth_slot_upd_slot[OF assms(1) _ assms(2), of 0 f] by auto

lemma pop_fifo:
  assumes ok: "fifo_ok q" and c: "contents q = m # ms"
    and fits: "length (snd m) \<le> unat buffer_size" and b: "unat buffer_size \<le> length b"
  fixes t :: MessageType
  defines "matches \<equiv> fst m = message_type_code t"
  shows "\<exists>q'. try_pop_message (Some q) t (Some b) buffer_size (Some h) =
      Some \<lparr>popped = matches, queue_after = Some q',
            out_buffer = Some (if matches then snd m @ drop (length (snd m)) b else b),
            out_header = Some (if matches then slot_header (nth_slot q 0) else h)\<rparr> \<and>
      fifo_ok q' \<and> contents q' = ms \<and> read_index q' = read_index q + 1"
proof -
  note okD = fifo_okD[OF ok]
  let ?q' = "(upd_slot (get_slot (read_index q)) empty_slot q)\<lparr>read_index := read_index q + 1\<rparr>"
  have p: "0 < pending q" using arg_cong[OF c, of length] by simp
  have m: "m = slot_message (nth_slot q 0)"
    using c p by (cases "pending q") (simp_all add: contents_def upt_conv_Cons del: upt_Suc)
  have ms: "ms = map (\<lambda>k. slot_message (nth_slot q k)) [Suc 0..<pending q]"
    using c p by (simp add: contents_def upt_conv_Cons)
  have n: "length (snd m) = unat (msg_length (slot_header (nth_slot q 0)))"
    using length_slot_message okD(1) okD(4)[OF p] by (simp add: m)
  have s0: "slots q ! get_slot (read_index q) = nth_slot q 0" by (simp add: nth_slot_def)
  have snd_m: "take (unat (msg_length (slot_header (nth_slot q 0)))) (payload (nth_slot q 0)) = snd m"
    by (simp add: m slot_message_def)
  have fst_m: "msg_type (slot_header (nth_slot q 0)) = fst m"
    by (simp add: m slot_message_def)
  have pop: "try_pop_message (Some q) t (Some b) buffer_size (Some h) =
      Some \<lparr>popped = matches, queue_after = Some ?q',
            out_buffer = Some (if matches then snd m @ drop (length (snd m)) b else b),
            out_header = Some (if matches then slot_header (nth_slot q 0) else h)\<rparr>"
    using try_pop_message_eq[OF okD(1) b, of t h] okD(3,4)[OF p] fits n
    by (simp add: s0 snd_m fst_m matches_def)
  have nth: "nth_slot ?q' k = (if k = 15 then empty_slot (nth_slot q 0) else nth_slot q (Suc k))"
    if "k < 16" for k
  proof -
    have "nth_slot ?q' k = nth_slot (upd_slot (get_slot (read_index q)) empty_slot q) (Suc k)"
      using nth_slot_read[of "upd_slot (get_slot (read_index q)) empty_slot q" k] by simp
    moreover have "nth_slot (upd_slot (get_slot (read_index q)) empty_slot q) 16 = empty_slot (nth_slot q 0)"
      using nth_slot_wrap nth_slot_upd_head[OF okD(1), of 0] by simp
    moreover have "nth_slot (upd_slot (get_slot (read_index q)) empty_slot q) (Suc k) = nth_slot q (Suc k)"
      if "Suc k < 16"
      using nth_slot_upd_head[OF okD(1) that] by simp
    ultimately show ?thesis using that by (cases "k = 15") simp_all
  qed
  have p': "pending ?q' = pending q - 1"
    using p pending_advance_read[of "upd_slot (get_slot (read_index q)) empty_slot q"] by simp
  have wf: "wf_queue ?q'"
    using wf_queue_pop[OF okD(1) get_slot_less] by simp
  have rdy: "slot_state (nth_slot ?q' k) = slot_state_code READY \<and>
      msg_length (slot_header (nth_slot ?q' k)) \<le> 256" if "k < pending q - 1" for k
    using that okD(2) okD(3,4)[of "Suc k"] by (simp add: nth word_le_nat_alt)
  have emp: "slot_state (nth_slot ?q' k) = slot_state_code EMPTY"
    if "pending q - 1 \<le> k" "k < 16" for k
    using that okD(5)[of "Suc k"] by (simp add: nth)
  have "fifo_ok ?q'"
    using okD(2) by (intro fifo_okI[OF wf p' _ rdy emp]) simp_all
  moreover have "contents ?q' = ms"
    unfolding contents_def p' ms
    using p okD(2) by (intro nth_equalityI) (auto simp: nth)
  ultimately show ?thesis using pop by auto
qed

lemma pop_empty:
  assumes ok: "fifo_ok q" and c: "contents q = []" and b: "unat buffer_size \<le> length b"
  shows "try_pop_message (Some q) t (Some b) buffer_size (Some h) =
    Some \<lparr>popped = False, queue_after = Some q, out_buffer = Some b, out_header = Some h\<rparr>"
proof -
  have "pending q = 0" using arg_cong[OF c, of length] by simp
  then have "slot_state (nth_slot q 0) = slot_state_code EMPTY"
    using fifo_okD(5)[OF ok, of 0] by simp
  then have "slot_state (slots q ! get_slot (read_index q)) \<noteq> slot_state_code READY"
    by (simp add: nth_slot_def)
  then show ?thesis
    using try_pop_message_eq[OF fifo_okD(1)[OF ok] b] by simp
qed

section \<open>Sending and receiving\<close>

text \<open>
  The two ways the programs use the queue. A sender passes a whole object
  (\<^verbatim>\<open>&data, sizeof(data)\<close>); a receiver keeps the queue, its buffer and its header between calls
  (\<^verbatim>\<open>buffer, sizeof(buffer), &header\<close>).
\<close>

type_synonym receiver = "SharedQueueLayout \<times> byte list \<times> MessageHeader"

definition send :: "MessageType \<times> byte list \<Rightarrow> SharedQueueLayout \<Rightarrow> (bool \<times> SharedQueueLayout) option" where
  "send m q =
     (case try_push_message (Some q) (fst m) (Some (snd m)) (of_nat (length (snd m))) of
        Some (pushed, Some q') \<Rightarrow> Some (pushed, q') | _ \<Rightarrow> None)"

definition receive :: "MessageType \<Rightarrow> receiver \<Rightarrow> (bool \<times> receiver) option" where
  "receive t r =
     (case r of (q, b, h) \<Rightarrow>
        (case try_pop_message (Some q) t (Some b) (of_nat (length b)) (Some h) of
           None \<Rightarrow> None
         | Some res \<Rightarrow>
             (case (queue_after res, out_buffer res, out_header res) of
                (Some q', Some b', Some h') \<Rightarrow> Some (popped res, q', b', h')
              | _ \<Rightarrow> None)))"

lemma unat_of_nat_256 [simp]: "n \<le> 256 \<Longrightarrow> unat (of_nat n :: size_t) = n"
  by (simp add: unat_of_nat)

lemma length_contents_le: "fifo_ok q \<Longrightarrow> m \<in> set (contents q) \<Longrightarrow> length (snd m) \<le> 256"
  using fifo_okD[of q] by (auto simp: contents_def length_slot_message)

lemma send_room:
  assumes "fifo_ok q" "length (contents q) < 16" "length (snd m) \<le> 256"
  shows "\<exists>q'. send m q = Some (True, q') \<and> fifo_ok q' \<and>
    contents q' = contents q @ [(message_type_code (fst m), snd m)] \<and> read_index q' = read_index q"
proof -
  have "of_nat (length (snd m)) \<le> MAX_PAYLOAD_SIZE"
    using assms(3) by (simp add: word_le_nat_alt)
  with push_fifo[OF assms(1), of "of_nat (length (snd m))" "snd m" "fst m"] assms(2,3)
  obtain q' where q': "try_push_message (Some q) (fst m) (Some (snd m)) (of_nat (length (snd m))) =
      Some (True, Some q')" "fifo_ok q'" "contents q' = contents q @ [(message_type_code (fst m), snd m)]"
    by auto
  then have "read_index q' = read_index q"
    using try_push_message_eq[OF fifo_okD(1)[OF assms(1)], of "of_nat (length (snd m))" "snd m" "fst m"]
      assms(3) by (auto simp: word_le_nat_alt Let_def split: if_splits)
  with q' show ?thesis by (simp add: send_def)
qed

lemma receive_cons:
  assumes "fifo_ok q" "contents q = m # ms" "length b = 256"
  shows "\<exists>q' b' h'. receive t (q, b, h) = Some (fst m = message_type_code t, q', b', h') \<and>
    fifo_ok q' \<and> contents q' = ms \<and> read_index q' = read_index q + 1 \<and> length b' = 256 \<and>
    b' = (if fst m = message_type_code t then snd m @ drop (length (snd m)) b else b)"
  using pop_fifo[OF assms(1,2), of "of_nat (length b)" b t h] length_contents_le[OF assms(1), of m] assms
  by (auto simp: receive_def)

lemma receive_nil:
  "fifo_ok q \<Longrightarrow> contents q = [] \<Longrightarrow> length b = 256 \<Longrightarrow> receive t (q, b, h) = Some (False, q, b, h)"
  using pop_empty[of q "of_nat (length b)" b t h] by (simp add: receive_def)

text \<open>\<^verbatim>\<open>try_pop_message\<close> neither reads nor writes \<^verbatim>\<open>write_index\<close>.\<close>

lemma receive_write_index:
  "receive t (q\<lparr>write_index := w\<rparr>, b, h) =
   map_option (\<lambda>(p, q', b', h'). (p, q'\<lparr>write_index := w\<rparr>, b', h')) (receive t (q, b, h))"
  by (auto simp: receive_def try_pop_message_def Let_def release_slot_def store_defs upd_slot_def
      split: option.splits)

section \<open>Interfaces of the queue's clients\<close>

text \<open>Sending a list of messages one after the other; the first refused one ends it.\<close>

fun send_all :: "('m \<Rightarrow> 's \<Rightarrow> (bool \<times> 's) option) \<Rightarrow> 'm list \<Rightarrow> 's \<Rightarrow> (bool \<times> 's) option" where
  "send_all op [] s = Some (True, s)"
| "send_all op (m # ms) s =
     (case op m s of None \<Rightarrow> None
      | Some (accepted, s') \<Rightarrow> if accepted then send_all op ms s' else Some (False, s'))"

text \<open>What a sender relies on: a message that fits is appended while there is room.\<close>

locale bounded_sender =
  fixes snd_op :: "'m \<Rightarrow> 's \<Rightarrow> (bool \<times> 's) option"
    and ok :: "'s \<Rightarrow> bool"
    and fits :: "'m \<Rightarrow> bool"
    and elems :: "'s \<Rightarrow> 'e list"
    and enc :: "'m \<Rightarrow> 'e"
    and cap :: nat
  assumes snd_op_room: "ok s \<Longrightarrow> fits m \<Longrightarrow> length (elems s) < cap \<Longrightarrow>
    \<exists>s'. snd_op m s = Some (True, s') \<and> ok s' \<and> elems s' = elems s @ [enc m]"
begin

lemma send_all_room:
  "ok s \<Longrightarrow> list_all fits ms \<Longrightarrow> length (elems s) + length ms \<le> cap \<Longrightarrow>
   \<exists>s'. send_all snd_op ms s = Some (True, s') \<and> ok s' \<and> elems s' = elems s @ map enc ms"
proof (induction ms arbitrary: s)
  case (Cons m ms)
  with snd_op_room[of s m] obtain s1 where
    "snd_op m s = Some (True, s1)" "ok s1" "elems s1 = elems s @ [enc m]" by auto
  with Cons.IH[of s1] Cons.prems show ?case by auto
qed auto

end

interpretation hw4_send: bounded_sender send fifo_ok "\<lambda>m. length (snd m) \<le> 256" contents
  "\<lambda>m. (message_type_code (fst m), snd m)" 16
proof
  fix q :: SharedQueueLayout and m :: "MessageType \<times> byte list"
  assume "fifo_ok q" "length (snd m) \<le> 256" "length (contents q) < 16"
  then show "\<exists>q'. send m q = Some (True, q') \<and> fifo_ok q' \<and>
      contents q' = contents q @ [(message_type_code (fst m), snd m)]"
    using send_room by blast
qed

section \<open>Claims\<close>

text \<open>Invariant of the layout object itself (its array sizes), for every content it may have.\<close>

lemma init_slots_nth:
  "n \<le> length (slots q) \<Longrightarrow> i < length (slots q) \<Longrightarrow>
   slots (fold init_slot [0..<n] q) ! i =
     (if i < n then (slots q ! i)\<lparr>slot_state := slot_state_code EMPTY,
                       slot_header := (slot_header (slots q ! i))\<lparr>msg_type := 0, msg_length := 0\<rparr>,
                       payload := replicate 256 0\<rparr>
      else slots q ! i) \<and>
   length (slots (fold init_slot [0..<n] q)) = length (slots q)"
proof (induction n)
  case (Suc n)
  then show ?case by (auto simp: init_slot_def store_defs nth_list_update)
qed simp

lemma init_slots_frame:
  "meta (fold init_slot xs q) = meta q \<and> write_index (fold init_slot xs q) = write_index q \<and>
   read_index (fold init_slot xs q) = read_index q"
  by (induction xs arbitrary: q) (auto simp: init_slot_def store_defs)

lemma init_queue_slots:
  assumes "length (slots q) = 16" "i < 16"
  shows "slot_state (slots (init_queue q) ! i) = slot_state_code EMPTY"
    "length (payload (slots (init_queue q) ! i)) = 256"
  using assms init_slots_nth[of 16 "q\<lparr>meta := m, write_index := 0, read_index := 0\<rparr>" i for m]
  by (simp_all add: init_queue_def)

lemma try_push_oversize:
  "\<not> len \<le> MAX_PAYLOAD_SIZE \<Longrightarrow> try_push_message queue type data len = Some (False, queue)"
  by (simp add: try_push_message_def linorder_not_le split: option.splits)

lemma length_init_queue: "length (slots (init_queue q)) = length (slots q)"
proof -
  have "length (slots (fold init_slot xs r)) = length (slots r)" for xs r
    by (induction xs arbitrary: r) (auto simp: init_slot_def store_defs)
  then show ?thesis by (simp add: init_queue_def)
qed

lemma init_queue_ok:
  assumes "length (slots q) = 16"
  shows "is_queue_valid (init_queue q) \<and> fifo_ok (init_queue q) \<and> contents (init_queue q) = [] \<and>
    read_index (init_queue q) = 0"
proof -
  let ?q = "init_queue q"
  note s = init_queue_slots[OF assms]
  have frame: "read_index ?q = 0" "write_index ?q = 0"
    "meta ?q = \<lparr>magic = PROTOCOL_MAGIC, protocol_version = PROTOCOL_VERSION,
                capacity = ucast QUEUE_CAPACITY, max_payload_size = ucast MAX_PAYLOAD_SIZE\<rparr>"
    by (simp_all add: init_queue_def init_slots_frame)
  have p: "pending ?q = 0" by (simp add: pending_def frame)
  have "fifo_ok ?q"
    using s get_slot_less length_init_queue[of q] assms
    by (intro fifo_okI[OF _ p]) (auto simp: wf_queue_def list_all_length wf_slot_def nth_slot_def)
  then show ?thesis
    using p by (simp add: is_queue_valid_def frame contents_def QUEUE_CAPACITY_def MAX_PAYLOAD_SIZE_def)
qed

text \<open>Two sample layouts: zeroed memory, and a queue of sixteen one-byte messages.\<close>

definition zero_layout :: SharedQueueLayout where
  "zero_layout = \<lparr>meta = \<lparr>magic = 0, protocol_version = 0, capacity = 0, max_payload_size = 0\<rparr>,
     write_index = 0, read_index = 0,
     slots = replicate 16 \<lparr>slot_state = 0, slot_header = \<lparr>msg_type = 0, msg_length = 0\<rparr>,
                           payload = replicate 256 0\<rparr>\<rparr>"

definition full_layout :: SharedQueueLayout where
  "full_layout = (init_queue zero_layout)\<lparr>write_index := 16,
     slots := replicate 16 \<lparr>slot_state = 2, slot_header = \<lparr>msg_type = 1, msg_length = 1\<rparr>,
                            payload = replicate 256 65\<rparr>\<rparr>"

lemma length_zero_layout [simp]: "length (slots zero_layout) = 16"
  by (simp add: zero_layout_def)

lemma init_zero_layout: "fifo_ok (init_queue zero_layout)" "contents (init_queue zero_layout) = []"
  using init_queue_ok[of zero_layout] by simp_all

lemma pending_full_layout: "pending full_layout = 16"
  using init_queue_ok[of zero_layout] by (simp add: pending_def full_layout_def)

lemma fifo_ok_full_layout: "fifo_ok full_layout"
  using get_slot_less
  by (intro fifo_okI[OF _ pending_full_layout])
    (simp_all add: full_layout_def nth_slot_def wf_queue_def list_all_length wf_slot_def)

text \<open>
  Initialising any layout object yields a valid, empty queue: \<^verbatim>\<open>is_queue_valid\<close> accepts it,
  both indices agree and every slot is \<open>EMPTY\<close>, whatever the memory held before.
\<close>

lemma init_queue_valid_empty:
  assumes "length (slots q) = 16"
  shows "is_queue_valid (init_queue q) \<and> fifo_ok (init_queue q) \<and> contents (init_queue q) = []"
  using init_queue_ok[OF assms] by simp

lemma init_queue_valid_empty_witness:
  "length (slots zero_layout) = 16 \<and> is_queue_valid (init_queue zero_layout) \<and>
   fifo_ok (init_queue zero_layout) \<and> contents (init_queue zero_layout) = []"
  using init_queue_valid_empty[of zero_layout] by simp

text \<open>
  C2. On a queue in FIFO state with room, \<^verbatim>\<open>try_push_message\<close> of a message of at most 256 bytes
  returns true and implements enqueue: the contents grow by exactly this message at the end, and
  the FIFO state is kept.
\<close>

theorem try_push_message_refines_enqueue:
  assumes "fifo_ok q" "length (contents q) < 16"
    and "len \<le> MAX_PAYLOAD_SIZE" "unat len \<le> length d"
  shows "\<exists>q'. try_push_message (Some q) type (Some d) len = Some (True, Some q') \<and> fifo_ok q' \<and>
    contents q' = contents q @ [(message_type_code type, take (unat len) d)]"
  using assms by (intro push_fifo) simp_all

theorem try_push_message_refines_enqueue_witness:
  "\<exists>q'. try_push_message (Some (init_queue zero_layout)) TEXT (Some [72, 105, 0]) 3 = Some (True, Some q') \<and>
     fifo_ok q' \<and> contents q' = [(1, [72, 105, 0])]"
  using try_push_message_refines_enqueue[of "init_queue zero_layout" 3 "[72, 105, 0]" TEXT]
  by (simp add: init_zero_layout MAX_PAYLOAD_SIZE_def)



text \<open>
  C15. Whatever bytes the shared memory holds (states, headers and lengths included), no call
  leaves its objects: with a source of at least \<open>len\<close> bytes and a buffer of at least
  \<open>buffer_size\<close> bytes, push and pop are defined, keep the array sizes and the protocol header.
\<close>

theorem queue_operations_memory_safe:
  assumes "wf_queue q" "unat len \<le> length d" "unat buffer_size \<le> length b"
  shows "(\<exists>r q'. try_push_message (Some q) type (Some d) len = Some (r, Some q') \<and>
      wf_queue q' \<and> meta q' = meta q) \<and>
    (\<exists>res q' b'. try_pop_message (Some q) t (Some b) buffer_size (Some h) = Some res \<and>
      queue_after res = Some q' \<and> wf_queue q' \<and> meta q' = meta q \<and>
      out_buffer res = Some b' \<and> length b' = length b)"
proof (intro conjI)
  show "\<exists>r q'. try_push_message (Some q) type (Some d) len = Some (r, Some q') \<and>
      wf_queue q' \<and> meta q' = meta q"
  proof (cases "len \<le> MAX_PAYLOAD_SIZE")
    case True
    then have "unat len \<le> 256" by (simp add: word_le_nat_alt)
    then show ?thesis
      using try_push_message_eq[OF assms(1) True assms(2), of type] assms(1,2)
        wf_queue_push[OF _ get_slot_less, of "q\<lparr>write_index := write_index q + 1\<rparr>"]
      by (auto simp: Let_def)
  next
    case False
    then show ?thesis using assms(1) by (auto simp: try_push_oversize)
  qed
  show "\<exists>res q' b'. try_pop_message (Some q) t (Some b) buffer_size (Some h) = Some res \<and>
      queue_after res = Some q' \<and> wf_queue q' \<and> meta q' = meta q \<and>
      out_buffer res = Some b' \<and> length b' = length b"
    using try_pop_message_eq[OF assms(1,3), of t h] assms wf_queue_pop[OF _ get_slot_less]
      wf_queue_nth[OF assms(1) get_slot_less]
    by (simp add: min_def)
qed

theorem queue_operations_memory_safe_witness:
  "wf_queue full_layout \<and>
   (\<exists>r q'. try_push_message (Some full_layout) NUMBER (Some [1, 2]) 2 = Some (r, Some q') \<and>
      wf_queue q' \<and> meta q' = meta full_layout)"
  using queue_operations_memory_safe[of full_layout 2 "[1, 2]" 1 "[0]" NUMBER]
    fifo_okD(1)[OF fifo_ok_full_layout] by simp

section \<open>What a failed push breaks\<close>

text \<open>Receiving \<open>n\<close> times with the same buffer, whatever each call returns.\<close>

fun receive_times :: "nat \<Rightarrow> MessageType \<Rightarrow> receiver \<Rightarrow> receiver option" where
  "receive_times 0 t r = Some r"
| "receive_times (Suc n) t r =
     (case receive t r of None \<Rightarrow> None | Some (_, r') \<Rightarrow> receive_times n t r')"

lemma receive_times_drains:
  assumes "fifo_ok q" "length b = 256"
  shows "\<exists>q' b' h'. receive_times (length (contents q)) t (q\<lparr>write_index := w\<rparr>, b, h) =
      Some (q'\<lparr>write_index := w\<rparr>, b', h') \<and> fifo_ok q' \<and> contents q' = [] \<and> length b' = 256 \<and>
      read_index q' = read_index q + of_nat (length (contents q))"
  using assms
proof (induction "contents q" arbitrary: q b h)
  case Nil
  then show ?case by (intro exI[of _ q]) auto
next
  case (Cons m ms)
  from Cons.hyps(2) receive_cons[OF Cons.prems(1) _ Cons.prems(2), of m ms t h]
  obtain q1 b1 h1 where r: "receive t (q, b, h) = Some (fst m = message_type_code t, q1, b1, h1)"
    and q1: "fifo_ok q1" "contents q1 = ms" "read_index q1 = read_index q + 1" "length b1 = 256"
    by auto
  from Cons.hyps(1)[OF q1(2)[symmetric] q1(1) q1(4), of h1]
  show ?case
    using q1(2,3) Cons.hyps(2)[symmetric] by (auto simp: receive_write_index r algebra_simps)
qed

lemma push_after_gap:
  assumes ok: "fifo_ok q" and c: "contents q = []"
    and len: "len \<le> MAX_PAYLOAD_SIZE" and data: "unat len \<le> length d" and b: "length b = 256"
  shows "\<exists>q'. try_push_message (Some (q\<lparr>write_index := write_index q + 1\<rparr>)) type (Some d) len =
      Some (True, Some q') \<and> slot_state (nth_slot q' 1) = slot_state_code READY \<and>
      slot_message (nth_slot q' 1) = (message_type_code type, take (unat len) d) \<and>
      (\<forall>t h. receive t (q', b, h) = Some (False, q', b, h))"
proof -
  note okD = fifo_okD[OF ok]
  have p: "pending q = 0" using arg_cong[OF c, of length] by simp
  let ?q1 = "q\<lparr>write_index := write_index q + 1\<rparr>"
  let ?q' = "upd_slot (get_slot (write_index q + 1)) (push_slot type d len) (q\<lparr>write_index := write_index q + 2\<rparr>)"
  have w: "write_index q + 1 = read_index q + of_nat 1" "write_index q = read_index q"
    using write_index_pending[of q] p by auto
  have nth: "nth_slot ?q' k = (if k = 1 then push_slot type d len (nth_slot q 1) else nth_slot q k)"
    if "k < 16" for k
    using nth_slot_upd_slot[of "q\<lparr>write_index := write_index q + 2\<rparr>" 1 k] that okD(1) w by simp
  have "slot_state (slots ?q1 ! get_slot (write_index ?q1)) = slot_state_code EMPTY"
    using okD(5)[of 1] p w by (simp add: nth_slot_def)
  then have push: "try_push_message (Some ?q1) type (Some d) len = Some (True, Some ?q')"
    using try_push_message_eq[of ?q1, OF _ len data] okD(1) by (simp add: Let_def algebra_simps)
  have "unat len \<le> 256" using len by (simp add: word_le_nat_alt)
  then have wf: "wf_queue ?q'" using okD(1) data by (intro wf_queue_push get_slot_less) simp_all
  have "slots ?q' ! get_slot (read_index ?q') = nth_slot ?q' 0" by (simp add: nth_slot_def)
  then have "slot_state (slots ?q' ! get_slot (read_index ?q')) \<noteq> slot_state_code READY"
    using nth[of 0] okD(5)[of 0] p by simp
  then have "receive t (?q', b, h) = Some (False, ?q', b, h)" for t h
    using try_pop_message_eq[OF wf, of "of_nat (length b)" b] b by (simp add: receive_def)
  then show ?thesis using push nth[of 1] \<open>unat len \<le> 256\<close> data by (auto simp: slot_message_push)
qed

text \<open>
  C16. A push that fails because the queue is full still advances \<^verbatim>\<open>write_index\<close>, and the queue
  never recovers the skipped index by itself: after the consumer has drained all sixteen
  messages, the next push reports success and its message lies \<open>READY\<close> in the queue, but every
  further pop, for any type, returns false and leaves the queue as it is.
\<close>

theorem failed_push_strands_next_message:
  assumes "fifo_ok q" "length (contents q) = 16" "length b = 256"
    and "len \<le> MAX_PAYLOAD_SIZE" "unat len \<le> length d"
    and "len' \<le> MAX_PAYLOAD_SIZE" "unat len' \<le> length d'"
  shows "\<exists>q1 q2 b2 h2 q3.
      try_push_message (Some q) type (Some d) len = Some (False, Some q1) \<and>
      receive_times 16 t (q1, b, h) = Some (q2, b2, h2) \<and>
      try_push_message (Some q2) type' (Some d') len' = Some (True, Some q3) \<and>
      slot_message (nth_slot q3 1) = (message_type_code type', take (unat len') d') \<and>
      slot_state (nth_slot q3 1) = slot_state_code READY \<and>
      (\<forall>t' h'. receive t' (q3, b2, h') = Some (False, q3, b2, h'))"
proof -
  have full: "pending q = 16" using assms(2) by simp
  obtain q' b2 h2 where d: "receive_times 16 t (q\<lparr>write_index := write_index q + 1\<rparr>, b, h) =
      Some (q'\<lparr>write_index := write_index q + 1\<rparr>, b2, h2)"
    and q': "fifo_ok q'" "contents q' = []" "length b2 = 256" "read_index q' = read_index q + 16"
    using receive_times_drains[OF assms(1,3), of t "write_index q + 1" h] assms(2) by auto
  have "write_index q' = write_index q"
    using write_index_pending[of q] write_index_pending[of q'] arg_cong[OF q'(2), of length] full q'(4)
    by simp
  then show ?thesis
    using push_full[OF assms(1) full assms(4,5)] d
      push_after_gap[OF q'(1,2) assms(6,7) q'(3), of type'] by auto
qed

theorem failed_push_strands_next_message_witness:
  "fifo_ok full_layout \<and> length (contents full_layout) = 16 \<and>
   (\<exists>q1 q2 b2 h2 q3.
      try_push_message (Some full_layout) TEXT (Some [66]) 1 = Some (False, Some q1) \<and>
      receive_times 16 TEXT (q1, replicate 256 0, \<lparr>msg_type = 0, msg_length = 0\<rparr>) = Some (q2, b2, h2) \<and>
      try_push_message (Some q2) TEXT (Some [67]) 1 = Some (True, Some q3) \<and>
      slot_message (nth_slot q3 1) = (1, [67]) \<and>
      slot_state (nth_slot q3 1) = slot_state_code READY \<and>
      (\<forall>t' h'. receive t' (q3, b2, h') = Some (False, q3, b2, h')))"
  using failed_push_strands_next_message[of full_layout "replicate 256 0" 1 "[66]" 1 "[67]" TEXT TEXT
      "\<lparr>msg_type = 0, msg_length = 0\<rparr>" TEXT]
  by (simp add: fifo_ok_full_layout pending_full_layout MAX_PAYLOAD_SIZE_def)

end
