(* ===== verification/Ipc_Queue_Conc.thy ===== *)
theory Ipc_Queue_Conc
  imports Ipc_Queue
begin

text \<open>
  The queue of \<^verbatim>\<open>hw4/ipc_queue.cpp\<close> shared by any number of producers and one consumer, the
  use it is written for. Each call of \<^verbatim>\<open>try_push_message\<close> and \<^verbatim>\<open>try_pop_message\<close> is cut into the
  atomic accesses it makes (the counters, the slot state, each header field, each payload byte),
  which interleave arbitrarily in a sequentially consistent order. The acquire/release orders of
  the code are what makes this order adequate for the header and payload accesses; weaker
  behaviours of the hardware are not modelled. The lemmas show that a call run alone is the
  operation of \<^verbatim>\<open>Ipc_Queue\<close>, that calls are wait-free, that a slot has one owner at a time, and
  that every published message is received at most once and intact.
\<close>

section \<open>One producer call\<close>

datatype push_pc =
    P_Reserve            \<comment> \<open>\<^verbatim>\<open>write_index.fetch_add\<close>\<close>
  | P_Cas nat            \<comment> \<open>\<^verbatim>\<open>state.compare_exchange_strong\<close>\<close>
  | P_Type nat           \<comment> \<open>\<^verbatim>\<open>header.type =\<close>\<close>
  | P_Length nat         \<comment> \<open>\<^verbatim>\<open>header.length =\<close>\<close>
  | P_Copy nat nat       \<comment> \<open>\<^verbatim>\<open>memcpy\<close>, next byte; then \<^verbatim>\<open>state.store(READY)\<close>\<close>
  | P_Done bool          \<comment> \<open>returned\<close>

record producer =
  p_pc :: push_pc
  p_type :: MessageType
  p_data :: "byte list"

definition store_byte :: "nat \<Rightarrow> nat \<Rightarrow> byte \<Rightarrow> SharedQueueLayout \<Rightarrow> SharedQueueLayout" where
  "store_byte i j v = upd_slot i (\<lambda>s. s\<lparr>payload := (payload s)[j := v]\<rparr>)"

fun producer_action :: "producer \<Rightarrow> SharedQueueLayout \<Rightarrow> producer \<times> SharedQueueLayout" where
  "producer_action p q =
     (case p_pc p of
        P_Reserve \<Rightarrow> (case reserve_index q of (index, q') \<Rightarrow> (p\<lparr>p_pc := P_Cas (get_slot index)\<rparr>, q'))
      | P_Cas i \<Rightarrow>
          (case claim_slot i q of (claimed, q') \<Rightarrow>
             (p\<lparr>p_pc := (if claimed then P_Type i else P_Done False)\<rparr>, q'))
      | P_Type i \<Rightarrow> (p\<lparr>p_pc := P_Length i\<rparr>, store_type i (p_type p) q)
      | P_Length i \<Rightarrow> (p\<lparr>p_pc := P_Copy i 0\<rparr>, store_length i (of_nat (length (p_data p))) q)
      | P_Copy i j \<Rightarrow>
          if j < length (p_data p)
          then (p\<lparr>p_pc := P_Copy i (Suc j)\<rparr>, store_byte i j (p_data p ! j) q)
          else (p\<lparr>p_pc := P_Done True\<rparr>, store_state i READY q)
      | P_Done r \<Rightarrow> (p, q))"

section \<open>One consumer call\<close>

datatype pop_pc =
    C_Index                                \<comment> \<open>\<^verbatim>\<open>read_index.load\<close>\<close>
  | C_State size_t                         \<comment> \<open>\<^verbatim>\<open>state.load\<close>\<close>
  | C_Header size_t                        \<comment> \<open>\<^verbatim>\<open>header = slot->header\<close> and the length checks\<close>
  | C_Copy size_t MessageHeader nat        \<comment> \<open>\<^verbatim>\<open>memcpy\<close>, next byte; then \<^verbatim>\<open>*out_header\<close>\<close>
  | C_ClearType size_t MessageHeader
  | C_ClearLength size_t MessageHeader
  | C_ClearPayload size_t MessageHeader nat \<comment> \<open>\<^verbatim>\<open>memset\<close>, next byte; then \<^verbatim>\<open>state.store(EMPTY)\<close>\<close>
  | C_Advance size_t MessageHeader         \<comment> \<open>\<^verbatim>\<open>read_index.store\<close>\<close>
  | C_Done bool

record consumer =
  c_pc :: pop_pc
  c_type :: MessageType
  c_buffer :: "byte list"
  c_header :: MessageHeader

definition type_matches :: "consumer \<Rightarrow> MessageHeader \<Rightarrow> bool" where
  "type_matches c h \<longleftrightarrow> msg_type h = message_type_code (c_type c)"

fun consumer_action :: "consumer \<Rightarrow> SharedQueueLayout \<Rightarrow> consumer \<times> SharedQueueLayout" where
  "consumer_action c q =
     (case c_pc c of
        C_Index \<Rightarrow> (c\<lparr>c_pc := C_State (read_index q)\<rparr>, q)
      | C_State index \<Rightarrow>
          (c\<lparr>c_pc := (if slot_state (slots q ! get_slot index) \<noteq> slot_state_code READY
                      then C_Done False else C_Header index)\<rparr>, q)
      | C_Header index \<Rightarrow>
          let h = slot_header (slots q ! get_slot index)
          in (c\<lparr>c_pc := (if unat (msg_length h) > 256 then C_Done False
                         else if unat (msg_length h) > length (c_buffer c) then C_Done False
                         else if type_matches c h then C_Copy index h 0
                         else C_ClearType index h)\<rparr>, q)
      | C_Copy index h j \<Rightarrow>
          if j < unat (msg_length h)
          then (c\<lparr>c_pc := C_Copy index h (Suc j),
                  c_buffer := (c_buffer c)[j := payload (slots q ! get_slot index) ! j]\<rparr>, q)
          else (c\<lparr>c_pc := C_ClearType index h, c_header := h\<rparr>, q)
      | C_ClearType index h \<Rightarrow>
          (c\<lparr>c_pc := C_ClearLength index h\<rparr>, store_type (get_slot index) UNKNOWN q)
      | C_ClearLength index h \<Rightarrow>
          (c\<lparr>c_pc := C_ClearPayload index h 0\<rparr>, store_length (get_slot index) 0 q)
      | C_ClearPayload index h j \<Rightarrow>
          if j < 256
          then (c\<lparr>c_pc := C_ClearPayload index h (Suc j)\<rparr>, store_byte (get_slot index) j 0 q)
          else (c\<lparr>c_pc := C_Advance index h\<rparr>, store_state (get_slot index) EMPTY q)
      | C_Advance index h \<Rightarrow>
          (c\<lparr>c_pc := C_Done (type_matches c h)\<rparr>, q\<lparr>read_index := index + 1\<rparr>)
      | C_Done r \<Rightarrow> (c, q))"

section \<open>The system\<close>

text \<open>
  Beside the shared queue and the threads' local states, three histories: the messages of the
  pushes that have returned true, in the order of their \<open>READY\<close> stores; the messages the
  consumer has started to remove; and what the pops that returned true have delivered.
\<close>

record system =
  queue :: SharedQueueLayout
  producers :: "nat \<Rightarrow> producer"
  consumer :: consumer
  published :: "message list"
  taken :: "message list"
  delivered :: "message list"

definition producer_message :: "producer \<Rightarrow> message" where
  "producer_message p = (message_type_code (p_type p), p_data p)"

definition publishes :: "producer \<Rightarrow> bool" where
  "publishes p \<longleftrightarrow> (case p_pc p of P_Copy i j \<Rightarrow> \<not> j < length (p_data p) | _ \<Rightarrow> False)"

definition takes :: "consumer \<Rightarrow> consumer \<Rightarrow> nat option" where
  "takes c c' =
     (case (c_pc c, c_pc c') of
        (C_Header index, C_Copy _ _ _) \<Rightarrow> Some (get_slot index)
      | (C_Header index, C_ClearType _ _) \<Rightarrow> Some (get_slot index)
      | _ \<Rightarrow> None)"

definition delivers :: "consumer \<Rightarrow> message list" where
  "delivers c =
     (case c_pc c of
        C_Advance _ h \<Rightarrow>
          if type_matches c h then [(msg_type (c_header c), take (unat (msg_length (c_header c))) (c_buffer c))]
          else []
      | _ \<Rightarrow> [])"

inductive mpsc_step :: "system \<Rightarrow> system \<Rightarrow> bool" where
  push_call: "p_pc (producers s k) = P_Done r \<Longrightarrow> length d \<le> 256 \<Longrightarrow>
     mpsc_step s (s\<lparr>producers := (producers s)(k := \<lparr>p_pc = P_Reserve, p_type = t, p_data = d\<rparr>)\<rparr>)"
| push_action: "producers s k = p \<Longrightarrow> producer_action p (queue s) = (p', q') \<Longrightarrow>
     mpsc_step s (s\<lparr>queue := q', producers := (producers s)(k := p'),
       published := published s @ (if publishes p then [producer_message p] else [])\<rparr>)"
| pop_call: "c_pc (consumer s) = C_Done r \<Longrightarrow>
     mpsc_step s (s\<lparr>consumer := (consumer s)\<lparr>c_pc := C_Index, c_type := t\<rparr>\<rparr>)"
| pop_action: "consumer_action (consumer s) (queue s) = (c', q') \<Longrightarrow>
     mpsc_step s (s\<lparr>queue := q', consumer := c',
       taken := taken s @ (case takes (consumer s) c' of None \<Rightarrow> []
                           | Some i \<Rightarrow> [slot_message (slots (queue s) ! i)]),
       delivered := delivered s @ delivers (consumer s)\<rparr>)"

definition mpsc_init :: "system \<Rightarrow> bool" where
  "mpsc_init s \<longleftrightarrow> wf_queue (queue s) \<and>
     (\<forall>i<16. slot_state (slots (queue s) ! i) = slot_state_code EMPTY) \<and>
     (\<forall>k. \<exists>r. p_pc (producers s k) = P_Done r) \<and> (\<exists>r. c_pc (consumer s) = C_Done r) \<and>
     published s = [] \<and> taken s = [] \<and> delivered s = []"

section \<open>The invariant\<close>

text \<open>The slot a producer is writing, the slot the consumer is reading or clearing.\<close>

definition writing :: "producer \<Rightarrow> nat option" where
  "writing p =
     (case p_pc p of P_Type i \<Rightarrow> Some i | P_Length i \<Rightarrow> Some i | P_Copy i _ \<Rightarrow> Some i | _ \<Rightarrow> None)"

definition working :: "consumer \<Rightarrow> nat option" where
  "working c =
     (case c_pc c of C_Copy x _ _ \<Rightarrow> Some (get_slot x) | C_ClearType x _ \<Rightarrow> Some (get_slot x)
      | C_ClearLength x _ \<Rightarrow> Some (get_slot x) | C_ClearPayload x _ _ \<Rightarrow> Some (get_slot x) | _ \<Rightarrow> None)"

definition producer_ok :: "producer \<Rightarrow> SharedQueueLayout \<Rightarrow> bool" where
  "producer_ok p q \<longleftrightarrow>
     (case p_pc p of
        P_Done r \<Rightarrow> True
      | P_Reserve \<Rightarrow> length (p_data p) \<le> 256
      | P_Cas i \<Rightarrow> length (p_data p) \<le> 256 \<and> i < 16
      | P_Type i \<Rightarrow> length (p_data p) \<le> 256 \<and> i < 16 \<and>
          slot_state (slots q ! i) = slot_state_code WRITING
      | P_Length i \<Rightarrow> length (p_data p) \<le> 256 \<and> i < 16 \<and>
          slot_state (slots q ! i) = slot_state_code WRITING \<and>
          msg_type (slot_header (slots q ! i)) = message_type_code (p_type p)
      | P_Copy i j \<Rightarrow> length (p_data p) \<le> 256 \<and> i < 16 \<and>
          slot_state (slots q ! i) = slot_state_code WRITING \<and>
          msg_type (slot_header (slots q ! i)) = message_type_code (p_type p) \<and>
          msg_length (slot_header (slots q ! i)) = of_nat (length (p_data p)) \<and>
          j \<le> length (p_data p) \<and> take j (payload (slots q ! i)) = take j (p_data p))"

text \<open>What the consumer holds once it has copied a message it will report.\<close>

definition holds_message :: "consumer \<Rightarrow> MessageHeader \<Rightarrow> message list \<Rightarrow> bool" where
  "holds_message c h tk \<longleftrightarrow> tk \<noteq> [] \<and> (type_matches c h \<longrightarrow> c_header c = h \<and>
     last tk = (msg_type h, take (unat (msg_length h)) (c_buffer c)))"

definition consumer_ok :: "consumer \<Rightarrow> SharedQueueLayout \<Rightarrow> message list \<Rightarrow> bool" where
  "consumer_ok c q tk \<longleftrightarrow>
     (case c_pc c of
        C_Header x \<Rightarrow> slot_state (slots q ! get_slot x) = slot_state_code READY
      | C_Copy x h j \<Rightarrow>
          slot_state (slots q ! get_slot x) = slot_state_code READY \<and>
          slot_header (slots q ! get_slot x) = h \<and> type_matches c h \<and>
          unat (msg_length h) \<le> 256 \<and> unat (msg_length h) \<le> length (c_buffer c) \<and>
          j \<le> unat (msg_length h) \<and> tk \<noteq> [] \<and> last tk = slot_message (slots q ! get_slot x) \<and>
          take j (c_buffer c) = take j (payload (slots q ! get_slot x))
      | C_ClearType x h \<Rightarrow>
          slot_state (slots q ! get_slot x) = slot_state_code READY \<and> holds_message c h tk
      | C_ClearLength x h \<Rightarrow>
          slot_state (slots q ! get_slot x) = slot_state_code READY \<and> holds_message c h tk
      | C_ClearPayload x h j \<Rightarrow>
          slot_state (slots q ! get_slot x) = slot_state_code READY \<and> holds_message c h tk
      | C_Advance x h \<Rightarrow> holds_message c h tk
      | _ \<Rightarrow> True)"

text \<open>The published messages the consumer has not started to remove.\<close>

definition unread_slots :: "SharedQueueLayout \<Rightarrow> nat option \<Rightarrow> nat set" where
  "unread_slots q w = {i. i < 16 \<and> slot_state (slots q ! i) = slot_state_code READY \<and> w \<noteq> Some i}"

definition unread :: "SharedQueueLayout \<Rightarrow> nat option \<Rightarrow> message multiset" where
  "unread q w = image_mset (\<lambda>i. slot_message (slots q ! i)) (mset_set (unread_slots q w))"

definition in_delivery :: "consumer \<Rightarrow> bool" where
  "in_delivery c \<longleftrightarrow> working c \<noteq> None \<or> (\<exists>x h. c_pc c = C_Advance x h)"

text \<open>The removed messages whose delivery is complete.\<close>

definition settled :: "consumer \<Rightarrow> message list \<Rightarrow> message list" where
  "settled c tk = (if in_delivery c then butlast tk else tk)"

definition one_writer :: "(nat \<Rightarrow> producer) \<Rightarrow> bool" where
  "one_writer ps \<longleftrightarrow> (\<forall>k l i. writing (ps k) = Some i \<longrightarrow> writing (ps l) = Some i \<longrightarrow> k = l)"

definition mpsc_inv :: "system \<Rightarrow> bool" where
  "mpsc_inv s \<longleftrightarrow> wf_queue (queue s) \<and> (\<forall>k. producer_ok (producers s k) (queue s)) \<and>
     one_writer (producers s) \<and> consumer_ok (consumer s) (queue s) (taken s) \<and>
     mset (published s) = mset (taken s) + unread (queue s) (working (consumer s)) \<and>
     mset (delivered s) \<subseteq># mset (settled (consumer s) (taken s))"

lemma mpsc_invD:
  assumes "mpsc_inv s"
  shows "wf_queue (queue s)" "producer_ok (producers s k) (queue s)" "one_writer (producers s)"
    "consumer_ok (consumer s) (queue s) (taken s)"
    "mset (published s) = mset (taken s) + unread (queue s) (working (consumer s))"
    "mset (delivered s) \<subseteq># mset (settled (consumer s) (taken s))"
  using assms by (simp_all add: mpsc_inv_def)

lemma finite_unread_slots [simp]: "finite (unread_slots q w)"
  by (simp add: unread_slots_def)

text \<open>Frame: what is written in one slot does not concern the others.\<close>

lemma producer_ok_frame:
  assumes "producer_ok p q" "\<And>i. writing p = Some i \<Longrightarrow> slots q' ! i = slots q ! i"
  shows "producer_ok p q'"
  using assms by (auto simp: producer_ok_def writing_def split: push_pc.splits)

lemma writing_state:
  "producer_ok p q \<Longrightarrow> writing p = Some i \<Longrightarrow> i < 16 \<and> slot_state (slots q ! i) = slot_state_code WRITING"
  by (auto simp: producer_ok_def writing_def split: push_pc.splits)

lemma working_state:
  "consumer_ok c q tk \<Longrightarrow> working c = Some i \<Longrightarrow> i < 16 \<and> slot_state (slots q ! i) = slot_state_code READY"
  by (auto simp: consumer_ok_def working_def get_slot_less split: pop_pc.splits)

lemma consumer_ok_frame:
  assumes "consumer_ok c q tk"
    and "\<And>i. i < 16 \<Longrightarrow> slot_state (slots q ! i) = slot_state_code READY \<Longrightarrow> slots q' ! i = slots q ! i"
  shows "consumer_ok c q' tk"
  using assms get_slot_less by (auto simp: consumer_ok_def split: pop_pc.splits)

lemma unread_frame:
  assumes "unread_slots q' w' = unread_slots q w"
    and "\<And>i. i \<in> unread_slots q w \<Longrightarrow> slots q' ! i = slots q ! i"
  shows "unread q' w' = unread q w"
  unfolding unread_def assms(1) using assms(2) by (intro image_mset_cong) auto

lemma unread_insert:
  assumes "unread_slots q' w' = insert i (unread_slots q w)" "i \<notin> unread_slots q w"
    and "\<And>j. j \<in> unread_slots q w \<Longrightarrow> slots q' ! j = slots q ! j"
  shows "unread q' w' = add_mset (slot_message (slots q' ! i)) (unread q w)"
proof -
  have "image_mset (\<lambda>i. slot_message (slots q' ! i)) (mset_set (unread_slots q w)) = unread q w"
    unfolding unread_def using assms(3) by (intro image_mset_cong) auto
  then show ?thesis using assms(1,2) by (simp add: unread_def[of q'])
qed

section \<open>A producer's action keeps the invariant\<close>

lemma producer_action_touch:
  "producer_action p q = (p', q') \<Longrightarrow> slots q' ! i \<noteq> slots q ! i \<Longrightarrow>
   writing p = Some i \<or> slot_state (slots q ! i) = slot_state_code EMPTY"
  by (cases "p_pc p")
    (auto simp: reserve_index_def claim_slot_def store_defs store_byte_def writing_def nth_update_if
      split: if_splits)

lemma producer_action_wf:
  assumes "wf_queue q" "producer_ok p q" "producer_action p q = (p', q')"
  shows "wf_queue q'"
  using assms wf_queue_nth[OF assms(1)]
  by (cases "p_pc p")
    (auto simp: reserve_index_def claim_slot_def store_defs store_byte_def producer_ok_def
      intro!: wf_queue_upd_slot split: if_splits)

lemma take_Suc_update: "j < length xs \<Longrightarrow> take (Suc j) (xs[j := v]) = take j xs @ [v]"
  by (simp add: take_Suc_conv_app_nth)

lemma producer_action_ok:
  assumes "wf_queue q" "producer_ok p q" "producer_action p q = (p', q')"
  shows "producer_ok p' q'"
proof (cases "p_pc p")
  case (P_Copy i j)
  with assms wf_queue_nth[OF assms(1), of i] wf_queueD[OF assms(1)] show ?thesis
    by (auto simp: producer_ok_def store_defs store_byte_def take_Suc_update
        take_Suc_conv_app_nth[of j "p_data p"] split: if_splits)
qed (use assms wf_queueD[OF assms(1)] get_slot_less in
    \<open>auto simp: producer_ok_def reserve_index_def claim_slot_def store_defs split: if_splits\<close>)

lemma producer_action_writing:
  "producer_action p q = (p', q') \<Longrightarrow> writing p' = Some i \<Longrightarrow>
   writing p = Some i \<or> slot_state (slots q ! i) = slot_state_code EMPTY"
  by (cases "p_pc p")
    (auto simp: writing_def reserve_index_def claim_slot_def split: if_splits)

lemma producer_action_unread:
  assumes wf: "wf_queue q" and ok: "producer_ok p q" and act: "producer_action p q = (p', q')"
    and w: "\<And>i. w = Some i \<Longrightarrow> slot_state (slots q ! i) = slot_state_code READY"
  shows "unread q' w = (if publishes p then {#producer_message p#} else {#}) + unread q w"
proof -
  have same: "slots q' ! j = slots q ! j" if "j < 16" "slot_state (slots q ! j) = slot_state_code READY" for j
    using that producer_action_touch[OF act, of j] writing_state[OF ok, of j] by auto
  show ?thesis
  proof (cases "publishes p")
    case True
    then obtain i where pc: "p_pc p = P_Copy i (length (p_data p))"
      using ok by (auto simp: publishes_def producer_ok_def split: push_pc.splits)
    note i = ok[unfolded producer_ok_def pc, simplified]
    have q': "q' = store_state i READY q" using act pc by simp
    have st: "slot_state (slots q' ! j) = slot_state_code READY \<longleftrightarrow>
        i = j \<or> slot_state (slots q ! j) = slot_state_code READY" if "j < 16" for j
      using that i wf_queueD[OF wf] by (auto simp: q' store_defs nth_list_update)
    have "unread_slots q' w = insert i (unread_slots q w)" "i \<notin> unread_slots q w"
      using i w[of i] by (auto simp: unread_slots_def st[simplified])
    moreover have "slot_message (slots q' ! i) = producer_message p"
      using i wf_queueD[OF wf] wf_queue_nth[OF wf, of i]
      by (simp add: q' store_defs slot_message_def producer_message_def unat_of_nat)
    ultimately show ?thesis
      using unread_insert[of q' w i q w] same True by (simp add: unread_slots_def)
  next
    case False
    have "slot_state (slots q' ! j) = slot_state_code READY \<longleftrightarrow>
        slot_state (slots q ! j) = slot_state_code READY" if "j < 16" for j
      using that False act ok wf_queueD[OF wf]
      by (cases "p_pc p") (auto simp: publishes_def producer_ok_def reserve_index_def claim_slot_def
          store_defs store_byte_def nth_list_update split: if_splits)
    then have "unread_slots q' w = unread_slots q w" by (auto simp: unread_slots_def)
    then have "unread q' w = unread q w"
      by (rule unread_frame) (simp add: unread_slots_def same)
    then show ?thesis using False by simp
  qed
qed

lemma push_action_inv:
  assumes inv: "mpsc_inv s" and act: "producer_action (producers s k) (queue s) = (p', q')"
  shows "mpsc_inv (s\<lparr>queue := q', producers := (producers s)(k := p'),
     published := published s @ (if publishes (producers s k) then [producer_message (producers s k)] else [])\<rparr>)"
proof -
  note D = mpsc_invD[OF inv]
  let ?p = "producers s k" and ?q = "queue s"
  have touch: "slots q' ! i = slots ?q ! i"
    if "slot_state (slots ?q ! i) = slot_state_code READY \<or> (\<exists>l. l \<noteq> k \<and> writing (producers s l) = Some i)" for i
  proof (rule ccontr)
    assume "slots q' ! i \<noteq> slots ?q ! i"
    with producer_action_touch[OF act] consider "writing ?p = Some i"
      | "slot_state (slots ?q ! i) = slot_state_code EMPTY" by blast
    then show False
      using that D(3) writing_state[OF D(2)] by cases (auto simp: one_writer_def)
  qed
  have "producer_ok (((producers s)(k := p')) l) q'" for l
    using producer_action_ok[OF D(1,2) act] producer_ok_frame[OF D(2)[of l], of q'] touch by auto
  moreover have "one_writer ((producers s)(k := p'))"
    using D(3) producer_action_writing[OF act] writing_state[OF D(2)]
    by (auto simp: one_writer_def split: if_splits)
  moreover have "consumer_ok (consumer s) q' (taken s)"
    using consumer_ok_frame[OF D(4), of q'] touch by simp
  moreover have "unread q' (working (consumer s)) =
      (if publishes ?p then {#producer_message ?p#} else {#}) + unread ?q (working (consumer s))"
    using producer_action_unread[OF D(1,2) act] working_state[OF D(4)] by blast
  ultimately show ?thesis
    using producer_action_wf[OF D(1,2) act] D(5,6) by (simp add: mpsc_inv_def)
qed

section \<open>The consumer's action keeps the invariant\<close>

lemma type_matches_upd [simp]:
  "type_matches (c\<lparr>c_pc := x\<rparr>) h = type_matches c h"
  "type_matches (c\<lparr>c_buffer := b\<rparr>) h = type_matches c h"
  "type_matches (c\<lparr>c_header := g\<rparr>) h = type_matches c h"
  by (simp_all add: type_matches_def)

lemma holds_message_upd [simp]: "holds_message (c\<lparr>c_pc := x\<rparr>) h tk = holds_message c h tk"
  by (simp add: holds_message_def)

lemma consumer_action_touch:
  "consumer_action c q = (c', q') \<Longrightarrow> slots q' ! i \<noteq> slots q ! i \<Longrightarrow> working c = Some i"
  by (cases "c_pc c")
    (auto simp: store_defs store_byte_def working_def nth_update_if Let_def split: if_splits)

lemma consumer_action_wf:
  assumes "wf_queue q" "consumer_action c q = (c', q')"
  shows "wf_queue q'"
  using assms wf_queue_nth[OF assms(1) get_slot_less] get_slot_less
  by (cases "c_pc c")
    (auto simp: store_defs store_byte_def Let_def intro!: wf_queue_upd_slot split: if_splits)

lemma consumer_action_ok:
  assumes wf: "wf_queue q" and ok: "consumer_ok c q tk" and act: "consumer_action c q = (c', q')"
  shows "consumer_ok c' q' (tk @ (case takes c c' of None \<Rightarrow> [] | Some i \<Rightarrow> [slot_message (slots q ! i)]))"
proof (cases "c_pc c")
  case (C_Copy x h j)
  let ?s = "slots q ! get_slot x"
  note o = ok[unfolded consumer_ok_def C_Copy, simplified]
  have len: "length (payload ?s) = 256" using wf_queue_nth[OF wf get_slot_less] .
  show ?thesis
  proof (cases "j < unat (msg_length h)")
    case True
    then have "take (Suc j) ((c_buffer c)[j := payload ?s ! j]) = take (Suc j) (payload ?s)"
      using o len by (simp add: take_Suc_update take_Suc_conv_app_nth)
    with True C_Copy act o show ?thesis by (auto simp: consumer_ok_def takes_def)
  next
    case False
    with C_Copy act o show ?thesis
      by (auto simp: consumer_ok_def takes_def holds_message_def slot_message_def)
  qed
qed (use ok act wf_queueD[OF wf] get_slot_less in
    \<open>auto simp: consumer_ok_def takes_def store_defs store_byte_def Let_def holds_message_def
      split: if_splits\<close>)

lemma consumer_action_unread:
  assumes wf: "wf_queue q" and ok: "consumer_ok c q tk" and act: "consumer_action c q = (c', q')"
  shows "unread q (working c) =
    (case takes c c' of None \<Rightarrow> {#} | Some i \<Rightarrow> {#slot_message (slots q ! i)#}) + unread q' (working c')"
proof -
  have same: "slots q' ! j = slots q ! j" if "working c \<noteq> Some j" for j
    using that consumer_action_touch[OF act] by blast
  have st: "slot_state (slots q' ! j) = slot_state (slots q ! j)" if "working c \<noteq> Some j" for j
    using same that by simp
  show ?thesis
  proof (cases "takes c c'")
    case None
    have eq: "unread_slots q' (working c') = unread_slots q (working c)"
    proof (cases "c_pc c")
      case (C_ClearPayload x h j)
      with act ok wf_queueD[OF wf] get_slot_less show ?thesis
        by (auto simp: unread_slots_def working_def store_defs store_byte_def consumer_ok_def
            nth_list_update split: if_splits)
    qed (use None act ok wf_queueD[OF wf] get_slot_less in
        \<open>auto simp: takes_def unread_slots_def working_def store_defs nth_list_update Let_def
          split: if_splits\<close>)
    have "unread q' (working c') = unread q (working c)"
      by (rule unread_frame[OF eq]) (auto simp: unread_slots_def intro: same)
    then show ?thesis using None by simp
  next
    case (Some i)
    then obtain x where pc: "c_pc c = C_Header x" "i = get_slot x"
      by (auto simp: takes_def split: pop_pc.splits)
    have q': "q' = q" and w: "working c = None" "working c' = Some i"
      using act pc Some by (auto simp: Let_def working_def takes_def split: if_splits)
    have "slot_state (slots q ! i) = slot_state_code READY" "i < 16"
      using ok pc get_slot_less by (auto simp: consumer_ok_def)
    then have "unread_slots q None = insert i (unread_slots q (Some i))" "i \<notin> unread_slots q (Some i)"
      by (auto simp: unread_slots_def)
    from unread_insert[OF this] show ?thesis using Some by (simp add: q' w)
  qed
qed

lemma consumer_action_in_delivery:
  assumes "consumer_ok c q tk" "consumer_action c q = (c', q')"
  defines "tk' \<equiv> tk @ (case takes c c' of None \<Rightarrow> [] | Some i \<Rightarrow> [slot_message (slots q ! i)])"
  assumes "mset del \<subseteq># mset (settled c tk)"
  shows "mset (del @ delivers c) \<subseteq># mset (settled c' tk')"
proof (cases "c_pc c")
  case (C_Advance x h)
  with assms have c': "\<not> in_delivery c'" and tk': "tk' = tk"
    by (auto simp: in_delivery_def working_def takes_def)
  have h: "holds_message c h tk" and d: "mset del \<subseteq># mset (butlast tk)"
    using assms C_Advance by (auto simp: consumer_ok_def in_delivery_def settled_def)
  then have "mset tk = mset (butlast tk) + {#last tk#}"
    by (metis append_butlast_last_id holds_message_def mset_append mset_single_iff_right mset.simps)
  moreover have "mset (delivers c) \<subseteq># {#last tk#}"
    using h C_Advance by (auto simp: delivers_def holds_message_def)
  ultimately show ?thesis using subset_mset.add_mono[OF d, of "mset (delivers c)" "{#last tk#}"] c'
    by (simp add: tk' settled_def)
qed (use assms in \<open>auto simp: settled_def in_delivery_def working_def takes_def delivers_def Let_def split: if_splits\<close>)

lemma pop_action_inv:
  assumes inv: "mpsc_inv s" and act: "consumer_action (consumer s) (queue s) = (c', q')"
  shows "mpsc_inv (s\<lparr>queue := q', consumer := c',
       taken := taken s @ (case takes (consumer s) c' of None \<Rightarrow> []
                           | Some i \<Rightarrow> [slot_message (slots (queue s) ! i)]),
       delivered := delivered s @ delivers (consumer s)\<rparr>)"
proof -
  note D = mpsc_invD[OF inv]
  have "slots q' ! i = slots (queue s) ! i" if "writing (producers s k) = Some i" for i k
    using consumer_action_touch[OF act, of i] writing_state[OF D(2) that] working_state[OF D(4), of i] by auto
  then have "producer_ok (producers s k) q'" for k
    using producer_ok_frame[OF D(2)] by blast
  then show ?thesis
    using D consumer_action_wf[OF D(1) act] consumer_action_ok[OF D(1,4) act]
      consumer_action_unread[OF D(1,4) act] consumer_action_in_delivery[OF D(4) act D(6)]
    by (simp add: mpsc_inv_def split: option.splits)
qed

lemma mpsc_inv_init:
  assumes "mpsc_init s"
  shows "mpsc_inv s"
proof -
  obtain r where r: "c_pc (consumer s) = C_Done r" using assms by (auto simp: mpsc_init_def)
  have "\<exists>r. p_pc (producers s k) = P_Done r" for k using assms by (simp add: mpsc_init_def)
  then have "producer_ok (producers s k) (queue s)" "writing (producers s k) = None" for k
    by (auto simp: producer_ok_def writing_def split: push_pc.splits) (metis push_pc.distinct push_pc.exhaust)+
  moreover have "unread_slots (queue s) (working (consumer s)) = {}"
    using assms by (auto simp: mpsc_init_def unread_slots_def)
  ultimately show ?thesis
    using assms r by (simp add: mpsc_init_def mpsc_inv_def one_writer_def consumer_ok_def unread_def)
qed

declare producer_action.simps [simp del]
declare consumer_action.simps [simp del]

lemma mpsc_inv_step:
  assumes inv: "mpsc_inv s" and step: "mpsc_step s t"
  shows "mpsc_inv t"
  using step
proof cases
  case (push_call k r d ty)
  then show ?thesis
    using inv by (auto simp: mpsc_inv_def one_writer_def producer_ok_def writing_def)
next
  case (push_action k p p' q')
  then show ?thesis using push_action_inv[OF inv, of k p' q'] by (cases "publishes p") auto
next
  case (pop_call r ty)
  then show ?thesis
    using inv by (auto simp: mpsc_inv_def consumer_ok_def settled_def in_delivery_def working_def)
next
  case (pop_action c' q')
  then show ?thesis using pop_action_inv[OF inv, of c' q'] by simp
qed

interpretation mpsc: step_invariant mpsc_init mpsc_step mpsc_inv
  by unfold_locales (auto intro: mpsc_inv_init mpsc_inv_step)

section \<open>A call run alone is the sequential operation\<close>

fun run_producer :: "nat \<Rightarrow> producer \<Rightarrow> SharedQueueLayout \<Rightarrow> (bool \<times> SharedQueueLayout) option" where
  "run_producer 0 p q = (case p_pc p of P_Done r \<Rightarrow> Some (r, q) | _ \<Rightarrow> None)"
| "run_producer (Suc n) p q =
     (case p_pc p of P_Done r \<Rightarrow> Some (r, q)
      | _ \<Rightarrow> (case producer_action p q of (p', q') \<Rightarrow> run_producer n p' q'))"

fun run_consumer :: "nat \<Rightarrow> consumer \<Rightarrow> SharedQueueLayout \<Rightarrow> (bool \<times> consumer \<times> SharedQueueLayout) option" where
  "run_consumer 0 c q = (case c_pc c of C_Done r \<Rightarrow> Some (r, c, q) | _ \<Rightarrow> None)"
| "run_consumer (Suc n) c q =
     (case c_pc c of C_Done r \<Rightarrow> Some (r, c, q)
      | _ \<Rightarrow> (case consumer_action c q of (c', q') \<Rightarrow> run_consumer n c' q'))"

lemma run_producer_done [simp]: "run_producer n \<lparr>p_pc = P_Done r, p_type = t, p_data = d\<rparr> q = Some (r, q)"
  by (cases n) simp_all

lemma run_consumer_done [simp]: "c_pc c = C_Done r \<Longrightarrow> run_consumer n c q = Some (r, c, q)"
  by (cases n) simp_all

lemma run_consumer_step:
  "consumer_action c q = (c', q') \<Longrightarrow> \<nexists>r. c_pc c = C_Done r \<Longrightarrow>
    run_consumer (Suc n) c q = run_consumer n c' q'"
  by (cases "c_pc c") simp_all

declare run_consumer.simps(2) [simp del]

lemma store_payload_store_byte [simp]:
  "i < length (slots q) \<Longrightarrow> store_payload i X (store_byte i j v q) = store_payload i X q"
  by (simp add: store_payload_def store_byte_def upd_slot_compose)

lemma payload_store_byte:
  "i < length (slots q) \<Longrightarrow> payload (slots (store_byte i j v q) ! i) = (payload (slots q ! i))[j := v]"
  by (simp add: store_byte_def)

lemma length_slots_store_byte [simp]: "length (slots (store_byte i j v q)) = length (slots q)"
  by (simp add: store_byte_def)

lemma run_producer_copy:
  assumes "n = length d - j" "j \<le> length d" "length d \<le> length (payload (slots q ! i))" "i < length (slots q)"
  shows "run_producer (Suc n) \<lparr>p_pc = P_Copy i j, p_type = t, p_data = d\<rparr> q =
    Some (True, store_state i READY (store_payload i
      (take j (payload (slots q ! i)) @ drop j d @ drop (length d) (payload (slots q ! i))) q))"
  using assms
proof (induction n arbitrary: j q)
  case 0
  then have "store_payload i (payload (slots q ! i)) q = q"
    by (simp add: store_payload_def upd_slot_def)
  with 0 show ?case by (simp add: producer_action.simps)
next
  case (Suc n)
  let ?q = "store_byte i j (d ! j) q"
  have "run_producer (Suc (Suc n)) \<lparr>p_pc = P_Copy i j, p_type = t, p_data = d\<rparr> q =
      run_producer (Suc n) \<lparr>p_pc = P_Copy i (Suc j), p_type = t, p_data = d\<rparr> ?q"
    using Suc.prems by (simp add: producer_action.simps)
  also have "\<dots> = Some (True, store_state i READY (store_payload i
      (take (Suc j) (payload (slots ?q ! i)) @ drop (Suc j) d @ drop (length d) (payload (slots ?q ! i))) ?q))"
    using Suc.prems by (intro Suc.IH) (simp_all add: payload_store_byte)
  also have "take (Suc j) (payload (slots ?q ! i)) @ drop (Suc j) d @ drop (length d) (payload (slots ?q ! i)) =
      take j (payload (slots q ! i)) @ drop j d @ drop (length d) (payload (slots q ! i))"
    using Suc.prems by (simp add: payload_store_byte take_Suc_update Cons_nth_drop_Suc)
  finally show ?case using Suc.prems by simp
qed

lemma run_producer_equivalent:
  assumes wf: "wf_queue q" and d: "length d \<le> 256"
  shows "run_producer (length d + 5) \<lparr>p_pc = P_Reserve, p_type = t, p_data = d\<rparr> q = send (t, d) q"
proof -
  let ?i = "get_slot (write_index q)" and ?q1 = "q\<lparr>write_index := write_index q + 1\<rparr>"
  let ?q2 = "store_length ?i (of_nat (length d)) (store_type ?i t (store_state ?i WRITING ?q1))"
  have i: "?i < length (slots q)" using wf_queueD[OF wf] get_slot_less by simp
  have pl: "payload (slots ?q2 ! ?i) = payload (slots q ! ?i)" "?i < length (slots ?q2)"
    using i by (simp_all add: store_defs)
  have len: "of_nat (length d) \<le> MAX_PAYLOAD_SIZE"
    using d by (simp add: word_le_nat_alt)
  have n: "length d + 5 = Suc (Suc (Suc (Suc (Suc (length d)))))" by simp
  have "run_producer (length d + 5) \<lparr>p_pc = P_Reserve, p_type = t, p_data = d\<rparr> q =
      (if slot_state (slots q ! ?i) = slot_state_code EMPTY
       then run_producer (Suc (length d)) \<lparr>p_pc = P_Copy ?i 0, p_type = t, p_data = d\<rparr> ?q2
       else Some (False, ?q1))"
    unfolding n by (simp add: producer_action.simps reserve_index_def claim_slot_def)
  also have "run_producer (Suc (length d)) \<lparr>p_pc = P_Copy ?i 0, p_type = t, p_data = d\<rparr> ?q2 =
      Some (True, store_state ?i READY (store_payload ?i (d @ drop (length d) (payload (slots q ! ?i))) ?q2))"
    using run_producer_copy[of "length d" d 0 ?q2 ?i t] pl d wf_queue_nth[OF wf get_slot_less] by simp
  also have "store_state ?i READY (store_payload ?i (d @ drop (length d) (payload (slots q ! ?i))) ?q2) =
      upd_slot ?i (push_slot t d (of_nat (length d))) ?q1"
    using i d by (simp add: store_defs upd_slot_compose push_slot_def ucast_of_nat_narrow)
  finally show ?thesis
    using try_push_message_eq[OF wf len, of d t] d by (simp add: send_def Let_def)
qed

lemma run_consumer_clear:
  assumes "n = 256 - j" "j \<le> 256" "length (payload (slots q ! get_slot x)) = 256"
    "get_slot x < length (slots q)" "c_pc c = C_ClearPayload x h j"
  shows "run_consumer (n + Suc (Suc m)) c q =
    Some (type_matches c h, c\<lparr>c_pc := C_Done (type_matches c h)\<rparr>,
      (store_state (get_slot x) EMPTY (store_payload (get_slot x)
        (take j (payload (slots q ! get_slot x)) @ replicate n 0) q))\<lparr>read_index := x + 1\<rparr>)"
  using assms
proof (induction n arbitrary: j q c)
  case 0
  then have "store_payload (get_slot x) (payload (slots q ! get_slot x)) q = q"
    by (simp add: store_payload_def upd_slot_def)
  with 0 show ?case
    by (simp add: consumer_action.simps run_consumer_step[of c q] run_consumer_step[of "c\<lparr>c_pc := C_Advance x h\<rparr>"])
next
  case (Suc n)
  let ?q = "store_byte (get_slot x) j 0 q" and ?c = "c\<lparr>c_pc := C_ClearPayload x h (Suc j)\<rparr>"
  have j: "j < 256" using Suc.prems(1) by simp
  have "run_consumer (Suc (n + Suc (Suc m))) c q = run_consumer (n + Suc (Suc m)) ?c ?q"
    using Suc.prems by (intro run_consumer_step) (simp_all add: consumer_action.simps)
  also have "\<dots> = Some (type_matches ?c h, ?c\<lparr>c_pc := C_Done (type_matches ?c h)\<rparr>,
      (store_state (get_slot x) EMPTY (store_payload (get_slot x)
        (take (Suc j) (payload (slots ?q ! get_slot x)) @ replicate n 0) ?q))\<lparr>read_index := x + 1\<rparr>)"
    using Suc.prems by (intro Suc.IH) (simp_all add: payload_store_byte)
  finally show ?case
    using Suc.prems(2-) j by (simp add: payload_store_byte take_Suc_update)
qed

lemma run_consumer_copy:
  assumes "n = unat (msg_length h) - j" "j \<le> unat (msg_length h)"
    "unat (msg_length h) \<le> length (payload (slots q ! get_slot x))"
    "unat (msg_length h) \<le> length (c_buffer c)" "c_pc c = C_Copy x h j"
  shows "run_consumer (n + Suc m) c q =
    run_consumer m (c\<lparr>c_pc := C_ClearType x h, c_header := h,
      c_buffer := take j (c_buffer c) @ drop j (take (unat (msg_length h)) (payload (slots q ! get_slot x))) @
        drop (unat (msg_length h)) (c_buffer c)\<rparr>) q"
  using assms
proof (induction n arbitrary: j c)
  case 0
  then show ?case by (simp add: consumer_action.simps run_consumer_step[of c q])
next
  case (Suc n)
  let ?p = "payload (slots q ! get_slot x)" and ?l = "unat (msg_length h)"
  let ?c = "c\<lparr>c_pc := C_Copy x h (Suc j), c_buffer := (c_buffer c)[j := ?p ! j]\<rparr>"
  have "run_consumer (Suc (n + Suc m)) c q = run_consumer (n + Suc m) ?c q"
    using Suc.prems by (intro run_consumer_step) (simp_all add: consumer_action.simps)
  also have "\<dots> = run_consumer m (?c\<lparr>c_pc := C_ClearType x h, c_header := h,
      c_buffer := take (Suc j) (c_buffer ?c) @ drop (Suc j) (take ?l ?p) @ drop ?l (c_buffer ?c)\<rparr>) q"
    using Suc.prems by (intro Suc.IH) simp_all
  also have "take (Suc j) (c_buffer ?c) @ drop (Suc j) (take ?l ?p) @ drop ?l (c_buffer ?c) =
      take j (c_buffer c) @ drop j (take ?l ?p) @ drop ?l (c_buffer c)"
    using Suc.prems Cons_nth_drop_Suc[of j "take ?l ?p"] by (simp add: take_Suc_update)
  finally show ?case by simp
qed

lemma run_consumer_release:
  assumes wf: "wf_queue q" and c: "c_pc c = C_ClearType x h"
  shows "run_consumer (260 + m) c q =
    Some (type_matches c h, c\<lparr>c_pc := C_Done (type_matches c h)\<rparr>,
      (upd_slot (get_slot x) empty_slot q)\<lparr>read_index := x + 1\<rparr>)"
proof -
  let ?i = "get_slot x"
  let ?q = "store_length ?i 0 (store_type ?i UNKNOWN q)"
  let ?c = "c\<lparr>c_pc := C_ClearPayload x h 0\<rparr>"
  have i: "?i < length (slots q)" using wf_queueD[OF wf] get_slot_less by simp
  have "run_consumer (Suc (Suc (256 + Suc (Suc m)))) c q =
      run_consumer (Suc (256 + Suc (Suc m))) (c\<lparr>c_pc := C_ClearLength x h\<rparr>) (store_type ?i UNKNOWN q)"
    using c by (intro run_consumer_step) (simp_all add: consumer_action.simps)
  also have "\<dots> = run_consumer (256 + Suc (Suc m)) ?c ?q"
    by (intro run_consumer_step) (simp_all add: consumer_action.simps)
  also have "\<dots> = Some (type_matches ?c h, ?c\<lparr>c_pc := C_Done (type_matches ?c h)\<rparr>,
      (store_state ?i EMPTY (store_payload ?i (replicate 256 0) ?q))\<lparr>read_index := x + 1\<rparr>)"
    using run_consumer_clear[of 256 0 ?q x ?c h m] i wf_queue_nth[OF wf get_slot_less]
    by (simp add: store_defs)
  also have "store_state ?i EMPTY (store_payload ?i (replicate 256 0) ?q) = upd_slot ?i empty_slot q"
    using i by (simp add: store_defs upd_slot_compose empty_slot_def)
  finally show ?thesis by simp
qed

lemma run_consumer_equivalent:
  assumes wf: "wf_queue q" and b: "length b \<le> 256"
  shows "map_option (\<lambda>(r, c, q'). (r, q', c_buffer c, c_header c))
      (run_consumer 520 \<lparr>c_pc = C_Index, c_type = t, c_buffer = b, c_header = g\<rparr> q) =
    receive t (q, b, g)"
proof -
  let ?x = "read_index q" and ?s = "slots q ! get_slot (read_index q)"
  let ?h = "slot_header ?s" and ?c = "\<lambda>pc. \<lparr>c_pc = pc, c_type = t, c_buffer = b, c_header = g\<rparr>"
  let ?l = "unat (msg_length ?h)"
  have pl: "length (payload ?s) = 256" using wf_queue_nth[OF wf get_slot_less] .
  have "run_consumer (Suc (Suc (Suc 517))) (?c C_Index) q = run_consumer (Suc (Suc 517)) (?c (C_State ?x)) q"
    by (intro run_consumer_step) (simp_all add: consumer_action.simps)
  also have "\<dots> = run_consumer (Suc 517) (?c (if slot_state ?s \<noteq> slot_state_code READY
      then C_Done False else C_Header ?x)) q"
    by (intro run_consumer_step) (simp_all add: consumer_action.simps)
  also have "\<dots> = (if slot_state ?s \<noteq> slot_state_code READY \<or> 256 < ?l \<or> length b < ?l
       then Some (False, ?c (C_Done False), q)
       else if msg_type ?h = message_type_code t then run_consumer 517 (?c (C_Copy ?x ?h 0)) q
       else run_consumer 517 (?c (C_ClearType ?x ?h)) q)"
    using run_consumer_step[OF prod.collapse[symmetric], of "?c (C_Header ?x)" 517 q]
    by (auto simp: consumer_action.simps Let_def type_matches_def simp flip: Suc_numeral)
  finally have start: "run_consumer 520 (?c C_Index) q =
      (if slot_state ?s \<noteq> slot_state_code READY \<or> 256 < ?l \<or> length b < ?l
       then Some (False, ?c (C_Done False), q)
       else if msg_type ?h = message_type_code t then run_consumer 517 (?c (C_Copy ?x ?h 0)) q
       else run_consumer 517 (?c (C_ClearType ?x ?h)) q)"
    by simp
  have copy: "run_consumer 517 (?c (C_Copy ?x ?h 0)) q =
      run_consumer (516 - ?l) (\<lparr>c_pc = C_ClearType ?x ?h, c_type = t,
        c_buffer = take ?l (payload ?s) @ drop ?l b, c_header = ?h\<rparr>) q" if "?l \<le> 256" "?l \<le> length b"
    using run_consumer_copy[of ?l ?h 0 q ?x "?c (C_Copy ?x ?h 0)" "516 - ?l"] that pl by simp
  have rel: "run_consumer k \<lparr>c_pc = C_ClearType ?x ?h, c_type = t, c_buffer = bb, c_header = hh\<rparr> q =
      Some (msg_type ?h = message_type_code t,
        \<lparr>c_pc = C_Done (msg_type ?h = message_type_code t), c_type = t, c_buffer = bb, c_header = hh\<rparr>,
        (upd_slot (get_slot ?x) empty_slot q)\<lparr>read_index := ?x + 1\<rparr>)" if "260 \<le> k" for k bb hh
    using run_consumer_release[OF wf, of "\<lparr>c_pc = C_ClearType ?x ?h, c_type = t, c_buffer = bb, c_header = hh\<rparr>"
        ?x ?h "k - 260"] that by (simp add: type_matches_def)
  show ?thesis
    using try_pop_message_eq[OF wf, of "of_nat (length b)" b t g] b
    by (auto simp: start copy rel receive_def type_matches_def)
qed

section \<open>Calls are wait-free\<close>

text \<open>
  The number of own actions a call has left, whatever the other threads do to the queue between
  them: the lists of queues below are what the thread finds at its successive actions.
\<close>

definition push_rank :: "producer \<Rightarrow> nat" where
  "push_rank p =
     (case p_pc p of P_Reserve \<Rightarrow> length (p_data p) + 5 | P_Cas _ \<Rightarrow> length (p_data p) + 4
      | P_Type _ \<Rightarrow> length (p_data p) + 3 | P_Length _ \<Rightarrow> length (p_data p) + 2
      | P_Copy _ j \<Rightarrow> length (p_data p) - j + 1 | P_Done _ \<Rightarrow> 0)"

definition pop_rank :: "consumer \<Rightarrow> nat" where
  "pop_rank c =
     (case c_pc c of C_Index \<Rightarrow> 520 | C_State _ \<Rightarrow> 519 | C_Header _ \<Rightarrow> 518
      | C_Copy _ h j \<Rightarrow> min 256 (unat (msg_length h)) - min 256 j + 261 | C_ClearType _ _ \<Rightarrow> 260
      | C_ClearLength _ _ \<Rightarrow> 259 | C_ClearPayload _ _ j \<Rightarrow> 256 - j + 2 | C_Advance _ _ \<Rightarrow> 1
      | C_Done _ \<Rightarrow> 0)"

definition copies_at_most :: "nat \<Rightarrow> consumer \<Rightarrow> bool" where
  "copies_at_most n c \<longleftrightarrow> (case c_pc c of C_Copy _ h j \<Rightarrow> unat (msg_length h) \<le> n | _ \<Rightarrow> True)"

lemma push_rank_action: "push_rank (fst (producer_action p q)) \<le> push_rank p - 1"
  by (auto simp: push_rank_def producer_action.simps split: push_pc.splits prod.splits)

lemma pop_rank_action:
  "copies_at_most 256 c \<Longrightarrow> pop_rank (fst (consumer_action c q)) \<le> pop_rank c - 1 \<and>
    copies_at_most 256 (fst (consumer_action c q))"
  by (auto simp: pop_rank_def copies_at_most_def consumer_action.simps Let_def split: pop_pc.splits)

lemma push_rank_run: "push_rank (foldl (\<lambda>p q. fst (producer_action p q)) p qs) \<le> push_rank p - length qs"
proof (induction qs arbitrary: p)
  case (Cons q qs)
  from Cons.IH[of "fst (producer_action p q)"] push_rank_action[of p q] show ?case by simp
qed simp

lemma pop_rank_run:
  "copies_at_most 256 c \<Longrightarrow>
    pop_rank (foldl (\<lambda>c q. fst (consumer_action c q)) c qs) \<le> pop_rank c - length qs"
proof (induction qs arbitrary: c)
  case (Cons q qs)
  from Cons.IH[of "fst (consumer_action c q)"] pop_rank_action[OF Cons.prems, of q] show ?case by auto
qed simp

lemma push_rank_0: "push_rank p = 0 \<Longrightarrow> \<exists>r. p_pc p = P_Done r"
  by (auto simp: push_rank_def split: push_pc.splits)

lemma pop_rank_0: "pop_rank c = 0 \<Longrightarrow> \<exists>r. c_pc c = C_Done r"
  by (auto simp: pop_rank_def split: pop_pc.splits)

section \<open>A run of the system, turn by turn\<close>

definition producer_turn :: "nat \<Rightarrow> system \<Rightarrow> system" where
  "producer_turn k s =
     (case producer_action (producers s k) (queue s) of (p', q') \<Rightarrow>
        s\<lparr>queue := q', producers := (producers s)(k := p'),
          published := published s @ (if publishes (producers s k) then [producer_message (producers s k)] else [])\<rparr>)"

definition start_push :: "nat \<Rightarrow> MessageType \<Rightarrow> byte list \<Rightarrow> system \<Rightarrow> system" where
  "start_push k t d s =
     s\<lparr>producers := (producers s)(k := \<lparr>p_pc = P_Reserve, p_type = t, p_data = d\<rparr>)\<rparr>"

definition idle_system :: system where
  "idle_system = \<lparr>queue = init_queue zero_layout,
     producers = (\<lambda>_. \<lparr>p_pc = P_Done False, p_type = UNKNOWN, p_data = []\<rparr>),
     consumer = \<lparr>c_pc = C_Done False, c_type = UNKNOWN, c_buffer = replicate 256 0,
       c_header = \<lparr>msg_type = 0, msg_length = 0\<rparr>\<rparr>,
     published = [], taken = [], delivered = []\<rparr>"

text \<open>Two producers start, both reserve an index, and the second one finishes first.\<close>

definition two_producers :: system where
  "two_producers =
     foldl (\<lambda>s k. producer_turn k s) (start_push 1 NUMBER [9] (start_push 0 TEXT [7, 0] idle_system))
       [0, 1, 1, 0, 1, 0, 1, 1, 1, 0]"

lemma mpsc_step_producer_turn: "mpsc_step s (producer_turn k s)"
  by (cases "producer_action (producers s k) (queue s)")
    (use push_action[of s k, OF refl] in \<open>simp add: producer_turn_def\<close>)

lemma mpsc_steps_producer_turns: "mpsc_step\<^sup>*\<^sup>* s (foldl (\<lambda>s k. producer_turn k s) s ks)"
  by (induction ks arbitrary: s) (auto intro: converse_rtranclp_into_rtranclp mpsc_step_producer_turn)

lemma mpsc_init_idle_system: "mpsc_init idle_system"
  using init_queue_ok[of zero_layout] init_queue_slots[of zero_layout]
  by (auto simp: mpsc_init_def idle_system_def fifo_okD)

lemma two_producers_reachable: "mpsc_step\<^sup>*\<^sup>* idle_system two_producers"
proof -
  have "mpsc_step idle_system (start_push 0 TEXT [7, 0] idle_system)"
    unfolding start_push_def by (rule push_call[where r = False]) (simp_all add: idle_system_def)
  moreover have "mpsc_step (start_push 0 TEXT [7, 0] idle_system)
      (start_push 1 NUMBER [9] (start_push 0 TEXT [7, 0] idle_system))"
    unfolding start_push_def[of 1] by (rule push_call[where r = False]) (simp_all add: idle_system_def start_push_def)
  ultimately show ?thesis
    unfolding two_producers_def using mpsc_steps_producer_turns
    by (meson converse_rtranclp_into_rtranclp)
qed

lemma two_producers_published: "published two_producers = [(2, [9])]"
  by code_simp

section \<open>Properties\<close>

text \<open>
  C1. Every published message is removed at most once and nothing is lost or invented: in every
  reachable state the published messages are exactly those the consumer has started to remove
  plus those lying \<open>READY\<close> in the other slots, and what the successful pops delivered is, with
  multiplicities, among the published ones with type and bytes intact.
\<close>

theorem mpsc_exactly_once:
  assumes "mpsc_init s" "mpsc_step\<^sup>*\<^sup>* s t"
  shows "mset (published t) = mset (taken t) + unread (queue t) (working (consumer t)) \<and>
    mset (delivered t) \<subseteq># mset (published t)"
proof -
  note D = mpsc_invD[OF mpsc.inv_reachable[OF assms]]
  have "mset (settled (consumer t) (taken t)) \<subseteq># mset (taken t)"
    by (cases "taken t" rule: rev_cases) (simp_all add: settled_def)
  then show ?thesis using D(5,6) by (auto intro: subset_mset.order_trans)
qed

theorem mpsc_exactly_once_witness:
  "published two_producers = [(2, [9])] \<and>
   {#(2, [9])#} = mset (taken two_producers) + unread (queue two_producers) (working (consumer two_producers)) \<and>
   mset (delivered two_producers) \<subseteq># {#(2, [9])#}"
  using mpsc_exactly_once[OF mpsc_init_idle_system two_producers_reachable]
  unfolding two_producers_published mset.simps by blast

text \<open>
  C12. A slot has one owner: in every reachable state two producers never write the same slot, a
  slot being written is in state \<open>WRITING\<close>, and the consumer never reads or clears a slot a
  producer is writing.
\<close>

theorem mpsc_slot_exclusive:
  assumes "mpsc_init s" "mpsc_step\<^sup>*\<^sup>* s t" "writing (producers t k) = Some i"
  shows "slot_state (slots (queue t) ! i) = slot_state_code WRITING \<and> working (consumer t) \<noteq> Some i \<and>
    (writing (producers t l) = Some i \<longrightarrow> l = k)"
proof -
  note D = mpsc_invD[OF mpsc.inv_reachable[OF assms(1,2)]]
  show ?thesis
    using D(3) assms(3) writing_state[OF D(2) assms(3)] working_state[OF D(4), of i]
    by (auto simp: one_writer_def)
qed

theorem mpsc_slot_exclusive_witness:
  "writing (producers two_producers 0) = Some 0 \<and>
   slot_state (slots (queue two_producers) ! 0) = slot_state_code WRITING \<and>
   working (consumer two_producers) \<noteq> Some 0 \<and> writing (producers two_producers 1) \<noteq> Some 0"
proof -
  have w: "writing (producers two_producers 0) = Some 0" by code_simp
  show ?thesis
    using w mpsc_slot_exclusive[OF mpsc_init_idle_system two_producers_reachable w, of 1] by fastforce
qed

text \<open>
  C14. Calls are wait-free: a push of \<open>n\<close> bytes has returned after \<open>n + 5\<close> of its own actions and
  a pop after 520, whatever the other threads make of the queue between any two of them.
\<close>

theorem calls_wait_free:
  assumes "p_pc p = P_Reserve" "length (p_data p) + 5 \<le> length qs"
    and "c_pc c = C_Index" "520 \<le> length qs'"
  shows "(\<exists>r. p_pc (foldl (\<lambda>p q. fst (producer_action p q)) p qs) = P_Done r) \<and>
    (\<exists>r. c_pc (foldl (\<lambda>c q. fst (consumer_action c q)) c qs') = C_Done r)"
proof -
  have "push_rank (foldl (\<lambda>p q. fst (producer_action p q)) p qs) = 0"
    using push_rank_run[of p qs] assms(1,2) by (simp add: push_rank_def)
  moreover have "pop_rank (foldl (\<lambda>c q. fst (consumer_action c q)) c qs') = 0"
    using pop_rank_run[of c qs'] assms(3,4) by (simp add: pop_rank_def copies_at_most_def)
  ultimately show ?thesis by (simp add: push_rank_0 pop_rank_0)
qed

theorem calls_wait_free_witness:
  "(\<exists>r. p_pc (foldl (\<lambda>p q. fst (producer_action p q)) \<lparr>p_pc = P_Reserve, p_type = TEXT, p_data = [7, 0]\<rparr>
      (replicate 7 full_layout)) = P_Done r) \<and>
   (\<exists>r. c_pc (foldl (\<lambda>c q. fst (consumer_action c q))
      \<lparr>c_pc = C_Index, c_type = TEXT, c_buffer = replicate 256 0, c_header = \<lparr>msg_type = 0, msg_length = 0\<rparr>\<rparr>
      (replicate 520 full_layout)) = C_Done r)"
  by (rule calls_wait_free) simp_all

text \<open>
  C13. A push or pop whose atomic actions run without interference is the sequential operation:
  running the actions of a call to its end gives the same result, queue, buffer and header as
  \<^verbatim>\<open>try_push_message\<close> and \<^verbatim>\<open>try_pop_message\<close>, on every well-formed memory.
\<close>

theorem atomic_actions_implement_calls:
  assumes "wf_queue q" "length d \<le> 256" "length b \<le> 256"
  shows "run_producer (length d + 5) \<lparr>p_pc = P_Reserve, p_type = t, p_data = d\<rparr> q = send (t, d) q \<and>
    map_option (\<lambda>(r, c, q'). (r, q', c_buffer c, c_header c))
      (run_consumer 520 \<lparr>c_pc = C_Index, c_type = t, c_buffer = b, c_header = h\<rparr> q) = receive t (q, b, h)"
  using assms by (simp add: run_producer_equivalent run_consumer_equivalent)

theorem atomic_actions_implement_calls_witness:
  "run_producer 7 \<lparr>p_pc = P_Reserve, p_type = TEXT, p_data = [7, 0]\<rparr> (init_queue zero_layout) =
     send (TEXT, [7, 0]) (init_queue zero_layout) \<and>
   map_option (\<lambda>(r, c, q'). (r, q', c_buffer c, c_header c))
     (run_consumer 520 \<lparr>c_pc = C_Index, c_type = TEXT, c_buffer = [1], c_header = \<lparr>msg_type = 0, msg_length = 0\<rparr>\<rparr>
       (init_queue zero_layout)) =
     receive TEXT (init_queue zero_layout, [1], \<lparr>msg_type = 0, msg_length = 0\<rparr>)"
  using atomic_actions_implement_calls[of "init_queue zero_layout" "[7, 0]" "[1]" TEXT]
  by (simp add: init_zero_layout fifo_okD)

end
