(* ===== verification/Shm_Utils.thy ===== *)
theory Shm_Utils
  imports Ipc_Queue "HOL-Library.AList"
begin

text \<open>
  The shared-memory regions of \<^verbatim>\<open>hw4/shm_utils.cpp\<close>. The operating system is a parameter: a
  record of the system calls the code makes, over a state type of its own. What the code relies
  on is the predicate \<open>posix_shm\<close>, which states the documented effect of each call on the table
  of descriptors, the mappings, the names and the objects. The lemmas show that opening is all or
  nothing, that closing undoes it, and where a failure leaves a name behind.
\<close>

section \<open>Sizes of the layout\<close>

text \<open>The size of a struct from the sizes and alignments of its members (Itanium C++ ABI).\<close>

definition align_up :: "nat \<Rightarrow> nat \<Rightarrow> nat" where
  "align_up n a = (n + a - 1) div a * a"

definition struct_size :: "(nat \<times> nat) list \<Rightarrow> nat" where
  "struct_size ms = align_up (foldl (\<lambda>off (sz, al). align_up off al + sz) 0 ms) (fold (max \<circ> snd) ms 1)"

definition sizeof_MessageHeader :: nat where
  "sizeof_MessageHeader = struct_size [(4, 4), (4, 4)]"

definition sizeof_QueueMeta :: nat where
  "sizeof_QueueMeta = struct_size [(4, 4), (4, 4), (4, 4), (4, 4)]"

definition sizeof_MessageSlot :: nat where
  "sizeof_MessageSlot = struct_size [(4, 4), (sizeof_MessageHeader, 4), (unat MAX_PAYLOAD_SIZE, 1)]"

definition sizeof_SharedQueueLayout :: nat where
  "sizeof_SharedQueueLayout =
     struct_size [(sizeof_QueueMeta, 4), (8, 8), (8, 8), (unat QUEUE_CAPACITY * sizeof_MessageSlot, 4)]"

definition get_queue_memory_size :: size_t where
  "get_queue_memory_size = of_nat sizeof_SharedQueueLayout"

lemma sizeof_SharedQueueLayout_eq [simp]: "sizeof_SharedQueueLayout = 4320"
  by (simp add: sizeof_SharedQueueLayout_def sizeof_MessageSlot_def sizeof_QueueMeta_def
      sizeof_MessageHeader_def struct_size_def align_up_def)

lemma get_queue_memory_size_eq: "get_queue_memory_size = 4320"
  by (simp add: get_queue_memory_size_def)

section \<open>The system calls\<close>

datatype oflag = O_CREAT | O_EXCL | O_RDWR

datatype errno_code = EEXIST | Other_error

record 'w posix =
  shm_open :: "string \<Rightarrow> oflag list \<Rightarrow> nat \<Rightarrow> 'w \<Rightarrow> int \<times> 'w"
  errno :: "'w \<Rightarrow> errno_code"
  ftruncate :: "int \<Rightarrow> int \<Rightarrow> 'w \<Rightarrow> int \<times> 'w"
  mmap :: "size_t \<Rightarrow> int \<Rightarrow> 'w \<Rightarrow> nat option \<times> 'w"     \<comment> \<open>\<open>None\<close> is \<^verbatim>\<open>MAP_FAILED\<close>\<close>
  munmap :: "nat \<Rightarrow> size_t \<Rightarrow> 'w \<Rightarrow> 'w"
  close_fd :: "int \<Rightarrow> 'w \<Rightarrow> 'w"
  shm_unlink :: "string \<Rightarrow> 'w \<Rightarrow> int \<times> 'w"
  peek :: "nat \<Rightarrow> 'w \<Rightarrow> SharedQueueLayout option"         \<comment> \<open>reads the layout; \<open>None\<close> is a fault\<close>
  poke :: "nat \<Rightarrow> SharedQueueLayout \<Rightarrow> 'w \<Rightarrow> 'w option"

section \<open>The functions\<close>

text \<open>The address \<open>0\<close> is \<^verbatim>\<open>nullptr\<close>.\<close>

record SharedMemoryRegion =
  region_fd :: int
  region_addr :: nat
  region_size :: size_t

definition empty_region :: SharedMemoryRegion where
  "empty_region = \<lparr>region_fd = -1, region_addr = 0, region_size = 0\<rparr>"

definition create_shared_memory ::
  "'w posix \<Rightarrow> string option \<Rightarrow> size_t \<Rightarrow> SharedMemoryRegion option \<Rightarrow> 'w \<Rightarrow>
   bool \<times> SharedMemoryRegion option \<times> 'w" where
  "create_shared_memory os name sz region w =
     (if name = None \<or> region = None \<or> sz = 0 then (False, region, w)
      else case shm_open os (the name) [O_CREAT, O_RDWR] 438 w of (fd, w1) \<Rightarrow>
        if fd = -1 then (False, region, w1)
        else case ftruncate os fd (sint sz) w1 of (rc, w2) \<Rightarrow>
          if rc = -1 then (False, region, close_fd os fd w2)
          else case mmap os sz fd w2 of
              (None, w3) \<Rightarrow> (False, region, close_fd os fd w3)
            | (Some a, w3) \<Rightarrow> (True, Some \<lparr>region_fd = fd, region_addr = a, region_size = sz\<rparr>, w3))"

definition open_shared_memory ::
  "'w posix \<Rightarrow> string option \<Rightarrow> size_t \<Rightarrow> SharedMemoryRegion option \<Rightarrow> 'w \<Rightarrow>
   bool \<times> SharedMemoryRegion option \<times> 'w" where
  "open_shared_memory os name sz region w =
     (if name = None \<or> region = None \<or> sz = 0 then (False, region, w)
      else case shm_open os (the name) [O_RDWR] 438 w of (fd, w1) \<Rightarrow>
        if fd = -1 then (False, region, w1)
        else case mmap os sz fd w1 of
            (None, w2) \<Rightarrow> (False, region, close_fd os fd w2)
          | (Some a, w2) \<Rightarrow> (True, Some \<lparr>region_fd = fd, region_addr = a, region_size = sz\<rparr>, w2))"

text \<open>The tail of \<^verbatim>\<open>create_or_open_shared_memory\<close>, from the call of \<^verbatim>\<open>mmap\<close> on.\<close>

definition map_created_or_opened ::
  "'w posix \<Rightarrow> string \<Rightarrow> size_t \<Rightarrow> int \<Rightarrow> bool \<Rightarrow> SharedMemoryRegion option \<Rightarrow> bool option \<Rightarrow> 'w \<Rightarrow>
   bool \<times> SharedMemoryRegion option \<times> bool option \<times> 'w" where
  "map_created_or_opened os n sz fd created_now region was_created w =
     (case mmap os sz fd w of
        (None, w1) \<Rightarrow>
          (False, region, was_created,
            let w2 = close_fd os fd w1 in if created_now then snd (shm_unlink os n w2) else w2)
      | (Some a, w1) \<Rightarrow>
          (True, Some \<lparr>region_fd = fd, region_addr = a, region_size = sz\<rparr>, Some created_now, w1))"

definition create_or_open_shared_memory ::
  "'w posix \<Rightarrow> string option \<Rightarrow> size_t \<Rightarrow> SharedMemoryRegion option \<Rightarrow> bool option \<Rightarrow> 'w \<Rightarrow>
   bool \<times> SharedMemoryRegion option \<times> bool option \<times> 'w" where
  "create_or_open_shared_memory os name sz region was_created w =
     (if name = None \<or> region = None \<or> was_created = None \<or> sz = 0 then (False, region, was_created, w)
      else let n = the name in
        case shm_open os n [O_CREAT, O_EXCL, O_RDWR] 438 w of (fd, w1) \<Rightarrow>
          if fd \<noteq> -1 then
            case ftruncate os fd (sint sz) w1 of (rc, w2) \<Rightarrow>
              if rc = -1 then (False, region, was_created, snd (shm_unlink os n (close_fd os fd w2)))
              else map_created_or_opened os n sz fd True region was_created w2
          else if errno os w1 \<noteq> EEXIST then (False, region, was_created, w1)
          else case shm_open os n [O_RDWR] 438 w1 of (fd', w2) \<Rightarrow>
            if fd' = -1 then (False, region, was_created, w2)
            else map_created_or_opened os n sz fd' False region was_created w2)"

definition close_shared_memory ::
  "'w posix \<Rightarrow> SharedMemoryRegion option \<Rightarrow> 'w \<Rightarrow> SharedMemoryRegion option \<times> 'w" where
  "close_shared_memory os region w =
     (case region of None \<Rightarrow> (None, w)
      | Some r \<Rightarrow>
          let w1 = (if region_addr r \<noteq> 0 \<and> 0 < region_size r then munmap os (region_addr r) (region_size r) w else w);
              w2 = (if 0 \<le> region_fd r then close_fd os (region_fd r) w1 else w1)
          in (Some (r\<lparr>region_fd := -1, region_addr := 0, region_size := 0\<rparr>), w2))"

definition unlink_shared_memory :: "'w posix \<Rightarrow> string option \<Rightarrow> 'w \<Rightarrow> bool \<times> 'w" where
  "unlink_shared_memory os name w =
     (case name of None \<Rightarrow> (False, w)
      | Some n \<Rightarrow> (case shm_unlink os n w of (rc, w') \<Rightarrow> (rc = 0, w')))"

section \<open>What the code relies on\<close>

text \<open>
  What can be observed of a state of the system, as seen by one process that runs alone between
  its calls: the objects the names are bound to, the open descriptors, the mappings (address to
  object and length), the objects' sizes and the layout stored at their start.
\<close>

record 'w shm_view =
  v_names :: "'w \<Rightarrow> string \<Rightarrow> nat option"
  v_fds :: "'w \<Rightarrow> int \<Rightarrow> nat option"
  v_maps :: "'w \<Rightarrow> nat \<Rightarrow> (nat \<times> size_t) option"
  v_sizes :: "'w \<Rightarrow> nat \<Rightarrow> nat"
  v_mem :: "'w \<Rightarrow> nat \<Rightarrow> SharedQueueLayout"

definition same_names :: "'w shm_view \<Rightarrow> 'w \<Rightarrow> 'w \<Rightarrow> bool" where
  "same_names v w w' \<longleftrightarrow> v_names v w' = v_names v w"

definition same_handles :: "'w shm_view \<Rightarrow> 'w \<Rightarrow> 'w \<Rightarrow> bool" where
  "same_handles v w w' \<longleftrightarrow> v_fds v w' = v_fds v w \<and> v_maps v w' = v_maps v w"

definition same_objects :: "'w shm_view \<Rightarrow> 'w \<Rightarrow> 'w \<Rightarrow> bool" where
  "same_objects v w w' \<longleftrightarrow> v_sizes v w' = v_sizes v w \<and> v_mem v w' = v_mem v w"

lemmas same_defs = same_names_def same_handles_def same_objects_def

definition opened :: "'w shm_view \<Rightarrow> string \<Rightarrow> oflag list \<Rightarrow> 'w \<Rightarrow> int \<Rightarrow> 'w \<Rightarrow> bool" where
  "opened v n fl w fd w' \<longleftrightarrow>
     (if fd = -1 then same_names v w w' \<and> same_handles v w w' \<and> same_objects v w w'
      else 0 \<le> fd \<and> v_fds v w fd = None \<and> v_maps v w' = v_maps v w \<and>
        (case v_names v w n of
           Some i \<Rightarrow> O_EXCL \<notin> set fl \<and> same_names v w w' \<and> same_objects v w w' \<and>
             v_fds v w' = (v_fds v w)(fd := Some i)
         | None \<Rightarrow> O_CREAT \<in> set fl \<and>
             (\<exists>i. v_names v w' = (v_names v w)(n := Some i) \<and> v_fds v w' = (v_fds v w)(fd := Some i) \<and>
                v_sizes v w' = (v_sizes v w)(i := 0) \<and> v_mem v w' = (v_mem v w)(i := zero_layout))))"

definition shm_open_law :: "'w posix \<Rightarrow> 'w shm_view \<Rightarrow> bool" where
  "shm_open_law os v \<longleftrightarrow>
     (\<forall>n fl md w fd w'. shm_open os n fl md w = (fd, w') \<longrightarrow> opened v n fl w fd w')"

definition errno_law :: "'w posix \<Rightarrow> 'w shm_view \<Rightarrow> bool" where
  "errno_law os v \<longleftrightarrow> (\<forall>n fl md w fd w'. shm_open os n fl md w = (fd, w') \<longrightarrow>
     O_CREAT \<in> set fl \<longrightarrow> O_EXCL \<in> set fl \<longrightarrow> v_names v w n \<noteq> None \<longrightarrow> errno os w' = EEXIST)"

definition truncated :: "'w shm_view \<Rightarrow> int \<Rightarrow> int \<Rightarrow> 'w \<Rightarrow> int \<Rightarrow> 'w \<Rightarrow> bool" where
  "truncated v fd len w rc w' \<longleftrightarrow> same_names v w w' \<and> same_handles v w w' \<and>
     (if rc = -1 then same_objects v w w'
      else 0 \<le> len \<and> (\<exists>i. v_fds v w fd = Some i \<and> v_sizes v w' = (v_sizes v w)(i := nat len) \<and>
        (int sizeof_SharedQueueLayout \<le> len \<longrightarrow> v_mem v w' = v_mem v w)))"

definition ftruncate_law :: "'w posix \<Rightarrow> 'w shm_view \<Rightarrow> bool" where
  "ftruncate_law os v \<longleftrightarrow>
     (\<forall>fd len w rc w'. ftruncate os fd len w = (rc, w') \<longrightarrow> truncated v fd len w rc w')"

definition mapped :: "'w shm_view \<Rightarrow> size_t \<Rightarrow> int \<Rightarrow> 'w \<Rightarrow> nat option \<Rightarrow> 'w \<Rightarrow> bool" where
  "mapped v sz fd w r w' \<longleftrightarrow> same_names v w w' \<and> same_objects v w w' \<and> v_fds v w' = v_fds v w \<and>
     (case r of None \<Rightarrow> v_maps v w' = v_maps v w
      | Some a \<Rightarrow> a \<noteq> 0 \<and> v_maps v w a = None \<and>
          (\<exists>i. v_fds v w fd = Some i \<and> v_maps v w' = (v_maps v w)(a := Some (i, sz))))"

definition mmap_law :: "'w posix \<Rightarrow> 'w shm_view \<Rightarrow> bool" where
  "mmap_law os v \<longleftrightarrow> (\<forall>sz fd w r w'. mmap os sz fd w = (r, w') \<longrightarrow> mapped v sz fd w r w')"

definition release_law :: "'w posix \<Rightarrow> 'w shm_view \<Rightarrow> bool" where
  "release_law os v \<longleftrightarrow>
     (\<forall>fd w. same_names v w (close_fd os fd w) \<and> same_objects v w (close_fd os fd w) \<and>
        v_maps v (close_fd os fd w) = v_maps v w \<and>
        v_fds v (close_fd os fd w) = (v_fds v w)(fd := None)) \<and>
     (\<forall>a sz w i. v_maps v w a = Some (i, sz) \<longrightarrow>
        same_names v w (munmap os a sz w) \<and> same_objects v w (munmap os a sz w) \<and>
        v_fds v (munmap os a sz w) = v_fds v w \<and>
        v_maps v (munmap os a sz w) = (v_maps v w)(a := None))"

definition shm_unlink_law :: "'w posix \<Rightarrow> 'w shm_view \<Rightarrow> bool" where
  "shm_unlink_law os v \<longleftrightarrow> (\<forall>n w rc w'. shm_unlink os n w = (rc, w') \<longrightarrow>
     (rc = 0 \<longleftrightarrow> v_names v w n \<noteq> None) \<and> v_names v w' = (v_names v w)(n := None) \<and>
     same_handles v w w' \<and> same_objects v w w')"

text \<open>Memory is reached through a mapping as long as the object behind it is large enough.\<close>

definition memory_law :: "'w posix \<Rightarrow> 'w shm_view \<Rightarrow> bool" where
  "memory_law os v \<longleftrightarrow> (\<forall>a w i sz. v_maps v w a = Some (i, sz) \<longrightarrow>
     sizeof_SharedQueueLayout \<le> unat sz \<longrightarrow> sizeof_SharedQueueLayout \<le> v_sizes v w i \<longrightarrow>
     peek os a w = Some (v_mem v w i) \<and>
     (\<forall>q. \<exists>w'. poke os a q w = Some w' \<and> same_names v w w' \<and> same_handles v w w' \<and>
        v_sizes v w' = v_sizes v w \<and> v_mem v w' = (v_mem v w)(i := q)))"

definition posix_shm :: "'w posix \<Rightarrow> 'w shm_view \<Rightarrow> bool" where
  "posix_shm os v \<longleftrightarrow> shm_open_law os v \<and> errno_law os v \<and> ftruncate_law os v \<and> mmap_law os v \<and>
     release_law os v \<and> shm_unlink_law os v \<and> memory_law os v"

text \<open>A system that does not fail for lack of resources or permissions, up to a size.\<close>

definition cooperative :: "'w posix \<Rightarrow> 'w shm_view \<Rightarrow> nat \<Rightarrow> bool" where
  "cooperative os v limit \<longleftrightarrow>
     (\<forall>n fl md w. (if v_names v w n = None then O_CREAT \<in> set fl else O_EXCL \<notin> set fl) \<longrightarrow>
        fst (shm_open os n fl md w) \<noteq> -1) \<and>
     (\<forall>fd len w. v_fds v w fd \<noteq> None \<longrightarrow> 0 \<le> len \<longrightarrow> len \<le> int limit \<longrightarrow>
        fst (ftruncate os fd len w) \<noteq> -1) \<and>
     (\<forall>sz fd w. v_fds v w fd \<noteq> None \<longrightarrow> unat sz \<le> limit \<longrightarrow> fst (mmap os sz fd w) \<noteq> None)"

section \<open>Laws as rules\<close>

lemma posix_shmD:
  assumes "posix_shm os v"
  shows "shm_open os n fl md w = (fd, w') \<Longrightarrow> opened v n fl w fd w'"
    and "ftruncate os fd len w = (rc, w') \<Longrightarrow> truncated v fd len w rc w'"
    and "mmap os sz fd w = (r, w') \<Longrightarrow> mapped v sz fd w r w'"
  using assms unfolding posix_shm_def shm_open_law_def ftruncate_law_def mmap_law_def by blast+

lemma shm_open_fail:
  "posix_shm os v \<Longrightarrow> shm_open os n fl md w = (-1, w') \<Longrightarrow>
   same_names v w w' \<and> same_handles v w w' \<and> same_objects v w w'"
  using posix_shmD(1)[of os v n fl md w "-1" w'] by (simp add: opened_def)

lemma shm_open_any:
  assumes "posix_shm os v" "shm_open os n fl md w = (fd, w1)" "fd \<noteq> -1"
  shows "\<exists>i. 0 \<le> fd \<and> v_fds v w fd = None \<and> v_maps v w1 = v_maps v w \<and>
    v_fds v w1 = (v_fds v w)(fd := Some i) \<and> v_names v w1 = (v_names v w)(n := Some i)"
  using posix_shmD(1)[OF assms(1,2)] assms(3)
  by (cases "v_names v w n") (auto simp: opened_def same_names_def fun_upd_idem)

lemma shm_open_existing:
  assumes "posix_shm os v" "shm_open os n fl md w = (fd, w1)" "fd \<noteq> -1" "O_CREAT \<notin> set fl"
  shows "\<exists>i. 0 \<le> fd \<and> v_fds v w fd = None \<and> v_maps v w1 = v_maps v w \<and>
    v_fds v w1 = (v_fds v w)(fd := Some i) \<and> v_names v w n = Some i \<and> same_names v w w1 \<and> same_objects v w w1"
  using posix_shmD(1)[OF assms(1,2)] assms(3,4)
  by (cases "v_names v w n") (auto simp: opened_def)

lemma shm_open_new:
  assumes "posix_shm os v" "shm_open os n fl md w = (fd, w1)" "fd \<noteq> -1" "O_EXCL \<in> set fl"
  shows "\<exists>i. 0 \<le> fd \<and> v_fds v w fd = None \<and> v_maps v w1 = v_maps v w \<and>
    v_fds v w1 = (v_fds v w)(fd := Some i) \<and> v_names v w n = None \<and> v_names v w1 = (v_names v w)(n := Some i) \<and>
    v_sizes v w1 = (v_sizes v w)(i := 0) \<and> v_mem v w1 = (v_mem v w)(i := zero_layout)"
  using posix_shmD(1)[OF assms(1,2)] assms(3,4)
  by (cases "v_names v w n") (auto simp: opened_def)

lemma ftruncate_fail:
  "posix_shm os v \<Longrightarrow> ftruncate os fd len w = (-1, w') \<Longrightarrow> same_names v w w' \<and> same_handles v w w' \<and> same_objects v w w'"
  using posix_shmD(2)[of os v fd len w "-1" w'] by (simp add: truncated_def)

lemma ftruncate_ok:
  "posix_shm os v \<Longrightarrow> ftruncate os fd len w = (rc, w') \<Longrightarrow> rc \<noteq> -1 \<Longrightarrow>
   same_names v w w' \<and> same_handles v w w' \<and> 0 \<le> len \<and>
   (\<exists>i. v_fds v w fd = Some i \<and> v_sizes v w' = (v_sizes v w)(i := nat len) \<and>
     (int sizeof_SharedQueueLayout \<le> len \<longrightarrow> v_mem v w' = v_mem v w))"
  using posix_shmD(2)[of os v fd len w rc w'] by (simp add: truncated_def)

lemma mmap_fail:
  "posix_shm os v \<Longrightarrow> mmap os sz fd w = (None, w') \<Longrightarrow> same_names v w w' \<and> same_handles v w w' \<and> same_objects v w w'"
  using posix_shmD(3)[of os v sz fd w None w'] by (simp add: mapped_def same_handles_def)

lemma mmap_ok:
  "posix_shm os v \<Longrightarrow> mmap os sz fd w = (Some a, w') \<Longrightarrow>
   same_names v w w' \<and> same_objects v w w' \<and> v_fds v w' = v_fds v w \<and> a \<noteq> 0 \<and> v_maps v w a = None \<and>
   (\<exists>i. v_fds v w fd = Some i \<and> v_maps v w' = (v_maps v w)(a := Some (i, sz)))"
  using posix_shmD(3)[of os v sz fd w "Some a" w'] by (simp add: mapped_def)

lemma close_fd_view:
  "posix_shm os v \<Longrightarrow> same_names v w (close_fd os fd w) \<and> same_objects v w (close_fd os fd w) \<and>
     v_maps v (close_fd os fd w) = v_maps v w \<and> v_fds v (close_fd os fd w) = (v_fds v w)(fd := None)"
  unfolding posix_shm_def release_law_def by blast

lemma munmap_view:
  "posix_shm os v \<Longrightarrow> v_maps v w a = Some (i, sz) \<Longrightarrow>
     same_names v w (munmap os a sz w) \<and> same_objects v w (munmap os a sz w) \<and>
     v_fds v (munmap os a sz w) = v_fds v w \<and> v_maps v (munmap os a sz w) = (v_maps v w)(a := None)"
  unfolding posix_shm_def release_law_def by blast

lemma shm_unlink_view:
  "posix_shm os v \<Longrightarrow> shm_unlink os n w = (rc, w') \<Longrightarrow>
     (rc = 0 \<longleftrightarrow> v_names v w n \<noteq> None) \<and> v_names v w' = (v_names v w)(n := None) \<and>
     same_handles v w w' \<and> same_objects v w w'"
  unfolding posix_shm_def shm_unlink_law_def by blast

section \<open>Opening is all or nothing\<close>

text \<open>The region is open: one new descriptor and one new mapping of the named object.\<close>

definition acquired :: "'w shm_view \<Rightarrow> string \<Rightarrow> size_t \<Rightarrow> SharedMemoryRegion \<Rightarrow> nat \<Rightarrow> 'w \<Rightarrow> 'w \<Rightarrow> bool" where
  "acquired v n sz r i w w' \<longleftrightarrow>
     0 \<le> region_fd r \<and> region_addr r \<noteq> 0 \<and> region_size r = sz \<and>
     v_fds v w (region_fd r) = None \<and> v_maps v w (region_addr r) = None \<and> v_names v w' n = Some i \<and>
     v_fds v w' = (v_fds v w)(region_fd r := Some i) \<and>
     v_maps v w' = (v_maps v w)(region_addr r := Some (i, sz))"

text \<open>Nothing has changed for the process and the names.\<close>

definition undone :: "'w shm_view \<Rightarrow> 'w \<Rightarrow> 'w \<Rightarrow> bool" where
  "undone v w w' \<longleftrightarrow> same_handles v w w' \<and> same_names v w w'"

lemma acquiredI:
  assumes os: "posix_shm os v" and op: "0 \<le> fd" "v_fds v w fd = None" "v_maps v w1 = v_maps v w"
      "v_fds v w1 = (v_fds v w)(fd := Some i)" "v_names v w1 n = Some i"
    and mp: "mmap os sz fd w1 = (Some a, w')"
  shows "acquired v n sz \<lparr>region_fd = fd, region_addr = a, region_size = sz\<rparr> i w w'"
  using mmap_ok[OF os mp] op by (auto simp: acquired_def same_names_def)

lemma close_undoes:
  assumes "posix_shm os v" "v_fds v w fd = None" "v_maps v w1 = v_maps v w"
    "v_fds v w1 = (v_fds v w)(fd := Some i)"
  shows "same_handles v w (close_fd os fd w1) \<and> same_names v w1 (close_fd os fd w1)"
  using close_fd_view[OF assms(1), of w1 fd] assms(2-) by (auto simp: same_handles_def fun_upd_idem)

lemma open_shared_memory_cases:
  assumes os: "posix_shm os v" and sz: "sz \<noteq> 0"
    and op: "open_shared_memory os (Some n) sz (Some r0) w = (ok, region, w')"
  shows "if ok then \<exists>r i. region = Some r \<and> v_names v w n = Some i \<and> acquired v n sz r i w w' \<and>
      same_names v w w' \<and> same_objects v w w'
    else region = Some r0 \<and> undone v w w'"
proof -
  obtain fd w1 where o: "shm_open os n [O_RDWR] 438 w = (fd, w1)" by fastforce
  show ?thesis
  proof (cases "fd = -1")
    case True
    then show ?thesis
      using op o sz shm_open_fail[OF os, of n "[O_RDWR]" 438 w w1]
      by (auto simp: open_shared_memory_def undone_def)
  next
    case False
    with shm_open_existing[OF os o] obtain i where i: "0 \<le> fd" "v_fds v w fd = None" "v_maps v w1 = v_maps v w"
      "v_fds v w1 = (v_fds v w)(fd := Some i)" "v_names v w n = Some i" "same_names v w w1" "same_objects v w w1"
      by auto
    obtain m w2 where mp: "mmap os sz fd w1 = (m, w2)" by fastforce
    show ?thesis
    proof (cases m)
      case None
      have "v_fds v w2 = (v_fds v w)(fd := Some i)" "v_maps v w2 = v_maps v w" "same_names v w w2"
        using mmap_fail[OF os, of sz fd w1 w2] mp None i by (auto simp: same_defs)
      with close_undoes[OF os i(2), of w2 i] None op o False mp sz show ?thesis
        by (auto simp: open_shared_memory_def undone_def same_names_def)
    next
      case (Some a)
      with mp have mp': "mmap os sz fd w1 = (Some a, w2)" by simp
      have "same_names v w w2" "same_objects v w w2"
        using mmap_ok[OF os mp'] i(6,7) by (auto simp: same_defs)
      with acquiredI[OF os i(1-4) _ mp'] i(5,6) op o False mp' sz show ?thesis
        by (auto simp: open_shared_memory_def same_names_def)
    qed
  qed
qed

lemma map_created_or_opened_cases:
  assumes os: "posix_shm os v" and i: "0 \<le> fd" "v_fds v w fd = None" "v_maps v w1 = v_maps v w"
      "v_fds v w1 = (v_fds v w)(fd := Some i)" "v_names v w1 = (v_names v w)(n := Some i)"
    and created: "v_names v w n = (if created_now then None else Some i)"
    and op: "map_created_or_opened os n sz fd created_now region wc w1 = (ok, region', wc', w')"
  shows "if ok then \<exists>r. region' = Some r \<and> wc' = Some created_now \<and> acquired v n sz r i w w' \<and>
      same_names v w1 w' \<and> same_objects v w1 w'
    else region' = region \<and> wc' = wc \<and> undone v w w'"
proof -
  obtain m w2 where mp: "mmap os sz fd w1 = (m, w2)" by fastforce
  show ?thesis
  proof (cases m)
    case None
    have w2: "v_fds v w2 = (v_fds v w)(fd := Some i)" "v_maps v w2 = v_maps v w"
        "v_names v w2 = (v_names v w)(n := Some i)"
      using mmap_fail[OF os, of sz fd w1 w2] mp None i by (auto simp: same_defs)
    obtain rc w3 where u: "shm_unlink os n (close_fd os fd w2) = (rc, w3)" by fastforce
    from close_undoes[OF os i(2) w2(2,1)] w2(3) shm_unlink_view[OF os u] created
    have "undone v w (if created_now then w3 else close_fd os fd w2)"
      by (auto simp: undone_def same_defs fun_upd_idem)
    with None op mp u show ?thesis
      by (auto simp: map_created_or_opened_def Let_def split: if_splits)
  next
    case (Some a)
    with mp have mp': "mmap os sz fd w1 = (Some a, w2)" by simp
    from mmap_ok[OF os mp'] acquiredI[OF os i(1-4) _ mp', of n] i(5) op mp' show ?thesis
      by (auto simp: map_created_or_opened_def)
  qed
qed

lemma nat_sint: "0 \<le> sint (w :: size_t) \<Longrightarrow> nat (sint w) = unat w"
  using uint_sint[of w] sint_lt[of w] by (simp add: take_bit_int_eq_self flip: nat_uint_eq)

text \<open>What opening makes of the objects: a created one is zero-filled, an existing one untouched.\<close>

definition object_ready :: "'w shm_view \<Rightarrow> string \<Rightarrow> size_t \<Rightarrow> nat \<Rightarrow> 'w \<Rightarrow> 'w \<Rightarrow> bool" where
  "object_ready v n sz i w w' \<longleftrightarrow>
     (if v_names v w n = None
      then v_sizes v w' = (v_sizes v w)(i := unat sz) \<and>
        (sizeof_SharedQueueLayout \<le> unat sz \<longrightarrow> v_mem v w' = (v_mem v w)(i := zero_layout))
      else v_names v w n = Some i \<and> same_objects v w w')"

lemma created_cases:
  assumes os: "posix_shm os v" and o: "shm_open os n [O_CREAT, O_EXCL, O_RDWR] 438 w = (fd, w1)"
    and fd: "fd \<noteq> -1" and sz: "sz \<noteq> 0"
    and op: "create_or_open_shared_memory os (Some n) sz (Some r0) (Some b0) w = (ok, region, wc, w')"
  shows "v_names v w n = None \<and>
    (if ok then \<exists>r i. region = Some r \<and> wc = Some True \<and> acquired v n sz r i w w' \<and>
      v_names v w' = (v_names v w)(n := Some i) \<and> object_ready v n sz i w w'
    else region = Some r0 \<and> wc = Some b0 \<and> undone v w w')"
proof -
  from shm_open_new[OF os o fd] obtain i where i: "0 \<le> fd" "v_fds v w fd = None" "v_maps v w1 = v_maps v w"
    "v_fds v w1 = (v_fds v w)(fd := Some i)" and new: "v_names v w n = None"
    and n1: "v_names v w1 = (v_names v w)(n := Some i)" "v_sizes v w1 = (v_sizes v w)(i := 0)"
      "v_mem v w1 = (v_mem v w)(i := zero_layout)" by auto
  obtain rc w2 where t: "ftruncate os fd (sint sz) w1 = (rc, w2)" by fastforce
  show ?thesis
  proof (cases "rc = -1")
    case True
    with ftruncate_fail[OF os] t have same: "same_names v w1 w2" "same_handles v w1 w2" by blast+
    obtain rc' w3 where u: "shm_unlink os n (close_fd os fd w2) = (rc', w3)" by fastforce
    from same i have "same_handles v w (close_fd os fd w2)" "same_names v w2 (close_fd os fd w2)"
      using close_undoes[OF os i(2), of w2 i] by (simp_all add: same_handles_def)
    with same shm_unlink_view[OF os u] n1(1) new have "undone v w w3"
      by (auto simp: undone_def same_defs fun_upd_idem)
    with True op o fd sz t u new show ?thesis
      by (auto simp: create_or_open_shared_memory_def Let_def)
  next
    case False
    from ftruncate_ok[OF os t False] i(4) have w2: "same_names v w1 w2" "same_handles v w1 w2" "0 \<le> sint sz"
      "v_sizes v w2 = (v_sizes v w1)(i := nat (sint sz))"
      "int sizeof_SharedQueueLayout \<le> sint sz \<longrightarrow> v_mem v w2 = v_mem v w1" by auto
    have op2: "map_created_or_opened os n sz fd True (Some r0) (Some b0) w2 = (ok, region, wc, w')"
      using op o fd sz t False by (simp add: create_or_open_shared_memory_def Let_def)
    have "object_ready v n sz i w w'" if "same_objects v w2 w'"
      using that w2(3,4,5) nat_sint[OF w2(3)] n1(2,3) new
      by (simp add: object_ready_def same_objects_def le_nat_iff flip: nat_le_iff)
    moreover have f: "v_maps v w2 = v_maps v w" "v_fds v w2 = (v_fds v w)(fd := Some i)"
      "v_names v w2 = (v_names v w)(n := Some i)" "v_names v w n = (if True then None else Some i)"
      using w2(1,2) i n1(1) new by (simp_all add: same_defs)
    ultimately show ?thesis
      using map_created_or_opened_cases[OF os i(1,2) f op2] new by (cases ok) (auto simp: same_names_def)
  qed
qed

lemma create_or_open_shared_memory_cases:
  assumes os: "posix_shm os v" and sz: "sz \<noteq> 0"
    and op: "create_or_open_shared_memory os (Some n) sz (Some r0) (Some b0) w = (ok, region, wc, w')"
  shows "if ok then \<exists>r i. region = Some r \<and> wc = Some (v_names v w n = None) \<and> acquired v n sz r i w w' \<and>
      v_names v w' = (v_names v w)(n := Some i) \<and> object_ready v n sz i w w'
    else region = Some r0 \<and> wc = Some b0 \<and> undone v w w'"
proof -
  obtain fd w1 where o: "shm_open os n [O_CREAT, O_EXCL, O_RDWR] 438 w = (fd, w1)" by fastforce
  show ?thesis
  proof (cases "fd = -1")
    case False
    from created_cases[OF os o False sz op] show ?thesis by auto
  next
    case True
    with shm_open_fail[OF os] o have same: "same_names v w w1" "same_handles v w w1" "same_objects v w w1"
      by blast+
    obtain fd' w2 where o2: "shm_open os n [O_RDWR] 438 w1 = (fd', w2)" by fastforce
    show ?thesis
    proof (cases "errno os w1 = EEXIST \<and> fd' \<noteq> -1")
      case False
      with shm_open_fail[OF os, of n "[O_RDWR]" 438 w1 w2] same o2 op True o sz show ?thesis
        by (auto simp: create_or_open_shared_memory_def Let_def undone_def same_defs split: if_splits)
    next
      case opened: True
      with shm_open_existing[OF os o2] obtain i where i: "0 \<le> fd'" "v_fds v w1 fd' = None" "v_maps v w2 = v_maps v w1"
        "v_fds v w2 = (v_fds v w1)(fd' := Some i)" "v_names v w1 n = Some i" "same_names v w1 w2" "same_objects v w1 w2"
        by auto
      have op2: "map_created_or_opened os n sz fd' False (Some r0) (Some b0) w2 = (ok, region, wc, w')"
        using op o sz True opened o2 by (simp add: create_or_open_shared_memory_def Let_def)
      have f: "v_fds v w fd' = None" "v_maps v w2 = v_maps v w" "v_fds v w2 = (v_fds v w)(fd' := Some i)"
        "v_names v w2 = (v_names v w)(n := Some i)" "v_names v w n = (if False then None else Some i)"
        using same i by (simp_all add: same_defs fun_upd_idem)
      moreover have "same_objects v w w2" using same(3) i(7) by (simp add: same_objects_def)
      ultimately show ?thesis
        using map_created_or_opened_cases[OF os i(1) f op2]
        by (cases ok) (auto simp: object_ready_def same_objects_def same_names_def)
    qed
  qed
qed

lemma close_acquired:
  assumes os: "posix_shm os v" and r: "acquired v n sz r i w w'" and sz: "sz \<noteq> 0"
  shows "\<exists>w2. close_shared_memory os (Some r) w' = (Some empty_region, w2) \<and>
    same_handles v w w2 \<and> same_names v w' w2 \<and> same_objects v w' w2"
proof -
  let ?w1 = "munmap os (region_addr r) sz w'"
  have m: "v_maps v w' (region_addr r) = Some (i, sz)" using r by (simp add: acquired_def)
  have "same_handles v w (close_fd os (region_fd r) ?w1)"
    using munmap_view[OF os m] close_fd_view[OF os, of ?w1 "region_fd r"] r
    by (auto simp: acquired_def same_handles_def fun_upd_idem)
  moreover have "same_names v w' (close_fd os (region_fd r) ?w1)" "same_objects v w' (close_fd os (region_fd r) ?w1)"
    using munmap_view[OF os m] close_fd_view[OF os, of ?w1 "region_fd r"] by (simp_all add: same_defs)
  ultimately show ?thesis
    using r sz by (cases r) (simp add: close_shared_memory_def acquired_def empty_region_def Let_def word_gt_0)
qed

section \<open>A small kernel\<close>

text \<open>A concrete system that satisfies the laws, with a limit on the size of an object.\<close>

record kernel =
  k_names :: "(string \<times> nat) list"
  k_fds :: "(int \<times> nat) list"
  k_maps :: "(nat \<times> nat \<times> size_t) list"
  k_sizes :: "nat \<Rightarrow> nat"
  k_mem :: "nat \<Rightarrow> SharedQueueLayout"
  k_next :: nat
  k_errno :: errno_code

definition fresh_fd :: "kernel \<Rightarrow> int" where
  "fresh_fd k = Max (set (2 # map fst (k_fds k))) + 1"

definition fresh_addr :: "kernel \<Rightarrow> nat" where
  "fresh_addr k = Max (set (0 # map fst (k_maps k))) + 1"

definition sim_shm_open :: "string \<Rightarrow> oflag list \<Rightarrow> nat \<Rightarrow> kernel \<Rightarrow> int \<times> kernel" where
  "sim_shm_open n fl md k =
     (case map_of (k_names k) n of
        Some i \<Rightarrow>
          if O_EXCL \<in> set fl then (-1, k\<lparr>k_errno := EEXIST\<rparr>)
          else (fresh_fd k, k\<lparr>k_fds := (fresh_fd k, i) # k_fds k\<rparr>)
      | None \<Rightarrow>
          if O_CREAT \<notin> set fl then (-1, k\<lparr>k_errno := Other_error\<rparr>)
          else (fresh_fd k, k\<lparr>k_names := (n, k_next k) # k_names k, k_fds := (fresh_fd k, k_next k) # k_fds k,
                 k_sizes := (k_sizes k)(k_next k := 0), k_mem := (k_mem k)(k_next k := zero_layout),
                 k_next := Suc (k_next k)\<rparr>))"

definition sim_ftruncate :: "nat \<Rightarrow> int \<Rightarrow> int \<Rightarrow> kernel \<Rightarrow> int \<times> kernel" where
  "sim_ftruncate limit fd len k =
     (case map_of (k_fds k) fd of
        Some i \<Rightarrow> if 0 \<le> len \<and> len \<le> int limit then (0, k\<lparr>k_sizes := (k_sizes k)(i := nat len)\<rparr>) else (-1, k)
      | None \<Rightarrow> (-1, k))"

definition sim_mmap :: "nat \<Rightarrow> size_t \<Rightarrow> int \<Rightarrow> kernel \<Rightarrow> nat option \<times> kernel" where
  "sim_mmap limit sz fd k =
     (case map_of (k_fds k) fd of
        Some i \<Rightarrow> if unat sz \<le> limit then (Some (fresh_addr k), k\<lparr>k_maps := (fresh_addr k, i, sz) # k_maps k\<rparr>)
                  else (None, k)
      | None \<Rightarrow> (None, k))"

definition sim_mapped :: "nat \<Rightarrow> kernel \<Rightarrow> nat option" where
  "sim_mapped a k =
     (case map_of (k_maps k) a of None \<Rightarrow> None
      | Some (i, sz) \<Rightarrow>
          if sizeof_SharedQueueLayout \<le> unat sz \<and> sizeof_SharedQueueLayout \<le> k_sizes k i then Some i else None)"

definition sim_os :: "nat \<Rightarrow> kernel posix" where
  "sim_os limit = \<lparr>shm_open = sim_shm_open, errno = k_errno, ftruncate = sim_ftruncate limit,
     mmap = sim_mmap limit,
     munmap = (\<lambda>a sz k. k\<lparr>k_maps := AList.delete a (k_maps k)\<rparr>),
     close_fd = (\<lambda>fd k. k\<lparr>k_fds := AList.delete fd (k_fds k)\<rparr>),
     shm_unlink = (\<lambda>n k. (if map_of (k_names k) n = None then -1 else 0, k\<lparr>k_names := AList.delete n (k_names k)\<rparr>)),
     peek = (\<lambda>a k. map_option (k_mem k) (sim_mapped a k)),
     poke = (\<lambda>a q k. map_option (\<lambda>i. k\<lparr>k_mem := (k_mem k)(i := q)\<rparr>) (sim_mapped a k))\<rparr>"

definition sim_view :: "kernel shm_view" where
  "sim_view = \<lparr>v_names = (\<lambda>k. map_of (k_names k)), v_fds = (\<lambda>k. map_of (k_fds k)),
     v_maps = (\<lambda>k. map_of (k_maps k)), v_sizes = k_sizes, v_mem = k_mem\<rparr>"

definition boot :: kernel where
  "boot = \<lparr>k_names = [], k_fds = [], k_maps = [], k_sizes = (\<lambda>_. 0), k_mem = (\<lambda>_. zero_layout),
     k_next = 0, k_errno = Other_error\<rparr>"

lemma fresh_fd_unused: "map_of (k_fds k) (fresh_fd k) = None" "0 \<le> fresh_fd k" "fresh_fd k \<noteq> -1"
proof -
  have m: "fd \<le> Max (set (2 # map fst (k_fds k)))" if "fd \<in> set (2 # map fst (k_fds k))" for fd
    using that by (intro Max_ge) auto
  have "fresh_fd k \<notin> set (map fst (k_fds k))"
    using m[of "fresh_fd k"] by (auto simp: fresh_fd_def)
  then show "map_of (k_fds k) (fresh_fd k) = None" by (simp add: map_of_eq_None_iff)
  have "2 \<le> Max (set (2 # map fst (k_fds k)))" by (rule m) simp
  then show "0 \<le> fresh_fd k" "fresh_fd k \<noteq> -1" unfolding fresh_fd_def by linarith+
qed

lemma fresh_addr_unused: "map_of (k_maps k) (fresh_addr k) = None" "fresh_addr k \<noteq> 0"
proof -
  have "a \<le> Max (set (0 # map fst (k_maps k)))" if "a \<in> set (map fst (k_maps k))" for a
    using that by (intro Max_ge) auto
  then have "fresh_addr k \<notin> set (map fst (k_maps k))"
    unfolding fresh_addr_def by fastforce
  then show "map_of (k_maps k) (fresh_addr k) = None" by (simp add: map_of_eq_None_iff)
qed (simp add: fresh_addr_def)

lemma sim_posix_shm: "posix_shm (sim_os limit) sim_view"
proof -
  let ?os = "sim_os limit"
  have "shm_open_law ?os sim_view"
    by (auto simp: shm_open_law_def opened_def sim_os_def sim_view_def sim_shm_open_def same_defs
        fresh_fd_unused split: option.splits if_splits)
  moreover have "errno_law ?os sim_view"
    by (auto simp: errno_law_def sim_os_def sim_view_def sim_shm_open_def)
  moreover have "ftruncate_law ?os sim_view"
    by (auto simp: ftruncate_law_def truncated_def sim_os_def sim_view_def sim_ftruncate_def same_defs
        split: option.splits if_splits)
  moreover have "mmap_law ?os sim_view"
    by (auto simp: mmap_law_def mapped_def sim_os_def sim_view_def sim_mmap_def same_defs
        fresh_addr_unused split: option.splits if_splits)
  moreover have "release_law ?os sim_view"
    by (auto simp: release_law_def sim_os_def sim_view_def same_defs delete_conv')
  moreover have "shm_unlink_law ?os sim_view"
    by (auto simp: shm_unlink_law_def sim_os_def sim_view_def same_defs delete_conv')
  moreover have "memory_law ?os sim_view"
    by (auto simp: memory_law_def sim_os_def sim_view_def sim_mapped_def same_defs)
  ultimately show ?thesis by (simp add: posix_shm_def)
qed

lemma sim_cooperative: "cooperative (sim_os limit) sim_view limit"
  by (auto simp: cooperative_def sim_os_def sim_view_def sim_shm_open_def sim_ftruncate_def sim_mmap_def
      fresh_fd_unused split: option.splits)

section \<open>Properties\<close>



text \<open>
  \<^verbatim>\<open>create_shared_memory\<close> is not: when it creates the object and \<^verbatim>\<open>ftruncate\<close> then fails, it
  returns false and closes the descriptor, but the new name stays bound to an empty object.
\<close>

lemma create_shared_memory_leaves_name:
  assumes "posix_shm os v" "sz \<noteq> 0" "v_names v w n = None"
    and "shm_open os n [O_CREAT, O_RDWR] 438 w = (fd, w1)" "fd \<noteq> -1"
    and "ftruncate os fd (sint sz) w1 = (-1, w2)"
  shows "\<exists>w' i. create_shared_memory os (Some n) sz (Some r0) w = (False, Some r0, w') \<and>
    same_handles v w w' \<and> v_names v w' n = Some i"
proof -
  from shm_open_any[OF assms(1,4,5)] obtain i where i: "v_fds v w fd = None" "v_maps v w1 = v_maps v w"
    "v_fds v w1 = (v_fds v w)(fd := Some i)" "v_names v w1 = (v_names v w)(n := Some i)" by auto
  have same: "same_names v w1 w2" "same_handles v w1 w2" using ftruncate_fail[OF assms(1,6)] by blast+
  with i close_undoes[OF assms(1) i(1), of w2 i]
  have "same_handles v w (close_fd os fd w2)" "v_names v (close_fd os fd w2) n = Some i"
    by (auto simp: same_names_def same_handles_def)
  with assms show ?thesis by (simp add: create_shared_memory_def)
qed

lemma create_shared_memory_leaves_name_witness:
  "\<exists>w' i. create_shared_memory (sim_os 100) (Some ''/q'') 4320 (Some empty_region) boot =
      (False, Some empty_region, w') \<and> same_handles sim_view boot w' \<and> v_names sim_view w' ''/q'' = Some i"
proof (rule create_shared_memory_leaves_name[OF sim_posix_shm])
  show "shm_open (sim_os 100) ''/q'' [O_CREAT, O_RDWR] 438 boot =
      (3, boot\<lparr>k_names := [(''/q'', 0)], k_fds := [(3, 0)], k_sizes := (\<lambda>_. 0)(0 := 0),
        k_mem := (\<lambda>_. zero_layout)(0 := zero_layout), k_next := 1\<rparr>)"
    by (simp add: sim_os_def sim_shm_open_def boot_def fresh_fd_def)
  show "ftruncate (sim_os 100) 3 (sint (4320 :: size_t)) (boot\<lparr>k_names := [(''/q'', 0)], k_fds := [(3, 0)],
      k_sizes := (\<lambda>_. 0)(0 := 0), k_mem := (\<lambda>_. zero_layout)(0 := zero_layout), k_next := 1\<rparr>) =
      (-1, boot\<lparr>k_names := [(''/q'', 0)], k_fds := [(3, 0)], k_sizes := (\<lambda>_. 0)(0 := 0),
        k_mem := (\<lambda>_. zero_layout)(0 := zero_layout), k_next := 1\<rparr>)"
    by (simp add: sim_os_def sim_ftruncate_def)
qed (simp_all add: sim_view_def boot_def)

end
