(* ===== verification/Hw4_Programs.thy ===== *)
theory Hw4_Programs
  imports Shm_Utils "HOL-Library.Monad_Syntax"
begin

text \<open>
  The two programs \<^verbatim>\<open>hw4/producer_hw4.cpp\<close> and \<^verbatim>\<open>hw4/consumer_hw4.cpp\<close>, from their arguments to
  their exit code and output, over the system calls of \<^verbatim>\<open>Shm_Utils\<close> and the queue of
  \<^verbatim>\<open>Ipc_Queue\<close>. \<open>None\<close> is undefined behaviour or a memory fault. The lemmas show that the
  consumer's loop ends on every memory, and that producer runs followed by a consumer run print
  what they should and leave nothing behind.
\<close>

section \<open>Library functions the programs call\<close>

definition to_byte :: "char \<Rightarrow> byte" where
  "to_byte c = of_nat (of_char c)"

definition of_byte :: "byte \<Rightarrow> char" where
  "of_byte b = char_of (unat b)"

text \<open>The bytes of a string literal with its NUL, and of an \<^verbatim>\<open>int\<close> in memory (little endian).\<close>

definition c_bytes :: "string \<Rightarrow> byte list" where
  "c_bytes s = map to_byte s @ [0]"

definition int_bytes :: "u32 \<Rightarrow> byte list" where
  "int_bytes x = map (\<lambda>i. ucast (drop_bit (8 * i) x)) [0, 1, 2, 3]"

text \<open>
  \<^verbatim>\<open>strtoull(s, nullptr, 10)\<close>: leading white space, an optional sign, then decimal digits. A value
  out of range gives \<^verbatim>\<open>ULLONG_MAX\<close>, a minus sign negates in the unsigned type, no digits give 0.
\<close>

definition strtoull :: "string \<Rightarrow> size_t" where
  "strtoull s =
     (let s1 = dropWhile is_space s;
          neg = (take 1 s1 = ''-'');
          s2 = (if take 1 s1 = ''-'' \<or> take 1 s1 = ''+'' then drop 1 s1 else s1);
          n = digits_value (takeWhile is_digit s2)
      in if 2 ^ 64 \<le> n then - 1 else if neg then - of_nat n else of_nat n)"

section \<open>Common parts of the programs\<close>

record process =
  exit_code :: int
  std_out :: "string list"
  std_err :: "string list"

definition failed :: "string \<Rightarrow> process" where
  "failed msg = \<lparr>exit_code = 1, std_out = [], std_err = [msg]\<rparr>"

text \<open>\<open>args\<close> is \<^verbatim>\<open>argv\<close> without the program's name.\<close>

definition shm_name_arg :: "string list \<Rightarrow> string" where
  "shm_name_arg args = (if length args > 0 then args ! 0 else ''/hw4_queue'')"

definition queue_size_arg :: "string list \<Rightarrow> size_t option" where
  "queue_size_arg args =
     (if length args > 1 then
        let parsed_size = strtoull (args ! 1)
        in if parsed_size < get_queue_memory_size then None else Some parsed_size
      else Some get_queue_memory_size)"

text \<open>Working on the queue through \<^verbatim>\<open>region.addr\<close>.\<close>

definition on_queue ::
  "'w posix \<Rightarrow> SharedMemoryRegion option \<Rightarrow> (SharedQueueLayout \<Rightarrow> ('a \<times> SharedQueueLayout) option) \<Rightarrow>
   'w \<Rightarrow> ('a \<times> 'w) option" where
  "on_queue os region f w =
     (let a = region_addr (the region) in
      do { q \<leftarrow> peek os a w; (x, q') \<leftarrow> f q; w' \<leftarrow> poke os a q' w; Some (x, w') })"

definition finish :: "'w posix \<Rightarrow> SharedMemoryRegion option \<Rightarrow> process \<Rightarrow> 'w \<Rightarrow> (process \<times> 'w) option" where
  "finish os region p w = Some (p, snd (close_shared_memory os region w))"

section \<open>The producer\<close>

definition number_message :: "MessageType \<times> byte list" where
  "number_message = (NUMBER, int_bytes 12345)"

definition text_message :: "MessageType \<times> byte list" where
  "text_message = (TEXT, c_bytes ''hello from producer'')"

definition producer_output :: "bool \<Rightarrow> size_t \<Rightarrow> string list" where
  "producer_output was_created queue_size =
     [if was_created then ''Shared memory created and queue initialized'' else ''Shared memory opened successfully'',
      ''Pushed NUMBER message: '' @ decimal 12345,
      ''Pushed TEXT message: '' @ ''hello from producer'',
      ''Queue size: '' @ decimal (unat queue_size) @ '' bytes'']"

text \<open>\<^verbatim>\<open>main\<close> from the cast of \<^verbatim>\<open>region.addr\<close> on, and \<^verbatim>\<open>main\<close>.\<close>

definition producer_session ::
  "'w posix \<Rightarrow> SharedMemoryRegion option \<Rightarrow> bool \<Rightarrow> size_t \<Rightarrow> 'w \<Rightarrow> (process \<times> 'w) option" where
  "producer_session os region was_created queue_size w1 =
     do {
       (_, w2) \<leftarrow> (if was_created then on_queue os region (\<lambda>q. Some ((), init_queue q)) w1 else Some ((), w1));
       (valid, w3) \<leftarrow> on_queue os region (\<lambda>q. Some (is_queue_valid q, q)) w2;
       if \<not> valid then finish os region (failed ''Queue is not valid'') w3
       else do {
         (pushed_number, w4) \<leftarrow> on_queue os region (send number_message) w3;
         if \<not> pushed_number then finish os region (failed ''Failed to push NUMBER message'') w4
         else do {
           (pushed_text, w5) \<leftarrow> on_queue os region (send text_message) w4;
           if \<not> pushed_text then finish os region (failed ''Failed to push TEXT message'') w5
           else finish os region
             \<lparr>exit_code = 0, std_out = producer_output was_created queue_size, std_err = []\<rparr> w5
         }
       }
     }"

definition producer_main :: "'w posix \<Rightarrow> string list \<Rightarrow> 'w \<Rightarrow> (process \<times> 'w) option" where
  "producer_main os args w =
     (case queue_size_arg args of
        None \<Rightarrow> Some (failed ''Queue size is too small'', w)
      | Some queue_size \<Rightarrow>
          (case create_or_open_shared_memory os (Some (shm_name_arg args)) queue_size (Some empty_region) (Some False) w of
             (ok, region, was_created, w1) \<Rightarrow>
               if \<not> ok then Some (failed ''Failed to create or open shared memory'', w1)
               else producer_session os region (the was_created) queue_size w1))"

section \<open>The consumer\<close>

record consumer_state =
  cs_queue :: SharedQueueLayout
  cs_buffer :: "byte list"
  cs_header :: MessageHeader
  cs_received :: nat
  cs_skipped :: nat
  cs_out :: "string list"

text \<open>One iteration of the \<^verbatim>\<open>while (true)\<close> loop; printing \<^verbatim>\<open>buffer\<close> reads up to its NUL.\<close>

definition consumer_iteration :: "consumer_state \<Rightarrow> (bool \<times> consumer_state) option" where
  "consumer_iteration s =
     do {
       (popped, q, b, h) \<leftarrow> receive TEXT (cs_queue s, cs_buffer s, cs_header s);
       (let s' = s\<lparr>cs_queue := q, cs_buffer := b, cs_header := h\<rparr> in
        if popped then
          do {
            str \<leftarrow> c_string b;
            Some (True, s'\<lparr>cs_received := cs_received s + 1,
              cs_out := cs_out s @ [''Received TEXT message: '' @ map of_byte str]\<rparr>)
          }
        else if read_index (cs_queue s) < read_index q then
          Some (True, s'\<lparr>cs_skipped := cs_skipped s + 1,
            cs_out := cs_out s @ [''Skipped message with another type'']\<rparr>)
        else Some (False, s'))
     }"

definition consumer_start :: "SharedQueueLayout \<Rightarrow> consumer_state" where
  "consumer_start q = \<lparr>cs_queue = q, cs_buffer = replicate 256 0, cs_header = \<lparr>msg_type = 0, msg_length = 0\<rparr>,
     cs_received = 0, cs_skipped = 0, cs_out = []\<rparr>"

text \<open>The loop: 17 iterations are enough, \<open>consumer_loop_left\<close> below.\<close>

definition consumer_loop :: "consumer_state \<Rightarrow> (bool \<times> consumer_state) option" where
  "consumer_loop s = loop 17 consumer_iteration s"

definition consumer_output :: "consumer_state \<Rightarrow> size_t \<Rightarrow> string list" where
  "consumer_output s queue_size =
     cs_out s @
     [''Shared memory opened successfully'', ''Queue is valid'',
      ''Received TEXT messages: '' @ decimal (cs_received s),
      ''Skipped messages: '' @ decimal (cs_skipped s),
      ''Queue size: '' @ decimal (unat queue_size) @ '' bytes'']"

definition consumer_session ::
  "'w posix \<Rightarrow> SharedMemoryRegion option \<Rightarrow> string \<Rightarrow> size_t \<Rightarrow> 'w \<Rightarrow> (process \<times> 'w) option" where
  "consumer_session os region shm_name queue_size w1 =
     do {
       (valid, w2) \<leftarrow> on_queue os region (\<lambda>q. Some (is_queue_valid q, q)) w1;
       if \<not> valid then finish os region (failed ''Queue is not valid'') w2
       else do {
         (s, w3) \<leftarrow> on_queue os region
           (\<lambda>q. do { (_, s) \<leftarrow> consumer_loop (consumer_start q); Some (s, cs_queue s) }) w2;
         (let w4 = snd (close_shared_memory os region w3);
              (unlinked, w5) = unlink_shared_memory os (Some shm_name) w4
          in Some (\<lparr>exit_code = 0,
               std_out = consumer_output s queue_size @
                 [if unlinked then ''Shared memory cleaned up'' else ''Failed to cleanup shared memory''],
               std_err = []\<rparr>, w5))
       }
     }"

definition consumer_main :: "'w posix \<Rightarrow> string list \<Rightarrow> 'w \<Rightarrow> (process \<times> 'w) option" where
  "consumer_main os args w =
     (case queue_size_arg args of
        None \<Rightarrow> Some (failed ''Queue size is too small'', w)
      | Some queue_size \<Rightarrow>
          (case open_shared_memory os (Some (shm_name_arg args)) queue_size (Some empty_region) w of
             (ok, region, w1) \<Rightarrow>
               if \<not> ok then Some (failed ''Failed to open shared memory'', w1)
               else consumer_session os region (shm_name_arg args) queue_size w1))"

section \<open>The consumer's loop ends\<close>

definition ready_slots :: "SharedQueueLayout \<Rightarrow> nat set" where
  "ready_slots q = {i. i < length (slots q) \<and> slot_state (slots q ! i) = slot_state_code READY}"

lemma finite_ready_slots [simp]: "finite (ready_slots q)"
  by (simp add: ready_slots_def)

lemma card_ready_slots: "wf_queue q \<Longrightarrow> card (ready_slots q) \<le> 16"
  using card_mono[of "{..<16}" "ready_slots q"] wf_queueD by (auto simp: ready_slots_def)

lemma receive_eq:
  assumes "wf_queue q" "length b = 256"
  shows "receive t (q, b, h) =
    (let i = get_slot (read_index q); s = slots q ! i; n = unat (msg_length (slot_header s));
         q' = (upd_slot i empty_slot q)\<lparr>read_index := read_index q + 1\<rparr>
     in if slot_state s \<noteq> slot_state_code READY \<or> n > 256 then Some (False, q, b, h)
        else if msg_type (slot_header s) = message_type_code t
        then Some (True, q', take n (payload s) @ drop n b, slot_header s)
        else Some (False, q', b, h))"
  using try_pop_message_eq[OF assms(1), of "of_nat (length b)" b t h] assms(2)
  by (auto simp: receive_def Let_def)

lemma receive_progress:
  assumes wf: "wf_queue q" "length b = 256" and r: "receive t (q, b, h) = Some (p, q', b', h')"
  shows "wf_queue q' \<and> length b' = 256 \<and>
    (q' = q \<and> \<not> p \<or> card (ready_slots q') < card (ready_slots q))"
proof (cases "q' = q \<and> \<not> p")
  case True
  then show ?thesis using r receive_eq[OF wf, of t h] wf by (auto simp: Let_def split: if_splits)
next
  case False
  let ?i = "get_slot (read_index q)"
  from False r receive_eq[OF wf, of t h]
  have ready: "slot_state (slots q ! ?i) = slot_state_code READY"
    and n: "unat (msg_length (slot_header (slots q ! ?i))) \<le> 256"
    and q': "q' = (upd_slot ?i empty_slot q)\<lparr>read_index := read_index q + 1\<rparr>"
    and b': "b' = b \<or> b' = take (unat (msg_length (slot_header (slots q ! ?i)))) (payload (slots q ! ?i)) @
      drop (unat (msg_length (slot_header (slots q ! ?i)))) b"
    by (auto simp: Let_def split: if_splits)
  have i: "?i < length (slots q)" using wf_queueD[OF wf(1)] get_slot_less by simp
  have "ready_slots q' = ready_slots q - {?i}"
    using i by (auto simp: q' ready_slots_def upd_slot_def nth_list_update empty_slot_def)
  moreover have "?i \<in> ready_slots q" using i ready by (simp add: ready_slots_def)
  ultimately have "card (ready_slots q') < card (ready_slots q)"
    using card_Diff1_less[OF finite_ready_slots, of ?i q] by simp
  moreover have "wf_queue q'" using wf_queue_pop[OF wf(1) get_slot_less] by (simp add: q')
  moreover have "length b' = 256"
    using b' n wf(2) wf_queue_nth[OF wf(1) get_slot_less] by auto
  ultimately show ?thesis by simp
qed

definition consumer_wf :: "consumer_state \<Rightarrow> bool" where
  "consumer_wf s \<longleftrightarrow> wf_queue (cs_queue s) \<and> length (cs_buffer s) = 256"

lemma consumer_iteration_progress:
  assumes "consumer_wf s" "consumer_iteration s = Some (True, s')"
  shows "consumer_wf s' \<and> card (ready_slots (cs_queue s')) < card (ready_slots (cs_queue s))"
proof -
  obtain p q b h where r: "receive TEXT (cs_queue s, cs_buffer s, cs_header s) = Some (p, q, b, h)"
    using assms(2) by (cases "receive TEXT (cs_queue s, cs_buffer s, cs_header s)")
      (auto simp: consumer_iteration_def)
  with assms receive_progress[OF _ _ r] show ?thesis
    by (auto simp: consumer_iteration_def consumer_wf_def Let_def split: if_splits option.splits
        dest!: bind_eq_Some_conv[THEN iffD1])
qed

lemma consumer_loop_left:
  assumes "consumer_wf s" "consumer_loop s = Some (left, s')"
  shows left
proof (rule loop_left[of consumer_wf consumer_iteration "\<lambda>s. card (ready_slots (cs_queue s))" s 17 left s'])
  show "consumer_wf s" by (fact assms(1))
  show "card (ready_slots (cs_queue s)) < 17"
    using assms(1) card_ready_slots[of "cs_queue s"] by (simp add: consumer_wf_def)
  show "loop 17 consumer_iteration s = Some (left, s')" using assms(2) by (simp only: consumer_loop_def)
qed (rule consumer_iteration_progress)

lemma consumer_iteration_counts:
  assumes "consumer_wf s" "consumer_iteration s = Some (b, s')"
  shows "consumer_wf s' \<and> cs_received s' + cs_skipped s' + card (ready_slots (cs_queue s')) \<le>
    cs_received s + cs_skipped s + card (ready_slots (cs_queue s))"
proof -
  obtain p q c h where r: "receive TEXT (cs_queue s, cs_buffer s, cs_header s) = Some (p, q, c, h)"
    using assms(2) by (cases "receive TEXT (cs_queue s, cs_buffer s, cs_header s)")
      (auto simp: consumer_iteration_def)
  with assms receive_progress[OF _ _ r] show ?thesis
    by (auto simp: consumer_iteration_def consumer_wf_def Let_def split: if_splits option.splits
        dest!: bind_eq_Some_conv[THEN iffD1])
qed

lemma consumer_loop_counts:
  assumes "consumer_wf s" "consumer_loop s = Some (b, s')"
  shows "cs_received s' + cs_skipped s' \<le> cs_received s + cs_skipped s + card (ready_slots (cs_queue s))"
proof -
  have "cs_received t + cs_skipped t \<le> cs_received s + cs_skipped s + card (ready_slots (cs_queue s))"
    if "consumer_wf s" "loop n consumer_iteration s = Some (b, t)" for n b s t
    using that
  proof (induction n arbitrary: s)
    case (Suc n)
    then obtain c u where u: "consumer_iteration s = Some (c, u)" by (auto split: option.splits)
    with consumer_iteration_counts[OF Suc.prems(1) u] Suc.IH[of u] Suc.prems(2) show ?case
      by (cases c) auto
  qed simp
  with assms show ?thesis unfolding consumer_loop_def by blast
qed

section \<open>Draining a queue in order\<close>

text \<open>
  What the consumer's loop relies on: an iteration takes the first waiting element, records it and
  goes on; with nothing waiting it stops and records nothing.
\<close>

locale ordered_receiver =
  fixes rcv_op :: "'s \<Rightarrow> (bool \<times> 's) option"
    and ok :: "'s \<Rightarrow> bool"
    and elems :: "'s \<Rightarrow> 'e list"
    and obs :: "'s \<Rightarrow> 'o"
    and record_elem :: "'o \<Rightarrow> 'e \<Rightarrow> 'o"
  assumes rcv_op_cons: "ok s \<Longrightarrow> elems s = x # xs \<Longrightarrow>
      \<exists>s'. rcv_op s = Some (True, s') \<and> ok s' \<and> elems s' = xs \<and> obs s' = record_elem (obs s) x"
    and rcv_op_nil: "ok s \<Longrightarrow> elems s = [] \<Longrightarrow>
      \<exists>s'. rcv_op s = Some (False, s') \<and> ok s' \<and> elems s' = [] \<and> obs s' = obs s"
begin

lemma drain:
  "ok s \<Longrightarrow> length (elems s) < n \<Longrightarrow>
   \<exists>s'. loop n rcv_op s = Some (True, s') \<and> ok s' \<and> elems s' = [] \<and>
     obs s' = foldl record_elem (obs s) (elems s)"
proof (induction n arbitrary: s)
  case (Suc n)
  show ?case
  proof (cases "elems s")
    case Nil
    with rcv_op_nil[OF Suc.prems(1)] show ?thesis by auto
  next
    case (Cons x xs)
    with rcv_op_cons[OF Suc.prems(1)] obtain s1 where
      s1: "rcv_op s = Some (True, s1)" "ok s1" "elems s1 = xs" "obs s1 = record_elem (obs s) x" by auto
    with Suc.IH[OF s1(2)] Suc.prems Cons show ?thesis by auto
  qed
qed simp

end

definition printable :: "message \<Rightarrow> bool" where
  "printable m \<longleftrightarrow> (fst m = message_type_code TEXT \<longrightarrow> 0 \<in> set (snd m))"

definition consumer_ready :: "consumer_state \<Rightarrow> bool" where
  "consumer_ready s \<longleftrightarrow> fifo_ok (cs_queue s) \<and> length (cs_buffer s) = 256 \<and>
     list_all printable (contents (cs_queue s)) \<and>
     unat (read_index (cs_queue s)) + length (contents (cs_queue s)) < 2 ^ 64"

definition consumer_log :: "consumer_state \<Rightarrow> string list \<times> nat \<times> nat" where
  "consumer_log s = (cs_out s, cs_received s, cs_skipped s)"

definition log_message :: "string list \<times> nat \<times> nat \<Rightarrow> message \<Rightarrow> string list \<times> nat \<times> nat" where
  "log_message l m = (case l of (out, received, skipped) \<Rightarrow>
     if fst m = message_type_code TEXT
     then (out @ [''Received TEXT message: '' @ map of_byte (takeWhile (\<lambda>c. c \<noteq> 0) (snd m))], received + 1, skipped)
     else (out @ [''Skipped message with another type''], received, skipped + 1))"

lemma takeWhile_append_nul: "0 \<in> set (s :: byte list) \<Longrightarrow> c_string (s @ r) = Some (takeWhile (\<lambda>c. c \<noteq> 0) s)"
  by (auto simp: c_string_def takeWhile_append)

lemma less_add_1: "Suc (unat (x :: size_t)) < 2 ^ 64 \<Longrightarrow> x < x + 1"
  using unat_Suc_bound[of x] by (simp add: word_less_nat_alt)

lemma consumer_iteration_cons:
  assumes ok: "consumer_ready s" and c: "contents (cs_queue s) = m # ms"
  shows "\<exists>s'. consumer_iteration s = Some (True, s') \<and> consumer_ready s' \<and> contents (cs_queue s') = ms \<and>
    consumer_log s' = log_message (consumer_log s) m"
proof -
  from ok have f: "fifo_ok (cs_queue s)" "length (cs_buffer s) = 256" by (auto simp: consumer_ready_def)
  from receive_cons[OF f(1) c f(2), of TEXT "cs_header s"] obtain q b h where
    r: "receive TEXT (cs_queue s, cs_buffer s, cs_header s) = Some (fst m = message_type_code TEXT, q, b, h)"
    and q: "fifo_ok q" "contents q = ms" "read_index q = read_index (cs_queue s) + 1" "length b = 256"
    and b: "b = (if fst m = message_type_code TEXT then snd m @ drop (length (snd m)) (cs_buffer s) else cs_buffer s)"
    by auto
  have wrap: "Suc (unat (read_index (cs_queue s)) + length ms) < 2 ^ 64" using ok c by (simp add: consumer_ready_def)
  then have i: "unat (read_index q) = Suc (unat (read_index (cs_queue s)))"
    using unat_Suc_bound[of "read_index (cs_queue s)"] q(3) by simp
  have ready: "consumer_ready s'" if "cs_queue s' = q" "cs_buffer s' = b" for s'
    using that ok c q i wrap by (simp add: consumer_ready_def)
  show ?thesis
  proof (cases "fst m = message_type_code TEXT")
    case True
    then have "c_string b = Some (takeWhile (\<lambda>c. c \<noteq> 0) (snd m))"
      using ok c b takeWhile_append_nul[of "snd m"] by (simp add: consumer_ready_def printable_def)
    with True r q(2) ready show ?thesis
      by (auto simp: consumer_iteration_def consumer_log_def log_message_def)
  next
    case False
    with r q(2,3) ready less_add_1[of "read_index (cs_queue s)"] wrap show ?thesis
      by (auto simp: consumer_iteration_def consumer_log_def log_message_def)
  qed
qed

interpretation hw4_drain: ordered_receiver consumer_iteration consumer_ready "\<lambda>s. contents (cs_queue s)"
  consumer_log log_message
proof
  fix s assume "consumer_ready s" "contents (cs_queue s) = []"
  moreover from this have "consumer_iteration s = Some (False, s)"
    using receive_nil[of "cs_queue s" "cs_buffer s" TEXT "cs_header s"]
    by (simp add: consumer_iteration_def consumer_ready_def)
  ultimately show "\<exists>s'. consumer_iteration s = Some (False, s') \<and> consumer_ready s' \<and>
      contents (cs_queue s') = [] \<and> consumer_log s' = consumer_log s"
    by blast
qed (use consumer_iteration_cons in blast)

section \<open>Printing is defined when every text is terminated\<close>

definition terminated_texts :: "SharedQueueLayout \<Rightarrow> bool" where
  "terminated_texts q \<longleftrightarrow> list_all (\<lambda>s. printable (slot_message s)) (slots q)"

lemma consumer_iteration_defined:
  assumes wf: "consumer_wf s" and t: "terminated_texts (cs_queue s)"
  shows "\<exists>b s'. consumer_iteration s = Some (b, s') \<and> consumer_wf s' \<and> terminated_texts (cs_queue s')"
proof -
  let ?q = "cs_queue s" and ?i = "get_slot (read_index (cs_queue s))"
  have q: "wf_queue ?q" "length (cs_buffer s) = 256" using wf by (auto simp: consumer_wf_def)
  note r = receive_eq[OF q, of TEXT "cs_header s"]
  have i: "?i < length (slots ?q)" using wf_queueD[OF q(1)] get_slot_less by simp
  let ?q' = "(upd_slot ?i empty_slot ?q)\<lparr>read_index := read_index ?q + 1\<rparr>"
  have t': "terminated_texts ?q'"
    using t i by (auto simp: terminated_texts_def upd_slot_def list_all_length nth_list_update printable_def
        slot_message_def empty_slot_def)
  have "0 \<in> set (take (unat (msg_length (slot_header (slots ?q ! ?i)))) (payload (slots ?q ! ?i)))"
    if "msg_type (slot_header (slots ?q ! ?i)) = message_type_code TEXT"
    using t i that by (auto simp: terminated_texts_def list_all_length printable_def slot_message_def)
  then have "\<exists>b s'. consumer_iteration s = Some (b, s') \<and> (cs_queue s' = ?q \<or> cs_queue s' = ?q')"
    using takeWhile_append_nul r by (auto simp: consumer_iteration_def Let_def)
  then obtain b s' where s': "consumer_iteration s = Some (b, s')" "cs_queue s' = ?q \<or> cs_queue s' = ?q'" by auto
  with t t' consumer_iteration_counts[OF wf s'(1)] show ?thesis by auto
qed

lemma consumer_loop_defined:
  assumes "consumer_wf s" "terminated_texts (cs_queue s)"
  shows "consumer_loop s \<noteq> None"
proof -
  have "loop n consumer_iteration s \<noteq> None" if "consumer_wf s" "terminated_texts (cs_queue s)" for n s
    using that
  proof (induction n arbitrary: s)
    case (Suc n)
    from consumer_iteration_defined[OF Suc.prems] Suc.IH show ?case by auto
  qed simp
  with assms show ?thesis unfolding consumer_loop_def by blast
qed

section \<open>The queue behind a region\<close>

text \<open>The region's mapping reaches object \<open>i\<close>, which is large enough and stores the layout \<open>q\<close>.\<close>

definition holds :: "'w shm_view \<Rightarrow> SharedMemoryRegion \<Rightarrow> nat \<Rightarrow> 'w \<Rightarrow> SharedQueueLayout \<Rightarrow> bool" where
  "holds v r i w q \<longleftrightarrow> v_maps v w (region_addr r) = Some (i, region_size r) \<and>
     sizeof_SharedQueueLayout \<le> unat (region_size r) \<and> sizeof_SharedQueueLayout \<le> v_sizes v w i \<and> v_mem v w i = q"

text \<open>Nothing but the memory of object \<open>i\<close> has changed.\<close>

definition only_memory :: "'w shm_view \<Rightarrow> nat \<Rightarrow> 'w \<Rightarrow> 'w \<Rightarrow> bool" where
  "only_memory v i w w' \<longleftrightarrow> same_names v w w' \<and> same_handles v w w' \<and> v_sizes v w' = v_sizes v w \<and>
     (\<forall>j. j \<noteq> i \<longrightarrow> v_mem v w' j = v_mem v w j)"

lemma only_memory_refl [simp]: "only_memory v i w w"
  by (simp add: only_memory_def same_defs)

lemma only_memory_trans: "only_memory v i w w1 \<Longrightarrow> only_memory v i w1 w2 \<Longrightarrow> only_memory v i w w2"
  by (simp add: only_memory_def same_defs)

lemma on_queue_holds:
  assumes "posix_shm os v" "holds v r i w q" "f q = Some (x, q')"
  shows "\<exists>w'. on_queue os (Some r) f w = Some (x, w') \<and> holds v r i w' q' \<and> only_memory v i w w'"
proof -
  have "memory_law os v" using assms(1) by (simp add: posix_shm_def)
  with assms(2) have "peek os (region_addr r) w = Some q"
    and "\<exists>w'. poke os (region_addr r) q' w = Some w' \<and> same_names v w w' \<and> same_handles v w w' \<and>
        v_sizes v w' = v_sizes v w \<and> v_mem v w' = (v_mem v w)(i := q')"
    unfolding memory_law_def holds_def by blast+
  with assms(2,3) show ?thesis
    by (auto simp: on_queue_def holds_def only_memory_def same_defs)
qed

lemma acquired_only_memory: "acquired v n sz r i w w1 \<Longrightarrow> only_memory v i w1 w2 \<Longrightarrow> acquired v n sz r i w w2"
  by (simp add: acquired_def only_memory_def same_defs)

lemma finish_acquired:
  assumes "posix_shm os v" "acquired v n sz r i w w1" "sz \<noteq> 0"
  shows "\<exists>w2. finish os (Some r) p w1 = Some (p, w2) \<and> same_handles v w w2 \<and> same_names v w1 w2 \<and> same_objects v w1 w2"
  using close_acquired[OF assms] by (auto simp: finish_def)

section \<open>What the messages do to a queue\<close>

text \<open>A queue as the programs find and leave it: valid, in FIFO state, with these messages.\<close>

definition stores :: "SharedQueueLayout \<Rightarrow> message list \<Rightarrow> bool" where
  "stores q ms \<longleftrightarrow> is_queue_valid q \<and> fifo_ok q \<and> contents q = ms \<and> read_index q = 0"

lemma send_meta: "send m q = Some (r, q') \<Longrightarrow> meta q' = meta q"
  by (auto simp: send_def try_push_message_def reserve_index_def claim_slot_def store_defs upd_slot_def Let_def
      split: option.splits if_splits prod.splits)

lemma is_queue_valid_meta: "meta q' = meta q \<Longrightarrow> is_queue_valid q' = is_queue_valid q"
  by (simp add: is_queue_valid_def)

lemma send_stores:
  assumes "stores q ms" "length ms < 16" "length (snd m) \<le> 256"
  shows "\<exists>q'. send m q = Some (True, q') \<and> stores q' (ms @ [(message_type_code (fst m), snd m)])"
  using send_room[of q m] assms send_meta is_queue_valid_meta unfolding stores_def by metis

lemma init_stores: "length (slots q) = 16 \<Longrightarrow> stores (init_queue q) []"
  using init_queue_ok[of q] by (simp add: stores_def)

abbreviation wire :: "MessageType \<times> byte list \<Rightarrow> message" where
  "wire m \<equiv> (message_type_code (fst m), snd m)"

lemma message_lengths [simp]:
  "length (snd number_message) = 4" "length (snd text_message) = 20"
  by (simp_all add: number_message_def int_bytes_def text_message_def c_bytes_def)

lemma producer_session_ok:
  assumes os: "posix_shm os v" and r: "acquired v n sz r i w w1" "sz \<noteq> 0"
    and h: "holds v r i w1 q0" and q: "stores (if was_created then init_queue q0 else q0) ms" "length ms + 2 \<le> 16"
  shows "\<exists>w' q'. producer_session os (Some r) was_created queue_size w1 =
      Some (\<lparr>exit_code = 0, std_out = producer_output was_created queue_size, std_err = []\<rparr>, w') \<and>
    same_handles v w w' \<and> same_names v w1 w' \<and> v_sizes v w' = v_sizes v w1 \<and> v_mem v w' i = q' \<and>
    stores q' (ms @ [wire number_message, wire text_message])"
proof -
  let ?q = "if was_created then init_queue q0 else q0"
  obtain w2 where w2: "(if was_created then on_queue os (Some r) (\<lambda>q. Some ((), init_queue q)) w1 else Some ((), w1)) =
      Some ((), w2)" "holds v r i w2 ?q" "only_memory v i w1 w2"
    using on_queue_holds[OF os h, of "\<lambda>q. Some ((), init_queue q)" "()"] h by (cases was_created) auto
  obtain w3 where w3: "on_queue os (Some r) (\<lambda>q. Some (is_queue_valid q, q)) w2 = Some (True, w3)"
      "holds v r i w3 ?q" "only_memory v i w2 w3"
    using on_queue_holds[OF os w2(2), of "\<lambda>q. Some (is_queue_valid q, q)"] q(1) by (auto simp: stores_def)
  obtain q4 where q4: "send number_message ?q = Some (True, q4)" "stores q4 (ms @ [wire number_message])"
    using send_stores[OF q(1), of number_message] q(2) by auto
  obtain w4 where w4: "on_queue os (Some r) (send number_message) w3 = Some (True, w4)"
      "holds v r i w4 q4" "only_memory v i w3 w4"
    using on_queue_holds[OF os w3(2), of "send number_message" True q4] q4(1) by auto
  obtain q5 where q5: "send text_message q4 = Some (True, q5)"
      "stores q5 (ms @ [wire number_message, wire text_message])"
    using send_stores[OF q4(2), of text_message] q(2) by auto
  obtain w5 where w5: "on_queue os (Some r) (send text_message) w4 = Some (True, w5)"
      "holds v r i w5 q5" "only_memory v i w4 w5"
    using on_queue_holds[OF os w4(2), of "send text_message" True q5] q5(1) by auto
  have m: "only_memory v i w1 w5"
    using w2(3) w3(3) w4(3) w5(3) by (blast intro: only_memory_trans)
  obtain w6 where w6: "finish os (Some r) p w5 = Some (p, w6)" "same_handles v w w6" "same_names v w5 w6"
      "same_objects v w5 w6" for p
    using finish_acquired[OF os acquired_only_memory[OF r(1) m] r(2)] unfolding finish_def by blast
  have "producer_session os (Some r) was_created queue_size w1 =
      Some (\<lparr>exit_code = 0, std_out = producer_output was_created queue_size, std_err = []\<rparr>, w6)"
    unfolding producer_session_def w2(1) using w3(1) w4(1) w5(1) w6(1) by simp
  moreover have "same_names v w1 w6" "v_sizes v w6 = v_sizes v w1" "v_mem v w6 i = q5"
    using m w6 w5(2) by (simp_all add: only_memory_def same_defs holds_def)
  ultimately show ?thesis using w6(2) q5(2) by blast
qed

section \<open>Opening succeeds on a cooperative system\<close>

lemma sint_small:
  assumes "unat (sz :: size_t) \<le> limit" "limit < 2 ^ 63"
  shows "0 \<le> sint sz \<and> sint sz \<le> int limit"
proof -
  have "uint sz = int (unat sz)" by simp
  moreover have "int (unat sz) \<le> int limit" "int limit < 2 ^ 63" using assms by (simp_all only: of_nat_le_iff) simp
  ultimately have u: "uint sz \<le> int limit" "uint sz + 2 ^ 63 < 2 ^ 64" by simp_all
  have "(uint sz + 2 ^ 63) mod 2 ^ 64 = uint sz + 2 ^ 63" using u(2) by (intro mod_pos_pos_trivial) simp_all
  with int_word_sint[of "uint sz", where 'a = 64] u(1) show ?thesis by simp
qed

lemma cooperativeD:
  assumes "cooperative os v limit"
  shows "shm_open os n fl md w = (fd, w') \<Longrightarrow>
      (if v_names v w n = None then O_CREAT \<in> set fl else O_EXCL \<notin> set fl) \<Longrightarrow> fd \<noteq> -1"
    and "ftruncate os fd len w = (rc, w') \<Longrightarrow> v_fds v w fd \<noteq> None \<Longrightarrow> 0 \<le> len \<Longrightarrow> len \<le> int limit \<Longrightarrow> rc \<noteq> -1"
    and "mmap os sz fd w = (m, w') \<Longrightarrow> v_fds v w fd \<noteq> None \<Longrightarrow> unat sz \<le> limit \<Longrightarrow> m \<noteq> None"
  using assms unfolding cooperative_def by (metis fst_conv)+

lemma open_succeeds:
  assumes os: "posix_shm os v" and c: "cooperative os v limit" and sz: "sz \<noteq> 0" "unat sz \<le> limit"
    and n: "v_names v w n \<noteq> None"
  shows "fst (open_shared_memory os (Some n) sz (Some r0) w)"
proof -
  obtain fd w1 where o: "shm_open os n [O_RDWR] 438 w = (fd, w1)" by fastforce
  with cooperativeD(1)[OF c o] n have fd: "fd \<noteq> -1" by auto
  from shm_open_any[OF os o fd] have f: "v_fds v w1 fd \<noteq> None" by auto
  obtain m w2 where m: "mmap os sz fd w1 = (m, w2)" by fastforce
  from cooperativeD(3)[OF c m f sz(2)] show ?thesis
    using o fd m sz(1) by (auto simp: open_shared_memory_def)
qed

lemma map_created_or_opened_succeeds:
  assumes "cooperative os v limit" "v_fds v w fd \<noteq> None" "unat sz \<le> limit"
  shows "fst (map_created_or_opened os n sz fd created region wc w)"
  using cooperativeD(3)[OF assms(1) _ assms(2,3)]
  by (cases "mmap os sz fd w") (auto simp: map_created_or_opened_def split: option.splits)

lemma create_or_open_succeeds:
  assumes os: "posix_shm os v" and c: "cooperative os v limit" and sz: "sz \<noteq> 0" "unat sz \<le> limit"
    and limit: "limit < 2 ^ 63"
  shows "fst (create_or_open_shared_memory os (Some n) sz (Some r0) (Some b0) w)"
proof -
  obtain fd w1 where o: "shm_open os n [O_CREAT, O_EXCL, O_RDWR] 438 w = (fd, w1)" by fastforce
  show ?thesis
  proof (cases "v_names v w n")
    case None
    with cooperativeD(1)[OF c o] have fd: "fd \<noteq> -1" by auto
    from shm_open_any[OF os o fd] have f: "v_fds v w1 fd \<noteq> None" by auto
    obtain rc w2 where t: "ftruncate os fd (sint sz) w1 = (rc, w2)" by fastforce
    from cooperativeD(2)[OF c t f] sint_small[OF sz(2) limit] have rc: "rc \<noteq> -1" by auto
    with ftruncate_ok[OF os t] f have "v_fds v w2 fd \<noteq> None" by (auto simp: same_handles_def)
    with map_created_or_opened_succeeds[OF c _ sz(2)] o fd t rc sz(1) show ?thesis
      by (auto simp: create_or_open_shared_memory_def Let_def)
  next
    case (Some i)
    have fd: "fd = -1"
      using shm_open_new[OF os o] Some by (cases "fd = -1") auto
    have e: "errno os w1 = EEXIST" using os o Some unfolding posix_shm_def errno_law_def by auto
    have n1: "v_names v w1 n = Some i"
      using shm_open_fail[OF os o[unfolded fd]] Some by (simp add: same_names_def)
    obtain fd' w2 where o2: "shm_open os n [O_RDWR] 438 w1 = (fd', w2)" by fastforce
    with cooperativeD(1)[OF c o2] n1 have fd': "fd' \<noteq> -1" by auto
    from shm_open_any[OF os o2 fd'] have "v_fds v w2 fd' \<noteq> None" by auto
    with map_created_or_opened_succeeds[OF c _ sz(2)] o fd e o2 fd' sz(1) show ?thesis
      by (auto simp: create_or_open_shared_memory_def Let_def)
  qed
qed

section \<open>Runs of the programs\<close>

text \<open>The name is bound to an object that stores these messages.\<close>

definition hw4_object :: "'w shm_view \<Rightarrow> string \<Rightarrow> 'w \<Rightarrow> message list \<Rightarrow> bool" where
  "hw4_object v n w ms \<longleftrightarrow> (\<exists>i. v_names v w n = Some i \<and> sizeof_SharedQueueLayout \<le> v_sizes v w i \<and>
     stores (v_mem v w i) ms)"

lemma queue_size_arg_ge: "queue_size_arg args = Some sz \<Longrightarrow> 4320 \<le> unat sz \<and> sz \<noteq> 0"
  by (auto simp: queue_size_arg_def get_queue_memory_size_eq word_less_nat_alt Let_def split: if_splits)

lemma producer_main_ok:
  assumes os: "posix_shm os v" "cooperative os v limit" "limit < 2 ^ 63"
    and args: "queue_size_arg args = Some sz" "unat sz \<le> limit" "shm_name_arg args = n"
    and start: "v_names v w n = None \<and> ms = [] \<or> hw4_object v n w ms" and room: "length ms + 2 \<le> 16"
  shows "\<exists>w'. producer_main os args w =
      Some (\<lparr>exit_code = 0, std_out = producer_output (v_names v w n = None) sz, std_err = []\<rparr>, w') \<and>
    same_handles v w w' \<and> (\<forall>m. m \<noteq> n \<longrightarrow> v_names v w' m = v_names v w m) \<and>
    hw4_object v n w' (ms @ [wire number_message, wire text_message])"
proof -
  note sz = queue_size_arg_ge[OF args(1)]
  obtain ok region wc w1 where op:
    "create_or_open_shared_memory os (Some n) sz (Some empty_region) (Some False) w = (ok, region, wc, w1)"
    by (metis prod.exhaust)
  have ok: ok using create_or_open_succeeds[OF os(1,2) _ args(2) os(3), of n empty_region False w] sz op by simp
  from create_or_open_shared_memory_cases[OF os(1) _ op] sz ok obtain r i where
    r: "region = Some r" "wc = Some (v_names v w n = None)" "acquired v n sz r i w w1"
      "v_names v w1 = (v_names v w)(n := Some i)" "object_ready v n sz i w w1" by auto
  let ?q0 = "v_mem v w1 i" and ?new = "v_names v w n = None"
  have size: "sizeof_SharedQueueLayout \<le> v_sizes v w1 i"
    and q0: "stores (if ?new then init_queue ?q0 else ?q0) ms"
    using r(5) start sz by (auto simp: object_ready_def hw4_object_def same_objects_def init_stores)
  have "holds v r i w1 ?q0" using r(3) size sz by (simp add: holds_def acquired_def)
  from producer_session_ok[OF os(1) r(3) _ this q0 room, of sz] sz obtain w' where
    w': "producer_session os (Some r) ?new sz w1 =
        Some (\<lparr>exit_code = 0, std_out = producer_output ?new sz, std_err = []\<rparr>, w')"
      "same_handles v w w'" "same_names v w1 w'" "v_sizes v w' = v_sizes v w1"
      "stores (v_mem v w' i) (ms @ [wire number_message, wire text_message])" by auto
  have "producer_main os args w = producer_session os (Some r) ?new sz w1"
    using op ok r(1,2) args by (simp add: producer_main_def)
  moreover have "hw4_object v n w' (ms @ [wire number_message, wire text_message])"
    using w'(3,4,5) r(4) size by (auto simp: hw4_object_def same_names_def)
  ultimately show ?thesis using w' r(4) by (auto simp: same_names_def)
qed

definition is_text :: "message \<Rightarrow> bool" where
  "is_text m \<longleftrightarrow> fst m = message_type_code TEXT"

definition message_line :: "message \<Rightarrow> string" where
  "message_line m =
     (if is_text m then ''Received TEXT message: '' @ map of_byte (takeWhile (\<lambda>c. c \<noteq> 0) (snd m))
      else ''Skipped message with another type'')"

lemma foldl_log_message:
  "foldl log_message (out, r, k) ms =
    (out @ map message_line ms, r + length (filter is_text ms), k + length (filter (\<lambda>m. \<not> is_text m) ms))"
  by (induction ms arbitrary: out r k) (auto simp: log_message_def message_line_def is_text_def)

lemma consumer_loop_stores:
  assumes q: "stores q ms" and p: "list_all printable ms" "length ms \<le> 16"
  shows "\<exists>s. consumer_loop (consumer_start q) = Some (True, s) \<and> contents (cs_queue s) = [] \<and>
    cs_out s = map message_line ms \<and> cs_received s = length (filter is_text ms) \<and>
    cs_skipped s = length (filter (\<lambda>m. \<not> is_text m) ms)"
proof -
  have "consumer_ready (consumer_start q)"
    using q p by (auto simp: consumer_ready_def consumer_start_def stores_def)
  from hw4_drain.drain[OF this, of 17] q p(2) show ?thesis
    by (auto simp: consumer_loop_def consumer_start_def consumer_log_def stores_def foldl_log_message)
qed

definition consumer_transcript :: "message list \<Rightarrow> size_t \<Rightarrow> string list" where
  "consumer_transcript ms queue_size =
     map message_line ms @
     [''Shared memory opened successfully'', ''Queue is valid'',
      ''Received TEXT messages: '' @ decimal (length (filter is_text ms)),
      ''Skipped messages: '' @ decimal (length (filter (\<lambda>m. \<not> is_text m) ms)),
      ''Queue size: '' @ decimal (unat queue_size) @ '' bytes'', ''Shared memory cleaned up'']"

lemma consumer_session_ok:
  assumes os: "posix_shm os v" and r: "acquired v n sz r i w w1" "sz \<noteq> 0" and h: "holds v r i w1 q"
    and q: "stores q ms" "list_all printable ms" "length ms \<le> 16"
  shows "\<exists>w'. consumer_session os (Some r) n queue_size w1 =
      Some (\<lparr>exit_code = 0, std_out = consumer_transcript ms queue_size, std_err = []\<rparr>, w') \<and>
    same_handles v w w' \<and> v_names v w' = (v_names v w1)(n := None)"
proof -
  obtain w2 where w2: "on_queue os (Some r) (\<lambda>q. Some (is_queue_valid q, q)) w1 = Some (True, w2)"
      "holds v r i w2 q" "only_memory v i w1 w2"
    using on_queue_holds[OF os h, of "\<lambda>q. Some (is_queue_valid q, q)"] q(1) by (auto simp: stores_def)
  obtain s where s: "consumer_loop (consumer_start q) = Some (True, s)" "cs_out s = map message_line ms"
      "cs_received s = length (filter is_text ms)" "cs_skipped s = length (filter (\<lambda>m. \<not> is_text m) ms)"
    using consumer_loop_stores[OF q] by auto
  let ?f = "\<lambda>q. do { (_, s) \<leftarrow> consumer_loop (consumer_start q); Some (s, cs_queue s) }"
  obtain w3 where w3: "on_queue os (Some r) ?f w2 = Some (s, w3)" "only_memory v i w2 w3"
    using on_queue_holds[OF os w2(2), of ?f s "cs_queue s"] s(1) by auto
  have m: "only_memory v i w1 w3" using w2(3) w3(2) by (rule only_memory_trans)
  obtain w4 where w4: "close_shared_memory os (Some r) w3 = (Some empty_region, w4)" "same_handles v w w4"
      "same_names v w3 w4"
    using close_acquired[OF os acquired_only_memory[OF r(1) m] r(2)] by auto
  obtain rc w5 where u: "shm_unlink os n w4 = (rc, w5)" by fastforce
  have n4: "v_names v w4 = v_names v w1" "v_names v w1 n \<noteq> None"
    using m w4(3) r(1) by (auto simp: only_memory_def same_names_def acquired_def)
  with shm_unlink_view[OF os u] have "rc = 0" "v_names v w5 = (v_names v w1)(n := None)" "same_handles v w4 w5"
    by auto
  moreover have "consumer_session os (Some r) n queue_size w1 =
      Some (\<lparr>exit_code = 0, std_out = consumer_transcript ms queue_size, std_err = []\<rparr>, w5)"
    unfolding consumer_session_def using w2(1) w3(1) w4(1) u \<open>rc = 0\<close> s
    by (simp add: Let_def unlink_shared_memory_def consumer_output_def consumer_transcript_def)
  ultimately show ?thesis using w4(2) by (auto simp: same_handles_def)
qed

lemma consumer_main_ok:
  assumes os: "posix_shm os v" "cooperative os v limit"
    and args: "queue_size_arg args = Some sz" "unat sz \<le> limit" "shm_name_arg args = n"
    and start: "hw4_object v n w ms" and ms: "list_all printable ms" "length ms \<le> 16"
  shows "\<exists>w'. consumer_main os args w =
      Some (\<lparr>exit_code = 0, std_out = consumer_transcript ms sz, std_err = []\<rparr>, w') \<and>
    same_handles v w w' \<and> v_names v w' = (v_names v w)(n := None)"
proof -
  note sz = queue_size_arg_ge[OF args(1)]
  obtain ok region w1 where op: "open_shared_memory os (Some n) sz (Some empty_region) w = (ok, region, w1)"
    by (metis prod.exhaust)
  have ok: ok
    using open_succeeds[OF os _ args(2), of w n empty_region] sz op start by (auto simp: hw4_object_def)
  from open_shared_memory_cases[OF os(1) _ op] sz ok obtain r i where
    r: "region = Some r" "v_names v w n = Some i" "acquired v n sz r i w w1" "same_names v w w1" "same_objects v w w1"
    by auto
  from start r(2,3,5) sz have "holds v r i w1 (v_mem v w i)" "stores (v_mem v w i) ms"
    by (auto simp: hw4_object_def holds_def acquired_def same_objects_def)
  from consumer_session_ok[OF os(1) r(3) _ this ms, of sz] sz show ?thesis
    using op ok r(1,4) args by (auto simp: consumer_main_def same_names_def)
qed

fun run_producers :: "'w posix \<Rightarrow> nat \<Rightarrow> string list \<Rightarrow> 'w \<Rightarrow> (process list \<times> 'w) option" where
  "run_producers os 0 args w = Some ([], w)"
| "run_producers os (Suc k) args w =
     do { (p, w1) \<leftarrow> producer_main os args w; (ps, w2) \<leftarrow> run_producers os k args w1; Some (p # ps, w2) }"

definition produced :: "nat \<Rightarrow> message list" where
  "produced k = concat (replicate k [wire number_message, wire text_message])"

lemma length_produced [simp]: "length (produced k) = 2 * k"
  by (induction k) (simp_all add: produced_def)

lemma produced_Suc: "produced (Suc k) = produced k @ [wire number_message, wire text_message]"
  by (induction k) (simp_all add: produced_def)

lemma printable_produced: "list_all printable (produced k)"
  by (induction k)
    (simp_all add: produced_def printable_def number_message_def text_message_def c_bytes_def)

lemma run_producers_again:
  assumes os: "posix_shm os v" "cooperative os v limit" "limit < 2 ^ 63"
    and args: "queue_size_arg args = Some sz" "unat sz \<le> limit" "shm_name_arg args = n"
    and start: "hw4_object v n w (produced j)" "j + k \<le> 8"
  shows "\<exists>w'. run_producers os k args w =
      Some (replicate k \<lparr>exit_code = 0, std_out = producer_output False sz, std_err = []\<rparr>, w') \<and>
    same_handles v w w' \<and> (\<forall>m. m \<noteq> n \<longrightarrow> v_names v w' m = v_names v w m) \<and> hw4_object v n w' (produced (j + k))"
  using start
proof (induction k arbitrary: j w)
  case (Suc k)
  have n: "v_names v w n \<noteq> None" using Suc.prems(1) by (auto simp: hw4_object_def)
  from producer_main_ok[OF os args, of w "produced j"] Suc.prems n obtain w1 where
    w1: "producer_main os args w = Some (\<lparr>exit_code = 0, std_out = producer_output False sz, std_err = []\<rparr>, w1)"
      "same_handles v w w1" "\<forall>m. m \<noteq> n \<longrightarrow> v_names v w1 m = v_names v w m" "hw4_object v n w1 (produced (Suc j))"
    by (auto simp: produced_Suc)
  with Suc.IH[OF w1(4)] Suc.prems(2) show ?case by (auto simp: same_handles_def)
qed (auto simp: same_handles_def)

section \<open>Numbers in text\<close>

lemma strtoull_decimal: "n < 2 ^ 64 \<Longrightarrow> strtoull (decimal n) = of_nat n"
proof -
  assume n: "n < 2 ^ 64"
  obtain c cs where d: "decimal n = c # cs" "is_digit c" "list_all is_digit cs"
    using decimal_digits[of n] by (cases "decimal n") auto
  with d digit_not_space[OF d(2)] decimal_digits[of n] n show ?thesis
    by (simp add: strtoull_def Let_def list_all_iff takeWhile_eq_all_conv[THEN iffD2])
qed

text \<open>The lines for the producer's two messages, and the numbers of the printed examples.\<close>

lemma unat_to_byte: "unat (to_byte c) = of_char c"
proof -
  have "(of_char c :: nat) < 256" by simp
  then show ?thesis by (simp add: to_byte_def unat_of_nat)
qed

lemma of_byte_to_byte [simp]: "of_byte (to_byte c) = c"
  by (simp add: of_byte_def unat_to_byte)

lemma c_bytes_text: "CHR 0x00 \<notin> set s \<Longrightarrow> map of_byte (takeWhile (\<lambda>c. c \<noteq> 0) (c_bytes s)) = s"
proof -
  assume s: "CHR 0x00 \<notin> set s"
  have "to_byte c \<noteq> 0" if "c \<in> set s" for c
  proof
    assume "to_byte c = 0"
    then have "c = of_byte 0" by (metis of_byte_to_byte)
    also have "of_byte 0 = CHR 0x00" by code_simp
    finally show False using s that by simp
  qed
  then have "takeWhile (\<lambda>c. c \<noteq> 0) (c_bytes s) = map to_byte s"
    by (simp add: c_bytes_def takeWhile_append takeWhile_eq_all_conv[THEN iffD2])
  then show ?thesis by (simp add: comp_def)
qed

lemma message_lines:
  "message_line (wire number_message) = ''Skipped message with another type''"
  "message_line (wire text_message) = ''Received TEXT message: hello from producer''"
  "\<not> is_text (wire number_message)" "is_text (wire text_message)"
  by (simp_all add: message_line_def is_text_def number_message_def text_message_def c_bytes_text)

lemma produced_3: "produced (Suc 2) = [wire number_message, wire text_message, wire number_message,
    wire text_message, wire number_message, wire text_message]"
  by (simp add: produced_def numeral_2_eq_2)

lemma decimal_examples: "decimal (Suc (Suc (Suc 0))) = ''3''" "decimal 4320 = ''4320''"
  by (simp_all add: decimal.simps char_of_digits)

section \<open>Properties\<close>

text \<open>
  C6. End to end, as \<^verbatim>\<open>TESTS.md\<close> shows it for three runs: on a system whose calls do not fail and
  where the name is unbound, up to eight runs of the producer followed by one of the consumer all
  exit with 0. The first producer reports that it created the queue, the others that they opened
  it; the consumer prints for every run a skipped message and the received text, in order, with
  the two counts; and at the end the descriptors, mappings and names are as at the start.
\<close>

theorem producers_then_consumer:
  assumes "posix_shm os v" "cooperative os v limit" "limit < 2 ^ 63"
    and "queue_size_arg args = Some sz" "unat sz \<le> limit"
    and "queue_size_arg cargs = Some csz" "unat csz \<le> limit" "shm_name_arg cargs = shm_name_arg args"
    and "v_names v w (shm_name_arg args) = None" "k < 8"
  shows "\<exists>w1 w2. run_producers os (Suc k) args w =
      Some (\<lparr>exit_code = 0, std_out = producer_output True sz, std_err = []\<rparr> #
        replicate k \<lparr>exit_code = 0, std_out = producer_output False sz, std_err = []\<rparr>, w1) \<and>
    consumer_main os cargs w1 =
      Some (\<lparr>exit_code = 0, std_out = consumer_transcript (produced (Suc k)) csz, std_err = []\<rparr>, w2) \<and>
    same_handles v w w2 \<and> same_names v w w2"
proof -
  let ?n = "shm_name_arg args"
  from producer_main_ok[OF assms(1-5) refl, of w "[]"] assms(9) obtain w0 where
    w0: "producer_main os args w = Some (\<lparr>exit_code = 0, std_out = producer_output True sz, std_err = []\<rparr>, w0)"
      "same_handles v w w0" "\<forall>m. m \<noteq> ?n \<longrightarrow> v_names v w0 m = v_names v w m" "hw4_object v ?n w0 (produced 1)"
    by (auto simp: produced_def)
  from run_producers_again[OF assms(1-5) refl w0(4), of k] assms(10) obtain w1 where
    w1: "run_producers os k args w0 =
        Some (replicate k \<lparr>exit_code = 0, std_out = producer_output False sz, std_err = []\<rparr>, w1)"
      "same_handles v w0 w1" "\<forall>m. m \<noteq> ?n \<longrightarrow> v_names v w1 m = v_names v w0 m"
      "hw4_object v ?n w1 (produced (Suc k))" by auto
  from consumer_main_ok[OF assms(1,2,6,7,8) w1(4) printable_produced] assms(10) obtain w2 where
    w2: "consumer_main os cargs w1 =
        Some (\<lparr>exit_code = 0, std_out = consumer_transcript (produced (Suc k)) csz, std_err = []\<rparr>, w2)"
      "same_handles v w1 w2" "v_names v w2 = (v_names v w1)(?n := None)" by auto
  have "v_names v w2 = v_names v w" using w0(3) w1(3) w2(3) assms(9) by (auto simp: fun_eq_iff)
  moreover have "same_handles v w w2" using w0(2) w1(2) w2(2) by (simp add: same_handles_def)
  ultimately show ?thesis
    using w0(1) w1(1) w2(1) by (intro exI[of _ w1] exI[of _ w2]) (simp add: same_names_def)
qed

theorem producers_then_consumer_witness:
  "\<exists>w1 w2. run_producers (sim_os 8192) 3 [''/hw4_queue'', ''4320''] boot =
      Some (\<lparr>exit_code = 0, std_out = producer_output True 4320, std_err = []\<rparr> #
        replicate 2 \<lparr>exit_code = 0, std_out = producer_output False 4320, std_err = []\<rparr>, w1) \<and>
    consumer_main (sim_os 8192) [] w1 =
      Some (\<lparr>exit_code = 0, std_out =
        [''Skipped message with another type'', ''Received TEXT message: hello from producer'',
         ''Skipped message with another type'', ''Received TEXT message: hello from producer'',
         ''Skipped message with another type'', ''Received TEXT message: hello from producer'',
         ''Shared memory opened successfully'', ''Queue is valid'', ''Received TEXT messages: 3'',
         ''Skipped messages: 3'', ''Queue size: 4320 bytes'', ''Shared memory cleaned up''], std_err = []\<rparr>, w2) \<and>
    same_handles sim_view boot w2 \<and> same_names sim_view boot w2"
proof -
  have t: "consumer_transcript (produced (Suc 2)) 4320 =
        [''Skipped message with another type'', ''Received TEXT message: hello from producer'',
         ''Skipped message with another type'', ''Received TEXT message: hello from producer'',
         ''Skipped message with another type'', ''Received TEXT message: hello from producer'',
         ''Shared memory opened successfully'', ''Queue is valid'', ''Received TEXT messages: 3'',
         ''Skipped messages: 3'', ''Queue size: 4320 bytes'', ''Shared memory cleaned up'']"
    unfolding produced_3 by (simp add: consumer_transcript_def message_lines decimal_examples)
  have a: "queue_size_arg [''/hw4_queue'', ''4320''] = Some 4320" "queue_size_arg [] = Some 4320"
    using strtoull_decimal[of 4320] decimal_examples(2)
    by (simp_all add: queue_size_arg_def get_queue_memory_size_eq)
  have n: "shm_name_arg [] = shm_name_arg [''/hw4_queue'', ''4320'']" by (simp add: shm_name_arg_def)
  have w: "v_names sim_view boot (shm_name_arg [''/hw4_queue'', ''4320'']) = None"
    by (simp add: sim_view_def boot_def)
  have three: "3 = Suc 2" by simp
  show ?thesis
    unfolding t[symmetric] three
    by (rule producers_then_consumer[OF sim_posix_shm sim_cooperative[of 8192] _ a(1) _ a(2) _ n w]) simp_all
qed

text \<open>
  The consumer's \<^verbatim>\<open>while (true)\<close> loop ends on whatever the shared memory holds, as long as no one
  writes to it meanwhile: if every text stored in it is NUL-terminated, the loop is left after at
  most 17 iterations, having counted at most sixteen messages; and without that assumption it is
  left just so whenever printing does not run off the buffer.
\<close>

lemma consumer_loop_terminates:
  assumes "wf_queue q"
  shows "(terminated_texts q \<longrightarrow> consumer_loop (consumer_start q) \<noteq> None) \<and>
    (case consumer_loop (consumer_start q) of None \<Rightarrow> True
     | Some (left, s) \<Rightarrow> left \<and> cs_received s + cs_skipped s \<le> 16)"
proof -
  have wf: "consumer_wf (consumer_start q)" using assms by (simp add: consumer_wf_def consumer_start_def)
  have "left \<and> cs_received s + cs_skipped s \<le> 16" if "consumer_loop (consumer_start q) = Some (left, s)" for left s
    using consumer_loop_left[OF wf that] consumer_loop_counts[OF wf that] card_ready_slots[OF assms]
    by (simp add: consumer_start_def)
  with consumer_loop_defined[OF wf] show ?thesis
    by (auto simp: consumer_start_def split: option.splits)
qed

lemma consumer_loop_terminates_witness:
  "\<exists>s. consumer_loop (consumer_start (init_queue zero_layout)) = Some (True, s) \<and> cs_received s + cs_skipped s \<le> 16"
proof -
  let ?q = "init_queue zero_layout"
  have "fifo_ok ?q" by (rule init_zero_layout)
  then have "wf_queue ?q" by (rule fifo_okD)
  moreover have "terminated_texts ?q" by code_simp
  ultimately show ?thesis
    using consumer_loop_terminates[of ?q] by (auto split: option.splits)
qed

text \<open>
  C38. The size argument: a decimal number is read back exactly, refused below the size of the
  layout and accepted from there on; without the argument the size of the layout is used. So the
  region is never smaller than the layout it is cast to.
\<close>

theorem queue_size_argument:
  assumes "k < 2 ^ 64"
  shows "queue_size_arg [name, decimal k] = (if k < 4320 then None else Some (of_nat k)) \<and>
    queue_size_arg [name] = Some 4320 \<and> (\<forall>sz. queue_size_arg args = Some sz \<longrightarrow> sizeof_SharedQueueLayout \<le> unat sz)"
  using assms strtoull_decimal[OF assms] queue_size_arg_ge[of args]
  by (auto simp: queue_size_arg_def get_queue_memory_size_eq word_less_nat_alt unat_of_nat Let_def)

theorem queue_size_argument_witness:
  "queue_size_arg [''/q'', decimal 8192] = Some 8192"
  using queue_size_argument[of 8192 "''/q''" "[]"] by simp

text \<open>
  The consumer trusts the sender to terminate its texts: a \<open>TEXT\<close> message of 256 bytes without
  a NUL, which \<^verbatim>\<open>try_push_message\<close> accepts and \<^verbatim>\<open>try_pop_message\<close> delivers, makes
  \<^verbatim>\<open>std::cout << buffer\<close> read past the end of the buffer.
\<close>

lemma unterminated_text_overruns_buffer:
  assumes "fifo_ok q" "contents q = (message_type_code TEXT, d) # ms" "length d = 256" "0 \<notin> set d"
  shows "(\<exists>q' b h. receive TEXT (q, replicate 256 0, \<lparr>msg_type = 0, msg_length = 0\<rparr>) = Some (True, q', b, h)) \<and>
    consumer_iteration (consumer_start q) = None"
  using receive_cons[OF assms(1,2), of "replicate 256 0" TEXT "\<lparr>msg_type = 0, msg_length = 0\<rparr>"] assms(3,4)
  by (auto simp: consumer_iteration_def consumer_start_def c_string_def)

lemma unterminated_text_overruns_buffer_witness:
  "\<exists>q. send (TEXT, replicate 256 65) (init_queue zero_layout) = Some (True, q) \<and>
     (\<exists>q' b h. receive TEXT (q, replicate 256 0, \<lparr>msg_type = 0, msg_length = 0\<rparr>) = Some (True, q', b, h)) \<and>
     consumer_iteration (consumer_start q) = None"
proof -
  obtain q where q: "send (TEXT, replicate 256 65) (init_queue zero_layout) = Some (True, q)" "fifo_ok q"
      "contents q = [(message_type_code TEXT, replicate 256 65)]"
    using send_room[of "init_queue zero_layout" "(TEXT, replicate 256 65)"] init_zero_layout by auto
  with unterminated_text_overruns_buffer[OF q(2,3)] show ?thesis by simp
qed

end
