(* ===== verification/Futex_Latch.thy ===== *)
theory Futex_Latch
  imports Prelude
begin

text \<open>
  The latch of \<^verbatim>\<open>futex/latch.cpp\<close>, built on the futex system call, and the program that uses it:
  some workers that call \<^verbatim>\<open>ArriveAndWait\<close> and a main thread that calls \<^verbatim>\<open>Wait\<close>. The threads
  interleave at their atomic accesses and system calls. The lemmas show that no thread passes
  \<^verbatim>\<open>Wait\<close> before every worker has counted down, also with spurious wake-ups, and that no wake-up
  is lost: every run ends with all threads through.
\<close>

section \<open>The futex and the latch\<close>

datatype latch_event = Finished nat | Woke_up nat | All_finished

record latch_shared =
  m_count :: int
  waiters :: "nat set"                  \<comment> \<open>threads asleep in the futex's queue\<close>
  latch_log :: "latch_event list"       \<comment> \<open>lines printed so far\<close>

text \<open>
  \<^verbatim>\<open>FUTEX_WAIT\<close> compares and goes to sleep in one step; it returns at once if the value differs.
  \<^verbatim>\<open>FUTEX_WAKE\<close> with the largest \<^verbatim>\<open>int\<close> as count wakes every sleeper.
\<close>

definition FutexWait :: "nat \<Rightarrow> int \<Rightarrow> latch_shared \<Rightarrow> bool \<times> latch_shared" where
  "FutexWait i expectedValue g =
     (if m_count g = expectedValue then (True, g\<lparr>waiters := insert i (waiters g)\<rparr>) else (False, g))"

definition FutexWake :: "latch_shared \<Rightarrow> latch_shared" where
  "FutexWake g = g\<lparr>waiters := {}\<rparr>"

datatype latch_pc =
    W_Work                \<comment> \<open>the worker's job and its first line\<close>
  | L_CountDown           \<comment> \<open>\<^verbatim>\<open>m_count.fetch_sub(1)\<close>\<close>
  | L_Wake                \<comment> \<open>\<^verbatim>\<open>FutexWake\<close>\<close>
  | L_Load                \<comment> \<open>\<^verbatim>\<open>m_count.load()\<close> in \<^verbatim>\<open>Wait\<close>\<close>
  | L_FutexWait int       \<comment> \<open>\<^verbatim>\<open>FutexWait(&m_count, current)\<close>\<close>
  | L_Sleep               \<comment> \<open>asleep in the kernel\<close>
  | L_Passed              \<comment> \<open>\<^verbatim>\<open>Wait\<close> has returned\<close>
  | L_Exit

definition CountDown :: "latch_shared \<Rightarrow> latch_pc \<times> latch_shared" where
  "CountDown g =
     (let oldValue = m_count g
      in (if oldValue = 1 then L_Wake else L_Load, g\<lparr>m_count := oldValue - 1\<rparr>))"

text \<open>The actions of thread \<open>i\<close>; the threads below \<open>n\<close> are the workers, thread \<open>n\<close> is \<^verbatim>\<open>main\<close>.\<close>

fun latch_act :: "nat \<Rightarrow> nat \<Rightarrow> latch_pc \<Rightarrow> latch_shared \<Rightarrow> (latch_pc \<times> latch_shared) option" where
  "latch_act n i W_Work g = Some (L_CountDown, g\<lparr>latch_log := latch_log g @ [Finished i]\<rparr>)"
| "latch_act n i L_CountDown g = Some (CountDown g)"
| "latch_act n i L_Wake g = Some (L_Load, FutexWake g)"
| "latch_act n i L_Load g = Some (if m_count g = 0 then L_Passed else L_FutexWait (m_count g), g)"
| "latch_act n i (L_FutexWait current) g =
     (case FutexWait i current g of (sleeps, g') \<Rightarrow> Some (if sleeps then L_Sleep else L_Load, g'))"
| "latch_act n i L_Sleep g = (if i \<in> waiters g then None else Some (L_Load, g))"
| "latch_act n i L_Passed g =
     Some (L_Exit, g\<lparr>latch_log := latch_log g @ [if i < n then Woke_up i else All_finished]\<rparr>)"
| "latch_act n i L_Exit g = None"

definition latch_start :: "nat \<Rightarrow> latch_pc list \<times> latch_shared" where
  "latch_start n = (replicate n W_Work @ [L_Load], \<lparr>m_count = int n, waiters = {}, latch_log = []\<rparr>)"

abbreviation latch_step :: "nat \<Rightarrow> latch_pc list \<times> latch_shared \<Rightarrow> latch_pc list \<times> latch_shared \<Rightarrow> bool" where
  "latch_step n \<equiv> prog_step (latch_act n)"

text \<open>The same with wake-ups no one asked for, which the system call allows.\<close>

inductive latch_step_spurious ::
  "nat \<Rightarrow> latch_pc list \<times> latch_shared \<Rightarrow> latch_pc list \<times> latch_shared \<Rightarrow> bool" for n where
  regular: "latch_step n s t \<Longrightarrow> latch_step_spurious n s t"
| spurious: "i < length ls \<Longrightarrow> ls ! i = L_Sleep \<Longrightarrow>
    latch_step_spurious n (ls, g) (ls[i := L_Load], g\<lparr>waiters := waiters g - {i}\<rparr>)"

section \<open>The invariant\<close>

definition counting :: "latch_pc \<Rightarrow> bool" where
  "counting l \<longleftrightarrow> l = W_Work \<or> l = L_CountDown"

definition is_finished :: "latch_event \<Rightarrow> bool" where
  "is_finished e = (case e of Finished _ \<Rightarrow> True | _ \<Rightarrow> False)"

definition log_ok :: "nat \<Rightarrow> latch_pc list \<Rightarrow> latch_event list \<Rightarrow> bool" where
  "log_ok n ls es \<longleftrightarrow> (\<exists>fs rest. es = fs @ rest \<and> list_all is_finished fs \<and>
     set fs = Finished ` {i. i < n \<and> ls ! i \<noteq> W_Work} \<and> list_all (\<lambda>e. \<not> is_finished e) rest \<and>
     (rest \<noteq> [] \<longrightarrow> (\<forall>i<n. \<not> counting (ls ! i))))"

definition latch_inv :: "nat \<Rightarrow> latch_pc list \<times> latch_shared \<Rightarrow> bool" where
  "latch_inv n s \<longleftrightarrow> (case s of (ls, g) \<Rightarrow>
     length ls = Suc n \<and> \<not> counting (ls ! n) \<and> m_count g = int (length (filter counting ls)) \<and>
     (\<forall>i\<in>waiters g. i < length ls \<and> ls ! i = L_Sleep) \<and>
     (m_count g = 0 \<longrightarrow> waiters g \<noteq> {} \<longrightarrow> (\<exists>i<length ls. ls ! i = L_Wake)) \<and>
     (\<forall>i<length ls. ls ! i \<noteq> L_FutexWait 0 \<and> (m_count g \<noteq> 0 \<longrightarrow> ls ! i \<noteq> L_Passed \<and> ls ! i \<noteq> L_Exit)) \<and>
     log_ok n ls (latch_log g))"

lemma latch_invD:
  assumes "latch_inv n (ls, g)"
  shows "length ls = Suc n" "\<not> counting (ls ! n)" "m_count g = int (length (filter counting ls))"
    "\<And>i. i \<in> waiters g \<Longrightarrow> i < length ls \<and> ls ! i = L_Sleep"
    "m_count g = 0 \<Longrightarrow> waiters g \<noteq> {} \<Longrightarrow> \<exists>i<length ls. ls ! i = L_Wake"
    "\<And>i. i < length ls \<Longrightarrow> ls ! i \<noteq> L_FutexWait 0"
    "\<And>i. i < length ls \<Longrightarrow> m_count g \<noteq> 0 \<Longrightarrow> ls ! i \<noteq> L_Passed \<and> ls ! i \<noteq> L_Exit"
    "log_ok n ls (latch_log g)"
  using assms by (auto simp: latch_inv_def)

lemma latch_invI:
  assumes "length ls = Suc n" "\<not> counting (ls ! n)" "m_count g = int (length (filter counting ls))"
    "\<And>i. i \<in> waiters g \<Longrightarrow> i < length ls \<and> ls ! i = L_Sleep"
    "m_count g = 0 \<Longrightarrow> waiters g \<noteq> {} \<Longrightarrow> \<exists>i<length ls. ls ! i = L_Wake"
    "\<And>i. i < length ls \<Longrightarrow> ls ! i \<noteq> L_FutexWait 0"
    "\<And>i. i < length ls \<Longrightarrow> m_count g \<noteq> 0 \<Longrightarrow> ls ! i \<noteq> L_Passed \<and> ls ! i \<noteq> L_Exit"
    "log_ok n ls (latch_log g)"
  shows "latch_inv n (ls, g)"
  using assms by (simp add: latch_inv_def)

lemma log_ok_update:
  assumes "log_ok n ls es" "counting (ls ! i) \<or> \<not> counting l'" "(ls ! i = W_Work) = (l' = W_Work)" "i < length ls"
  shows "log_ok n (ls[i := l']) es"
proof -
  have "{j. j < n \<and> ls[i := l'] ! j \<noteq> W_Work} = {j. j < n \<and> ls ! j \<noteq> W_Work}"
    using assms(3,4) by (auto simp: nth_list_update)
  moreover have "\<not> counting (ls[i := l'] ! j)" if "\<not> counting (ls ! j)" for j
    using that assms(2,4) by (cases "j = i") auto
  ultimately show ?thesis using assms(1) unfolding log_ok_def by metis
qed

lemma log_ok_finished:
  assumes "log_ok n ls es" "i < n" "ls ! i = W_Work" "i < length ls"
  shows "log_ok n (ls[i := L_CountDown]) (es @ [Finished i])"
proof -
  from assms obtain fs rest where f: "es = fs @ rest" "list_all is_finished fs"
    "set fs = Finished ` {i. i < n \<and> ls ! i \<noteq> W_Work}" "rest \<noteq> [] \<longrightarrow> (\<forall>i<n. \<not> counting (ls ! i))"
    unfolding log_ok_def by blast
  have "rest = []" using f(4) assms(2,3) by (auto simp: counting_def)
  moreover have "{j. j < n \<and> ls[i := L_CountDown] ! j \<noteq> W_Work} = insert i {j. j < n \<and> ls ! j \<noteq> W_Work}"
    using assms by (auto simp: nth_list_update)
  ultimately show ?thesis
    using f by (intro log_ok_def[THEN iffD2] exI[of _ "fs @ [Finished i]"] exI[of _ "[]"])
      (simp add: is_finished_def)
qed

lemma log_ok_passed:
  assumes "log_ok n ls es" "\<not> is_finished e" "\<And>i. i < n \<Longrightarrow> \<not> counting (ls ! i)"
  shows "log_ok n ls (es @ [e])"
proof -
  from assms(1) obtain fs rest where f: "es = fs @ rest" "list_all is_finished fs"
    "set fs = Finished ` {i. i < n \<and> ls ! i \<noteq> W_Work}" "list_all (\<lambda>e. \<not> is_finished e) rest"
    unfolding log_ok_def by blast
  then show ?thesis
    using assms(2,3) by (intro log_ok_def[THEN iffD2] exI[of _ fs] exI[of _ "rest @ [e]"]) simp
qed

text \<open>A step of thread \<open>i\<close> that neither counts nor prints.\<close>

lemma latch_inv_quiet:
  assumes inv: "latch_inv n (ls, g)" and i: "i < length ls" and nc: "\<not> counting (ls ! i)" "\<not> counting l'"
    and g': "m_count g' = m_count g" "latch_log g' = latch_log g"
    and w: "waiters g' = {} \<or> (waiters g' \<subseteq> insert i (waiters g) \<and> ls ! i \<noteq> L_Wake \<and>
      (i \<in> waiters g' \<longrightarrow> l' = L_Sleep \<and> m_count g \<noteq> 0))"
    and l': "l' \<noteq> L_FutexWait 0" "l' = L_Passed \<or> l' = L_Exit \<Longrightarrow> m_count g = 0"
  shows "latch_inv n (ls[i := l'], g')"
proof -
  note D = latch_invD[OF inv]
  have c: "length (filter counting (ls[i := l'])) = length (filter counting ls)"
    using length_filter_update[OF i, of counting l'] nc by simp
  have log: "log_ok n (ls[i := l']) (latch_log g')"
    using log_ok_update[OF D(8) _ _ i, of l'] nc g' by (auto simp: counting_def)
  have wake: "\<exists>j<length ls. ls[i := l'] ! j = L_Wake" if "m_count g' = 0" "waiters g' \<noteq> {}"
  proof -
    from that w g' have "waiters g \<noteq> {}" "ls ! i \<noteq> L_Wake" by auto
    with D(5) that g' obtain j where "j < length ls" "ls ! j = L_Wake" "j \<noteq> i" by auto
    then show ?thesis by (intro exI[of _ j]) simp
  qed
  have "j < length ls \<and> ls[i := l'] ! j = L_Sleep" if "j \<in> waiters g'" for j
    using that w D(4)[of j] i by (cases "j = i") auto
  then show ?thesis
    using D nc c log wake g' l' i by (auto simp: latch_inv_def nth_list_update)
qed

lemma latch_inv_start: "latch_inv n (latch_start n)"
  by (auto simp: latch_inv_def latch_start_def counting_def nth_append log_ok_def less_Suc_eq)

lemma latch_inv_work:
  assumes inv: "latch_inv n (ls, g)" and i: "i < length ls" "ls ! i = W_Work"
  shows "latch_inv n (ls[i := L_CountDown], g\<lparr>latch_log := latch_log g @ [Finished i]\<rparr>)"
proof (rule latch_invI)
  note D = latch_invD[OF inv]
  have n: "i < n" using i D(1,2) by (cases "i = n") (auto simp: counting_def)
  show "length (ls[i := L_CountDown]) = Suc n" "\<not> counting (ls[i := L_CountDown] ! n)" using D(1,2) n by auto
  show "log_ok n (ls[i := L_CountDown]) (latch_log (g\<lparr>latch_log := latch_log g @ [Finished i]\<rparr>))"
    using log_ok_finished[OF D(8) n i(2,1)] by simp
  show "m_count (g\<lparr>latch_log := latch_log g @ [Finished i]\<rparr>) = int (length (filter counting (ls[i := L_CountDown])))"
    using length_filter_update[OF i(1), of counting L_CountDown] i(2) D(3) by (simp add: counting_def)
  show "\<exists>j<length (ls[i := L_CountDown]). ls[i := L_CountDown] ! j = L_Wake"
    if "m_count (g\<lparr>latch_log := latch_log g @ [Finished i]\<rparr>) = 0" "waiters (g\<lparr>latch_log := latch_log g @ [Finished i]\<rparr>) \<noteq> {}"
  proof -
    from D(5) that obtain j where "j < length ls" "ls ! j = L_Wake" by auto
    with i show ?thesis by (intro exI[of _ j]) (auto simp: nth_list_update)
  qed
qed (use latch_invD[OF inv] i in \<open>auto simp: nth_list_update\<close>)

lemma latch_inv_count:
  assumes inv: "latch_inv n (ls, g)" and i: "i < length ls" "ls ! i = L_CountDown"
    and l': "l' = (if m_count g = 1 then L_Wake else L_Load)"
  shows "latch_inv n (ls[i := l'], g\<lparr>m_count := m_count g - 1\<rparr>)"
proof (rule latch_invI)
  note D = latch_invD[OF inv]
  have n: "i < n" using i D(1,2) by (cases "i = n") (auto simp: counting_def)
  have c: "length (filter counting ls) = Suc (length (filter counting (ls[i := l'])))"
    using length_filter_update[OF i(1), of counting l'] i(2) l' by (simp add: counting_def)
  then have pos: "m_count g \<noteq> 0" using D(3) by simp
  show "length (ls[i := l']) = Suc n" "\<not> counting (ls[i := l'] ! n)" using D(1,2) n by auto
  show "m_count (g\<lparr>m_count := m_count g - 1\<rparr>) = int (length (filter counting (ls[i := l'])))"
    using c D(3) by simp
  show "log_ok n (ls[i := l']) (latch_log (g\<lparr>m_count := m_count g - 1\<rparr>))"
    using log_ok_update[OF D(8) _ _ i(1), of l'] i(2) l' by (auto simp: counting_def)
  show "\<exists>j<length (ls[i := l']). ls[i := l'] ! j = L_Wake" if "m_count (g\<lparr>m_count := m_count g - 1\<rparr>) = 0"
    using that i l' by (intro exI[of _ i]) simp
  show "ls[i := l'] ! j \<noteq> L_FutexWait 0" if "j < length (ls[i := l'])" for j
    using D(6)[of j] that i l' by (cases "j = i") auto
  show "ls[i := l'] ! j \<noteq> L_Passed \<and> ls[i := l'] ! j \<noteq> L_Exit" if "j < length (ls[i := l'])" for j
    using D(7)[OF _ pos, of j] that i l' by (cases "j = i") auto
qed (use latch_invD(4)[OF inv] i in \<open>auto simp: nth_list_update\<close>)

lemma latch_inv_act:
  assumes inv: "latch_inv n (ls, g)" and i: "i < length ls" and act: "latch_act n i (ls ! i) g = Some (l', g')"
  shows "latch_inv n (ls[i := l'], g')"
proof (cases "ls ! i")
  case W_Work
  with act latch_inv_work[OF inv i] show ?thesis by simp
next
  case L_CountDown
  with act latch_inv_count[OF inv i] show ?thesis by (simp add: CountDown_def Let_def)
next
  case L_Wake
  with act show ?thesis by (intro latch_inv_quiet[OF inv i]) (auto simp: FutexWake_def counting_def)
next
  case L_Load
  with act latch_invD(4)[OF inv, of i] show ?thesis
    by (intro latch_inv_quiet[OF inv i]) (auto simp: counting_def split: if_splits)
next
  case (L_FutexWait v)
  with act latch_invD(4)[OF inv, of i] latch_invD(6)[OF inv i] show ?thesis
    by (intro latch_inv_quiet[OF inv i]) (auto simp: FutexWait_def counting_def split: if_splits)
next
  case L_Sleep
  with act show ?thesis
    by (intro latch_inv_quiet[OF inv i]) (auto simp: counting_def split: if_splits)
next
  case L_Passed
  note D = latch_invD[OF inv]
  have z: "m_count g = 0" using D(7)[OF i] L_Passed by auto
  with D(3) have nc: "\<not> counting (ls ! j)" if "j < length ls" for j
    using that length_filter_0[of counting ls] by simp
  have "latch_inv n (ls[i := l'], g)"
    using L_Passed act z D(4)[of i] by (intro latch_inv_quiet[OF inv i]) (auto simp: counting_def)
  note D' = latch_invD[OF this]
  have "\<not> counting (ls[i := l'] ! j)" if "j < n" for j
    using nc[of j] that D(1) L_Passed act by (cases "j = i") (auto simp: counting_def)
  then have "log_ok n (ls[i := l']) (latch_log g @ [if i < n then Woke_up i else All_finished])"
    by (intro log_ok_passed[OF D'(8)]) (auto simp: is_finished_def)
  with \<open>latch_inv n (ls[i := l'], g)\<close> L_Passed act show ?thesis by (auto simp: latch_inv_def)
next
  case L_Exit
  with act show ?thesis by simp
qed

lemma latch_inv_step: "latch_inv n s \<Longrightarrow> latch_step n s t \<Longrightarrow> latch_inv n t"
  by (cases s) (auto elim!: prog_stepE intro: latch_inv_act)

lemma latch_inv_step_spurious: "latch_inv n s \<Longrightarrow> latch_step_spurious n s t \<Longrightarrow> latch_inv n t"
proof (erule latch_step_spurious.cases, goal_cases)
  case (2 i ls g)
  with latch_inv_quiet[of n ls g i L_Load "g\<lparr>waiters := waiters g - {i}\<rparr>"] show ?case
    by (auto simp: counting_def)
qed (use latch_inv_step in auto)

section \<open>Every run ends\<close>

text \<open>
  What a thread of \<open>N\<close> has left to do. A stale \<^verbatim>\<open>FutexWait\<close> and a sleeper that has been woken go
  round the loop of \<^verbatim>\<open>Wait\<close> once more, which the thread that caused it has paid for in advance.
\<close>

definition latch_work :: "nat \<Rightarrow> latch_shared \<Rightarrow> nat \<Rightarrow> latch_pc \<Rightarrow> nat" where
  "latch_work N g i l =
     (case l of W_Work \<Rightarrow> 5 * N + 8 | L_CountDown \<Rightarrow> 5 * N + 7 | L_Wake \<Rightarrow> 3 * N + 6 | L_Load \<Rightarrow> 4
      | L_FutexWait v \<Rightarrow> if v = m_count g then 3 else 5
      | L_Sleep \<Rightarrow> if i \<in> waiters g then 2 else 5
      | L_Passed \<Rightarrow> 1 | L_Exit \<Rightarrow> 0)"

definition latch_rank :: "latch_pc list \<times> latch_shared \<Rightarrow> nat" where
  "latch_rank s = (\<Sum>i<length (fst s). latch_work (length (fst s)) (snd s) i (fst s ! i))"

definition latch_done :: "latch_pc list \<times> latch_shared \<Rightarrow> bool" where
  "latch_done s \<longleftrightarrow> (\<forall>i<length (fst s). fst s ! i = L_Exit)"

text \<open>What an action may add to the work of each other thread.\<close>

definition latch_disturbs :: "latch_pc \<Rightarrow> nat" where
  "latch_disturbs l = (case l of L_CountDown \<Rightarrow> 2 | L_Wake \<Rightarrow> 3 | _ \<Rightarrow> 0)"

lemma latch_work_other:
  assumes "latch_act n i l g = Some (l', g')" "j \<noteq> i"
  shows "latch_work N g' j k \<le> latch_work N g j k + latch_disturbs l"
  using assms by (cases l; cases k)
    (auto simp: latch_work_def latch_disturbs_def CountDown_def FutexWake_def FutexWait_def Let_def split: if_splits)

lemma latch_work_own:
  assumes "latch_act n i l g = Some (l', g')" "l \<noteq> L_FutexWait 0"
  shows "latch_work N g' i l' + latch_disturbs l * N < latch_work N g i l"
  using assms by (cases l)
    (auto simp: latch_work_def latch_disturbs_def CountDown_def FutexWake_def FutexWait_def Let_def split: if_splits)

lemma latch_rank_step:
  assumes "latch_inv n s" "latch_step n s t"
  shows "latch_rank t < latch_rank s"
proof -
  obtain ls g where s: "s = (ls, g)" by (cases s)
  with assms(2) obtain i l' g' where i: "i < length ls" and act: "latch_act n i (ls ! i) g = Some (l', g')"
    and t: "t = (ls[i := l'], g')" by (auto elim: prog_stepE)
  let ?N = "length ls"
  have "(\<Sum>j<?N. latch_work ?N g' j (ls[i := l'] ! j)) < (\<Sum>j<?N. latch_work ?N g j (ls ! j))"
  proof (rule sum_step_less[OF i])
    show "latch_work ?N g' j (ls[i := l'] ! j) \<le> latch_work ?N g j (ls ! j) + latch_disturbs (ls ! i)"
      if "j < ?N" "j \<noteq> i" for j
      using latch_work_other[OF act that(2)] that(2) by simp
    show "latch_work ?N g' i (ls[i := l'] ! i) + latch_disturbs (ls ! i) * ?N < latch_work ?N g i (ls ! i)"
      using latch_work_own[OF act] latch_invD(6)[of n ls g i] assms(1) s i by simp
  qed
  then show ?thesis by (simp add: latch_rank_def s t)
qed

lemma latch_progress:
  assumes inv: "latch_inv n s" and nd: "\<not> latch_done s"
  shows "\<exists>t. latch_step n s t"
proof (rule ccontr)
  obtain ls g where s: "s = (ls, g)" by (cases s)
  note D = latch_invD[OF inv[unfolded s]]
  assume "\<nexists>t. latch_step n s t"
  then have "stuck (latch_step n) (ls, g)" by (simp add: stuck_def s)
  then have blocked: "latch_act n i (ls ! i) g = None" if "i < length ls" for i
    using that by (simp add: stuck_prog_step)
  have asleep: "ls ! i = L_Exit \<or> ls ! i = L_Sleep \<and> i \<in> waiters g" if "i < length ls" for i
    using blocked[OF that] by (cases "ls ! i") (auto split: if_splits prod.splits)
  from nd s obtain i where i: "i < length ls" "ls ! i \<noteq> L_Exit" by (auto simp: latch_done_def)
  have "length (filter counting ls) = 0"
    unfolding length_filter_0 using asleep by (force simp: counting_def)
  then have "m_count g = 0" using D(3) by simp
  with D(5) asleep[OF i(1)] i(2) obtain j where "j < length ls" "ls ! j = L_Wake" by auto
  with asleep[of j] show False by auto
qed

interpretation futex_latch: terminating_steps "\<lambda>s. s = latch_start n" "latch_step n" "latch_inv n" latch_done latch_rank
  for n
  by unfold_locales (blast intro: latch_inv_start latch_inv_step latch_rank_step latch_progress)+

interpretation futex_latch_spurious: step_invariant "\<lambda>s. s = latch_start n" "latch_step_spurious n" "latch_inv n"
  for n
  by unfold_locales (blast intro: latch_inv_start latch_inv_step_spurious)+

section \<open>Properties\<close>

text \<open>
  C22. Safety of the futex latch, under every interleaving and with spurious wake-ups: as long as a
  worker has not counted down, no thread has returned from \<^verbatim>\<open>Wait\<close>. What is printed follows: first
  only the workers' own lines, and the first line of any other kind comes after all of them.
\<close>

theorem latch_opens_after_all:
  assumes "(latch_step_spurious n)\<^sup>*\<^sup>* (latch_start n) (ls, g)"
  shows "(\<forall>i<n. counting (ls ! i) \<longrightarrow> (\<forall>j\<le>n. ls ! j \<noteq> L_Passed \<and> ls ! j \<noteq> L_Exit)) \<and>
    (\<exists>fs rest. latch_log g = fs @ rest \<and> list_all is_finished fs \<and> list_all (\<lambda>e. \<not> is_finished e) rest \<and>
      (rest \<noteq> [] \<longrightarrow> set fs = Finished ` {..<n}))"
proof -
  note D = latch_invD[OF futex_latch_spurious.inv_reachable[OF refl assms]]
  have "m_count g \<noteq> 0" if "i < n" "counting (ls ! i)" for i
    using that D(1,3) length_filter_0[of counting ls] by auto
  then have "\<forall>i<n. counting (ls ! i) \<longrightarrow> (\<forall>j\<le>n. ls ! j \<noteq> L_Passed \<and> ls ! j \<noteq> L_Exit)"
    using D(1,7) by (metis less_Suc_eq_le)
  moreover from D(8) obtain fs rest where f: "latch_log g = fs @ rest" "list_all is_finished fs"
    "set fs = Finished ` {i. i < n \<and> ls ! i \<noteq> W_Work}" "list_all (\<lambda>e. \<not> is_finished e) rest"
    "rest \<noteq> [] \<longrightarrow> (\<forall>i<n. \<not> counting (ls ! i))" unfolding log_ok_def by blast
  have "set fs = Finished ` {..<n}" if "rest \<noteq> []"
    using f(3,5) that by (auto simp: counting_def)
  ultimately show ?thesis using f(1,2,4) by blast
qed

text \<open>A run of three workers in which the second one sleeps and is woken by the last one.\<close>

definition latch_example :: "nat list" where
  "latch_example = [1, 1, 1, 1, 0, 0, 2, 2, 2, 2, 2, 1, 1, 1]"

theorem latch_opens_after_all_witness:
  "\<exists>ls g. run_schedule (latch_act 3) latch_example (latch_start 3) = Some (ls, g) \<and>
     latch_log g = [Finished 1, Finished 0, Finished 2] @ [Woke_up 2, Woke_up 1] \<and>
     (\<exists>fs rest. latch_log g = fs @ rest \<and> list_all is_finished fs \<and> list_all (\<lambda>e. \<not> is_finished e) rest \<and> rest \<noteq> [])"
proof -
  obtain ls g where r: "run_schedule (latch_act 3) latch_example (latch_start 3) = Some (ls, g)"
    and l: "latch_log g = [Finished 1, Finished 0, Finished 2] @ [Woke_up 2, Woke_up 1]"
    by (simp add: latch_example_def latch_start_def numeral_eq_Suc CountDown_def FutexWait_def FutexWake_def)
  have "(latch_step_spurious 3)\<^sup>*\<^sup>* (latch_start 3) (ls, g)"
    using run_schedule_reachable[OF r] by (rule rtranclp_mono[THEN predicate2D, rotated]) (auto intro: regular)
  from latch_opens_after_all[OF this] obtain fs rest where f: "latch_log g = fs @ rest" "list_all is_finished fs"
    "list_all (\<lambda>e. \<not> is_finished e) rest" by blast
  moreover have "rest \<noteq> []" using f(1,2) l by (auto simp: is_finished_def)
  ultimately show ?thesis using r l by blast
qed

text \<open>
  C5. No wake-up is lost: from every reachable state, every run that goes on long enough ends, no
  run is longer than a bound that depends on the state, and a state in which nothing can move any
  more is one where the main thread and all workers are through.
\<close>

theorem latch_no_lost_wakeup:
  assumes "(latch_step n)\<^sup>*\<^sup>* (latch_start n) s"
  shows "(stuck (latch_step n) s \<longrightarrow> latch_done s) \<and> (\<exists>t. (latch_step n)\<^sup>*\<^sup>* s t \<and> latch_done t) \<and>
    (\<forall>k t. (latch_step n ^^ k) s t \<longrightarrow> k \<le> latch_rank s)"
  using futex_latch.stuck_final[OF refl assms] futex_latch.reaches_final[OF refl assms]
    futex_latch.run_bounded[OF futex_latch.inv_reachable[OF refl assms]] by fastforce

theorem latch_no_lost_wakeup_witness:
  "\<exists>s. run_schedule (latch_act 3) [1, 1, 1, 1] (latch_start 3) = Some s \<and>
     (\<exists>t. (latch_step 3)\<^sup>*\<^sup>* s t \<and> latch_done t)"
proof -
  obtain s where r: "run_schedule (latch_act 3) [1, 1, 1, 1] (latch_start 3) = Some s"
    by (simp add: latch_start_def numeral_eq_Suc CountDown_def FutexWait_def)
  from latch_no_lost_wakeup[OF run_schedule_reachable[OF r]] r show ?thesis by blast
qed

end
