(* ===== verification/Stacks.thy ===== *)
theory Stacks
  imports Prelude
begin

text \<open>
  The three stacks of \<^verbatim>\<open>lock_free/spsc_stack.cpp\<close> used by one thread: \<^verbatim>\<open>SPSCStack\<close> over
  \<^verbatim>\<open>std::stack\<close>, \<^verbatim>\<open>LockFreeSPSCStack\<close> as linked nodes in a heap, and \<^verbatim>\<open>BufferedLockFreeSPSCStack\<close>
  as an array with a head counter (also in \<^verbatim>\<open>ipc/shm_atomics.cpp\<close>). All three meet one interface of
  a bounded or unbounded stack, from which last-in-first-out order is proved once. An operation
  run alone takes its compare-and-exchange loop once.
\<close>

section \<open>The interface\<close>

text \<open>
  \<open>push\<close> tells whether the value was accepted, \<open>pop\<close> returns the top or nothing, \<open>full\<close> bounds the
  stack. \<open>None\<close> around a result is undefined behaviour.
\<close>

fun push_all :: "('a \<Rightarrow> 's \<Rightarrow> (bool \<times> 's) option) \<Rightarrow> 'a list \<Rightarrow> 's \<Rightarrow> (bool list \<times> 's) option" where
  "push_all psh [] s = Some ([], s)"
| "push_all psh (x # xs) s =
     (case psh x s of None \<Rightarrow> None
      | Some (b, s1) \<Rightarrow> map_option (\<lambda>(bs, s2). (b # bs, s2)) (push_all psh xs s1))"

fun pop_times :: "('s \<Rightarrow> ('a option \<times> 's) option) \<Rightarrow> nat \<Rightarrow> 's \<Rightarrow> ('a option list \<times> 's) option" where
  "pop_times pp 0 s = Some ([], s)"
| "pop_times pp (Suc n) s =
     (case pp s of None \<Rightarrow> None
      | Some (r, s1) \<Rightarrow> map_option (\<lambda>(rs, s2). (r # rs, s2)) (pop_times pp n s1))"

locale stack_ops =
  fixes psh :: "'a \<Rightarrow> 's \<Rightarrow> (bool \<times> 's) option"
    and pp :: "'s \<Rightarrow> ('a option \<times> 's) option"
    and stack_of :: "'s \<Rightarrow> 'a list"
    and stack_inv :: "'s \<Rightarrow> bool"
    and full :: "nat \<Rightarrow> bool"
  assumes psh_room: "stack_inv s \<Longrightarrow> \<not> full (length (stack_of s)) \<Longrightarrow>
      \<exists>s'. psh x s = Some (True, s') \<and> stack_inv s' \<and> stack_of s' = x # stack_of s"
    and psh_full: "stack_inv s \<Longrightarrow> full (length (stack_of s)) \<Longrightarrow> psh x s = Some (False, s)"
    and pp_top: "stack_inv s \<Longrightarrow> stack_of s = x # xs \<Longrightarrow>
      \<exists>s'. pp s = Some (Some x, s') \<and> stack_inv s' \<and> stack_of s' = xs"
    and pp_empty: "stack_inv s \<Longrightarrow> stack_of s = [] \<Longrightarrow> pp s = Some (None, s)"
begin

lemma push_all_room:
  "stack_inv s \<Longrightarrow> \<forall>k<length xs. \<not> full (length (stack_of s) + k) \<Longrightarrow>
   \<exists>s'. push_all psh xs s = Some (replicate (length xs) True, s') \<and> stack_inv s' \<and> stack_of s' = rev xs @ stack_of s"
proof (induction xs arbitrary: s)
  case (Cons x xs)
  from Cons.prems have "\<not> full (length (stack_of s))" by (metis add.right_neutral length_Cons zero_less_Suc)
  with psh_room[OF Cons.prems(1)] obtain s1 where
    s1: "psh x s = Some (True, s1)" "stack_inv s1" "stack_of s1 = x # stack_of s" by blast
  have "\<forall>k<length xs. \<not> full (length (stack_of s1) + k)" using Cons.prems(2) s1(3) by auto
  with Cons.IH[OF s1(2)] s1 show ?case by auto
qed simp

lemma pop_times_all:
  "stack_inv s \<Longrightarrow> n \<le> length (stack_of s) \<Longrightarrow>
   \<exists>s'. pop_times pp n s = Some (map Some (take n (stack_of s)), s') \<and> stack_inv s' \<and> stack_of s' = drop n (stack_of s)"
proof (induction n arbitrary: s)
  case (Suc n)
  then obtain x xs where c: "stack_of s = x # xs" by (cases "stack_of s") auto
  with pp_top[OF Suc.prems(1)] obtain s1 where "pp s = Some (Some x, s1)" "stack_inv s1" "stack_of s1 = xs" by blast
  with Suc.IH[of s1] Suc.prems c show ?case by auto
qed simp

text \<open>What was pushed comes back in reverse order, and the stack below is untouched.\<close>

lemma last_in_first_out:
  assumes "stack_inv s" "\<forall>k<length xs. \<not> full (length (stack_of s) + k)"
  shows "\<exists>s1 s2. push_all psh xs s = Some (replicate (length xs) True, s1) \<and>
    pop_times pp (length xs) s1 = Some (map Some (rev xs), s2) \<and> stack_inv s2 \<and> stack_of s2 = stack_of s"
proof -
  from push_all_room[OF assms] obtain s1 where
    s1: "push_all psh xs s = Some (replicate (length xs) True, s1)" "stack_inv s1" "stack_of s1 = rev xs @ stack_of s"
    by blast
  with pop_times_all[OF s1(2), of "length xs"] show ?thesis by auto
qed

end

section \<open>The stack under a mutex\<close>

type_synonym spsc_stack = "int list"

definition SPSCStack_Push :: "int \<Rightarrow> spsc_stack \<Rightarrow> (bool \<times> spsc_stack) option" where
  "SPSCStack_Push v s = Some (True, v # s)"

definition SPSCStack_Pop :: "spsc_stack \<Rightarrow> (int option \<times> spsc_stack) option" where
  "SPSCStack_Pop s = Some (if s = [] then (None, s) else (Some (hd s), tl s))"

interpretation spsc: stack_ops SPSCStack_Push SPSCStack_Pop "\<lambda>s. s" "\<lambda>_. True" "\<lambda>_. False"
  by unfold_locales (auto simp: SPSCStack_Push_def SPSCStack_Pop_def)

section \<open>Linked nodes\<close>

text \<open>A heap of nodes; \<open>None\<close> as a pointer is \<^verbatim>\<open>nullptr\<close>, an address without a node is not allocated.\<close>

record stack_node =
  node_data :: int
  node_next :: "nat option"

type_synonym node_heap = "nat \<Rightarrow> stack_node option"

record lf_stack =
  lf_head :: "nat option"
  lf_heap :: node_heap
  lf_next_address :: nat         \<comment> \<open>what \<^verbatim>\<open>new\<close> returns\<close>

text \<open>The addresses from a pointer on, following \<^verbatim>\<open>next\<close>.\<close>

inductive chain :: "node_heap \<Rightarrow> nat option \<Rightarrow> nat list \<Rightarrow> bool" for h where
  chain_nil: "chain h None []"
| chain_node: "h a = Some n \<Longrightarrow> chain h (node_next n) as \<Longrightarrow> chain h (Some a) (a # as)"

inductive_simps chain_Nil [simp]: "chain h p []"
inductive_simps chain_Cons [simp]: "chain h p (a # as)"
inductive_simps chain_None [simp]: "chain h None as"

definition data_of :: "node_heap \<Rightarrow> nat \<Rightarrow> int" where
  "data_of h a = (case h a of None \<Rightarrow> 0 | Some n \<Rightarrow> node_data n)"

lemma chain_unique: "chain h p as \<Longrightarrow> chain h p bs \<Longrightarrow> as = bs"
proof (induction arbitrary: bs rule: chain.induct)
  case (chain_node a n as)
  from chain_node.prems chain_node.hyps(1) obtain cs where "bs = a # cs" "chain h (node_next n) cs"
    by (cases bs) auto
  with chain_node.IH show ?case by simp
qed simp

lemma chain_allocated: "chain h p as \<Longrightarrow> a \<in> set as \<Longrightarrow> h a \<noteq> None"
  by (induction rule: chain.induct) auto

lemma chain_update: "chain h p as \<Longrightarrow> a \<notin> set as \<Longrightarrow> chain (h(a := x)) p as"
  by (induction rule: chain.induct) auto

lemma chain_suffix: "chain h p (as @ a # bs) \<Longrightarrow> chain h (Some a) (a # bs)"
  by (induction as arbitrary: p) auto

lemma chain_distinct: "chain h p as \<Longrightarrow> distinct as"
proof (induction rule: chain.induct)
  case (chain_node a n as)
  have "a \<notin> set as"
  proof
    assume "a \<in> set as"
    then obtain xs ys where as: "as = xs @ a # ys" by (meson split_list)
    with chain_suffix chain_node.hyps(2) have "chain h (Some a) (a # ys)" by blast
    moreover have "chain h (Some a) (a # as)" using chain_node.hyps by (simp add: chain.intros)
    ultimately have "a # ys = a # as" by (rule chain_unique)
    with as show False by simp
  qed
  with chain_node.IH show ?case by simp
qed simp

lemma map_data_update: "a \<notin> set as \<Longrightarrow> map (data_of (h(a := x))) as = map (data_of h) as"
  by (auto simp: data_of_def)

subsection \<open>The operations of one thread\<close>

definition LockFreeSPSCStack_Push :: "int \<Rightarrow> lf_stack \<Rightarrow> (bool \<times> lf_stack) option" where
  "LockFreeSPSCStack_Push v s =
     (let newHead = lf_next_address s in
      Some (True, s\<lparr>lf_head := Some newHead,
        lf_heap := (lf_heap s)(newHead := Some \<lparr>node_data = v, node_next = lf_head s\<rparr>),
        lf_next_address := Suc newHead\<rparr>))"

definition LockFreeSPSCStack_Pop :: "lf_stack \<Rightarrow> (int option \<times> lf_stack) option" where
  "LockFreeSPSCStack_Pop s =
     (case lf_head s of None \<Rightarrow> Some (None, s)
      | Some oldHead \<Rightarrow>
          (case lf_heap s oldHead of None \<Rightarrow> None
           | Some n \<Rightarrow> Some (Some (node_data n),
               s\<lparr>lf_head := node_next n, lf_heap := (lf_heap s)(oldHead := None)\<rparr>)))"

text \<open>The destructor's loop; \<open>None\<close> if it follows a dangling pointer or never ends.\<close>

partial_function (option) free_nodes :: "nat option \<Rightarrow> node_heap \<Rightarrow> node_heap option" where
  "free_nodes head h =
     (case head of None \<Rightarrow> Some h
      | Some a \<Rightarrow> (case h a of None \<Rightarrow> None | Some n \<Rightarrow> free_nodes (node_next n) (h(a := None))))"

definition LockFreeSPSCStack_destroy :: "lf_stack \<Rightarrow> lf_stack option" where
  "LockFreeSPSCStack_destroy s =
     map_option (\<lambda>h. s\<lparr>lf_head := None, lf_heap := h\<rparr>) (free_nodes (lf_head s) (lf_heap s))"

text \<open>The values from the top down, reading at most as many nodes as were ever allocated.\<close>

fun walk :: "nat \<Rightarrow> node_heap \<Rightarrow> nat option \<Rightarrow> int list" where
  "walk (Suc k) h (Some a) = (case h a of None \<Rightarrow> [] | Some n \<Rightarrow> node_data n # walk k h (node_next n))"
| "walk _ _ _ = []"

definition lf_contents :: "lf_stack \<Rightarrow> int list" where
  "lf_contents s = walk (lf_next_address s) (lf_heap s) (lf_head s)"

text \<open>The nodes of the stack are all the allocated nodes.\<close>

definition lf_inv :: "lf_stack \<Rightarrow> bool" where
  "lf_inv s \<longleftrightarrow> (\<exists>as. chain (lf_heap s) (lf_head s) as \<and> dom (lf_heap s) = set as \<and>
     set as \<subseteq> {..<lf_next_address s})"

lemma walk_chain: "chain h p as \<Longrightarrow> length as \<le> k \<Longrightarrow> walk k h p = map (data_of h) as"
proof (induction arbitrary: k rule: chain.induct)
  case (chain_node a n as)
  then obtain k' where "k = Suc k'" by (cases k) auto
  with chain_node show ?case by (simp add: data_of_def)
qed simp

lemma lf_contents_chain:
  assumes "chain (lf_heap s) (lf_head s) as" "set as \<subseteq> {..<lf_next_address s}"
  shows "lf_contents s = map (data_of (lf_heap s)) as"
proof -
  have "length as \<le> lf_next_address s"
    using card_mono[OF _ assms(2)] distinct_card[OF chain_distinct[OF assms(1)]] by simp
  with walk_chain[OF assms(1)] show ?thesis by (simp add: lf_contents_def)
qed

lemma lf_invE:
  assumes "lf_inv s"
  obtains as where "chain (lf_heap s) (lf_head s) as" "dom (lf_heap s) = set as"
    "set as \<subseteq> {..<lf_next_address s}" "lf_contents s = map (data_of (lf_heap s)) as"
  using assms lf_contents_chain by (auto simp: lf_inv_def)

lemma lf_push:
  assumes "lf_inv s"
  shows "\<exists>s'. LockFreeSPSCStack_Push v s = Some (True, s') \<and> lf_inv s' \<and> lf_contents s' = v # lf_contents s"
proof -
  from assms obtain as where as: "chain (lf_heap s) (lf_head s) as" "dom (lf_heap s) = set as"
    "set as \<subseteq> {..<lf_next_address s}" "lf_contents s = map (data_of (lf_heap s)) as" by (rule lf_invE)
  let ?a = "lf_next_address s"
  let ?h = "(lf_heap s)(?a := Some \<lparr>node_data = v, node_next = lf_head s\<rparr>)"
  let ?s = "s\<lparr>lf_head := Some ?a, lf_heap := ?h, lf_next_address := Suc ?a\<rparr>"
  have new: "?a \<notin> set as" using as(3) by auto
  have c: "chain (lf_heap ?s) (lf_head ?s) (?a # as)" using chain_update[OF as(1) new] by simp
  have sub: "set (?a # as) \<subseteq> {..<lf_next_address ?s}" using as(3) by auto
  have "lf_inv ?s" unfolding lf_inv_def using c sub as(2) by (intro exI[of _ "?a # as"]) auto
  moreover have "lf_contents ?s = v # lf_contents s"
    using lf_contents_chain[OF c sub] as(4) map_data_update[OF new] by (simp add: data_of_def)
  ultimately show ?thesis by (simp add: LockFreeSPSCStack_Push_def Let_def)
qed

lemma lf_pop:
  assumes "lf_inv s" "lf_contents s = x # xs"
  shows "\<exists>s'. LockFreeSPSCStack_Pop s = Some (Some x, s') \<and> lf_inv s' \<and> lf_contents s' = xs"
proof -
  from assms(1) obtain as where as: "chain (lf_heap s) (lf_head s) as" "dom (lf_heap s) = set as"
    "set as \<subseteq> {..<lf_next_address s}" "lf_contents s = map (data_of (lf_heap s)) as" by (rule lf_invE)
  with assms(2) obtain a bs where a: "as = a # bs" by (cases as) auto
  with as(1) obtain n where n: "lf_head s = Some a" "lf_heap s a = Some n" "chain (lf_heap s) (node_next n) bs" by auto
  let ?s = "s\<lparr>lf_head := node_next n, lf_heap := (lf_heap s)(a := None)\<rparr>"
  have new: "a \<notin> set bs" using chain_distinct[OF as(1)] a by simp
  have c: "chain (lf_heap ?s) (lf_head ?s) bs" using chain_update[OF n(3) new] by simp
  have sub: "set bs \<subseteq> {..<lf_next_address ?s}" using as(3) a by auto
  have "lf_inv ?s" unfolding lf_inv_def using c sub as(2) a new by (intro exI[of _ bs]) auto
  moreover have "lf_contents ?s = xs"
    using lf_contents_chain[OF c sub] as(4) a assms(2) map_data_update[OF new] by simp
  moreover have "node_data n = x" using as(4) a assms(2) n(2) by (simp add: data_of_def)
  ultimately show ?thesis using n by (simp add: LockFreeSPSCStack_Pop_def)
qed

lemma lf_pop_empty: "lf_inv s \<Longrightarrow> lf_contents s = [] \<Longrightarrow> LockFreeSPSCStack_Pop s = Some (None, s)"
  by (erule lf_invE) (auto simp: LockFreeSPSCStack_Pop_def)

interpretation lock_free: stack_ops LockFreeSPSCStack_Push LockFreeSPSCStack_Pop lf_contents lf_inv "\<lambda>_. False"
  by unfold_locales (auto intro: lf_push lf_pop lf_pop_empty)

lemma free_nodes_chain:
  "chain h p as \<Longrightarrow> free_nodes p h = Some (\<lambda>a. if a \<in> set as then None else h a)"
proof (induction as arbitrary: p h)
  case Nil
  then show ?case by (simp add: free_nodes.simps)
next
  case (Cons a as)
  then obtain n where n: "p = Some a" "h a = Some n" "chain h (node_next n) as" by auto
  have "a \<notin> set as" using chain_distinct[OF Cons.prems] by simp
  moreover have "(\<lambda>b. if b \<in> set as then None else (h(a := None)) b) = (\<lambda>b. if b \<in> set (a # as) then None else h b)"
    by auto
  ultimately have "free_nodes (node_next n) (h(a := None)) = Some (\<lambda>b. if b \<in> set (a # as) then None else h b)"
    using Cons.IH[OF chain_update[OF n(3), of a None]] by (simp only: not_False_eq_True)
  with n(1,2) show ?case by (subst free_nodes.simps) simp
qed

section \<open>An array with a head counter\<close>

record buffered_stack =
  bs_head :: int
  bs_buffer :: "int list"

definition BufferedStack_Push :: "nat \<Rightarrow> int \<Rightarrow> buffered_stack \<Rightarrow> (bool \<times> buffered_stack) option" where
  "BufferedStack_Push Capacity v s =
     (let top = bs_head s in
      if top = int Capacity then Some (False, s)
      else if 0 \<le> top \<and> nat top < length (bs_buffer s)
      then Some (True, s\<lparr>bs_head := top + 1, bs_buffer := (bs_buffer s)[nat top := v]\<rparr>) else None)"

definition BufferedStack_Pop :: "buffered_stack \<Rightarrow> (int option \<times> buffered_stack) option" where
  "BufferedStack_Pop s =
     (let top = bs_head s in
      if top = 0 then Some (None, s)
      else if 1 \<le> top \<and> nat (top - 1) < length (bs_buffer s)
      then Some (Some (bs_buffer s ! nat (top - 1)), s\<lparr>bs_head := top - 1\<rparr>) else None)"

definition bs_inv :: "nat \<Rightarrow> buffered_stack \<Rightarrow> bool" where
  "bs_inv Capacity s \<longleftrightarrow> 0 \<le> bs_head s \<and> bs_head s \<le> int Capacity \<and> length (bs_buffer s) = Capacity"

definition bs_contents :: "buffered_stack \<Rightarrow> int list" where
  "bs_contents s = rev (take (nat (bs_head s)) (bs_buffer s))"

lemma length_bs_contents: "bs_inv c s \<Longrightarrow> length (bs_contents s) = nat (bs_head s)"
  by (auto simp: bs_inv_def bs_contents_def)

lemma bs_push_room:
  assumes "bs_inv c s" "length (bs_contents s) \<noteq> c"
  shows "\<exists>s'. BufferedStack_Push c v s = Some (True, s') \<and> bs_inv c s' \<and> bs_contents s' = v # bs_contents s"
proof -
  have h: "nat (bs_head s) < length (bs_buffer s)" "bs_head s \<noteq> int c" "0 \<le> bs_head s"
    using assms length_bs_contents[OF assms(1)] by (auto simp: bs_inv_def)
  then have "nat (bs_head s + 1) = Suc (nat (bs_head s))" by simp
  with h assms(1) show ?thesis
    by (simp add: BufferedStack_Push_def Let_def bs_inv_def bs_contents_def take_Suc_conv_app_nth)
qed

lemma bs_pop_top:
  assumes "bs_inv c s" "bs_contents s = x # xs"
  shows "\<exists>s'. BufferedStack_Pop s = Some (Some x, s') \<and> bs_inv c s' \<and> bs_contents s' = xs"
proof -
  define k where "k = length xs"
  have k: "bs_head s = int k + 1"
    using length_bs_contents[OF assms(1)] assms(2) by (simp add: k_def)
  have len: "k < length (bs_buffer s)" using assms(1) k by (simp add: bs_inv_def)
  have "x # xs = bs_buffer s ! k # rev (take k (bs_buffer s))"
    using assms(2) k len by (simp add: bs_contents_def take_Suc_conv_app_nth nat_add_distrib)
  with k len assms(1) show ?thesis
    by (simp add: BufferedStack_Pop_def Let_def bs_inv_def bs_contents_def)
qed

interpretation buffered: stack_ops "BufferedStack_Push c" BufferedStack_Pop bs_contents "bs_inv c" "\<lambda>n. n = c"
  for c
proof
  fix s x assume "bs_inv c s" "length (bs_contents s) = c"
  then show "BufferedStack_Push c x s = Some (False, s)"
    using length_bs_contents[of c s] by (auto simp: BufferedStack_Push_def bs_inv_def Let_def)
next
  fix s assume "bs_inv c s" "bs_contents s = []"
  then show "BufferedStack_Pop s = Some (None, s)"
    using length_bs_contents[of c s] by (auto simp: BufferedStack_Pop_def bs_inv_def Let_def)
qed (use bs_push_room bs_pop_top in blast)+

section \<open>Properties\<close>

definition empty_lf_stack :: lf_stack where
  "empty_lf_stack = \<lparr>lf_head = None, lf_heap = (\<lambda>_. None), lf_next_address = 0\<rparr>"

definition empty_buffered_stack :: "nat \<Rightarrow> buffered_stack" where
  "empty_buffered_stack Capacity = \<lparr>bs_head = 0, bs_buffer = replicate Capacity 0\<rparr>"

lemma empty_stacks:
  "lf_inv empty_lf_stack" "lf_contents empty_lf_stack = []"
  "bs_inv c (empty_buffered_stack c)" "bs_contents (empty_buffered_stack c) = []"
  by (auto simp: lf_inv_def empty_lf_stack_def lf_contents_def bs_inv_def empty_buffered_stack_def bs_contents_def)

text \<open>
  C24. All three stacks are stacks: whatever they hold, as many pushes as fit are accepted and as
  many pops return the pushed values in reverse order and leave the earlier contents. The linked
  one never follows a dangling pointer and the array one never leaves its array.
\<close>

theorem stacks_last_in_first_out:
  assumes "lf_inv l" "bs_inv c b" "length (bs_contents b) + length xs \<le> c"
  shows "(\<exists>s1. push_all SPSCStack_Push xs s = Some (replicate (length xs) True, s1) \<and>
      pop_times SPSCStack_Pop (length xs) s1 = Some (map Some (rev xs), s)) \<and>
    (\<exists>l1 l2. push_all LockFreeSPSCStack_Push xs l = Some (replicate (length xs) True, l1) \<and>
      pop_times LockFreeSPSCStack_Pop (length xs) l1 = Some (map Some (rev xs), l2) \<and>
      lf_inv l2 \<and> lf_contents l2 = lf_contents l) \<and>
    (\<exists>b1 b2. push_all (BufferedStack_Push c) xs b = Some (replicate (length xs) True, b1) \<and>
      pop_times BufferedStack_Pop (length xs) b1 = Some (map Some (rev xs), b2) \<and>
      bs_inv c b2 \<and> bs_contents b2 = bs_contents b)"
  using spsc.last_in_first_out[of xs s] lock_free.last_in_first_out[OF assms(1), of xs]
    buffered.last_in_first_out[OF assms(2), of xs] assms(3) by auto

theorem stacks_last_in_first_out_witness:
  "\<exists>b1 b2. push_all (BufferedStack_Push 1024) [7, 8] (empty_buffered_stack 1024) = Some ([True, True], b1) \<and>
     pop_times BufferedStack_Pop 2 b1 = Some ([Some 8, Some 7], b2) \<and> bs_contents b2 = []"
  using stacks_last_in_first_out[OF empty_stacks(1) empty_stacks(3)[of 1024], of "[7, 8]" "[]"]
  by (simp add: empty_stacks numeral_2_eq_2 del: push_all.simps pop_times.simps) blast

text \<open>
  The destructor of the linked stack ends and frees every node exactly once: nothing is left
  allocated and the head is null.
\<close>

lemma destructor_frees_all:
  assumes "lf_inv s"
  shows "\<exists>s'. LockFreeSPSCStack_destroy s = Some s' \<and> lf_heap s' = (\<lambda>_. None) \<and> lf_head s' = None"
proof -
  from assms obtain as where "chain (lf_heap s) (lf_head s) as" "dom (lf_heap s) = set as" by (rule lf_invE)
  with free_nodes_chain[of "lf_heap s" "lf_head s" as] show ?thesis
    by (auto simp: LockFreeSPSCStack_destroy_def fun_eq_iff)
qed

lemma destructor_frees_all_witness:
  "\<exists>l1 s'. push_all LockFreeSPSCStack_Push [7, 8] empty_lf_stack = Some ([True, True], l1) \<and>
     LockFreeSPSCStack_destroy l1 = Some s' \<and> lf_heap s' = (\<lambda>_. None)"
proof -
  obtain l1 where l1: "push_all LockFreeSPSCStack_Push [7, 8] empty_lf_stack = Some ([True, True], l1)" "lf_inv l1"
    using lock_free.push_all_room[OF empty_stacks(1), of "[7, 8]"] by (auto simp: numeral_2_eq_2)
  with destructor_frees_all[OF l1(2)] show ?thesis by blast
qed

end
