(* ===== verification/Stack_Conc.thy ===== *)
theory Stack_Conc
  imports Stacks
begin

text \<open>
  The two lock-free stacks of \<^verbatim>\<open>lock_free/spsc_stack.cpp\<close> (the second one also in
  \<^verbatim>\<open>ipc/shm_atomics.cpp\<close>) under concurrent calls, cut into their atomic accesses. For the linked stack
  with any number of producers and one consumer the lemmas show that the calls take effect one
  after the other as those of a stack and that no freed node is touched, and that a second consumer
  breaks this. For the array stack they show its bounds, and that its order of reserving and
  writing a slot lets a pop return a value that was never pushed.
\<close>

section \<open>The linked stack\<close>

text \<open>
  The environment chooses the value of a push, the address \<^verbatim>\<open>new\<close> returns (any address that is not
  allocated, a freed one included) and spurious failures of \<^verbatim>\<open>compare_exchange_weak\<close>.
\<close>

record stack_choice =
  ch_value :: int
  ch_addr :: nat
  ch_spurious :: bool

datatype stack_event = Pushed int | Popped int | Found_empty

datatype stack_pc =
    S_Idle
  | Push_New int                    \<comment> \<open>\<^verbatim>\<open>new Node(value)\<close>\<close>
  | Push_Load nat                   \<comment> \<open>\<^verbatim>\<open>newHead->next = m_head.load()\<close>\<close>
  | Push_CAS nat                    \<comment> \<open>\<^verbatim>\<open>m_head.compare_exchange_weak(newHead->next, newHead)\<close>\<close>
  | Pop_Load                        \<comment> \<open>\<^verbatim>\<open>m_head.load()\<close>\<close>
  | Pop_Next nat                    \<comment> \<open>reading \<^verbatim>\<open>oldHead->next\<close>\<close>
  | Pop_CAS nat "nat option"        \<comment> \<open>\<^verbatim>\<open>m_head.compare_exchange_weak(oldHead, next)\<close>\<close>
  | Pop_Take nat                    \<comment> \<open>\<^verbatim>\<open>std::move(oldHead->data)\<close>\<close>
  | Pop_Free nat                    \<comment> \<open>\<^verbatim>\<open>delete oldHead\<close>\<close>

text \<open>Histories: the calls' effects in the order they take place, and the values pops returned.\<close>

record stack_shared =
  st_head :: "nat option"
  st_heap :: node_heap
  st_fault :: bool                  \<comment> \<open>a node that is not allocated was used\<close>
  st_hist :: "stack_event list"
  st_returned :: "int list"

definition set_node :: "nat \<Rightarrow> stack_node option \<Rightarrow> stack_shared \<Rightarrow> stack_shared" where
  "set_node a n g = g\<lparr>st_heap := (st_heap g)(a := n)\<rparr>"

text \<open>Using the node at an address.\<close>

definition with_node ::
  "nat \<Rightarrow> stack_pc \<Rightarrow> stack_shared \<Rightarrow> (stack_node \<Rightarrow> stack_pc \<times> stack_shared) \<Rightarrow> (stack_pc \<times> stack_shared) option" where
  "with_node a l g f =
     (case st_heap g a of None \<Rightarrow> Some (l, g\<lparr>st_fault := True\<rparr>) | Some n \<Rightarrow> Some (f n))"

text \<open>\<^verbatim>\<open>oldHead\<close> has just been read from \<^verbatim>\<open>m_head\<close>: a null one ends the loop and the call.\<close>

definition pop_loaded :: "stack_shared \<Rightarrow> stack_pc \<times> stack_shared" where
  "pop_loaded g =
     (case st_head g of None \<Rightarrow> (S_Idle, g\<lparr>st_hist := st_hist g @ [Found_empty]\<rparr>) | Some a \<Rightarrow> (Pop_Next a, g))"

definition stack_act ::
  "(nat \<Rightarrow> bool) \<Rightarrow> stack_choice \<Rightarrow> nat \<Rightarrow> stack_pc \<Rightarrow> stack_shared \<Rightarrow> (stack_pc \<times> stack_shared) option" where
  "stack_act consumer c i l g =
     (if st_fault g then None
      else case l of
        S_Idle \<Rightarrow> Some (if consumer i then Pop_Load else Push_New (ch_value c), g)
      | Push_New v \<Rightarrow>
          (if st_heap g (ch_addr c) = None
           then Some (Push_Load (ch_addr c), set_node (ch_addr c) (Some \<lparr>node_data = v, node_next = None\<rparr>) g)
           else None)
      | Push_Load a \<Rightarrow> with_node a l g (\<lambda>n. (Push_CAS a, set_node a (Some (n\<lparr>node_next := st_head g\<rparr>)) g))
      | Push_CAS a \<Rightarrow> with_node a l g (\<lambda>n.
          if node_next n = st_head g \<and> \<not> ch_spurious c
          then (S_Idle, g\<lparr>st_head := Some a, st_hist := st_hist g @ [Pushed (node_data n)]\<rparr>)
          else (Push_CAS a, set_node a (Some (n\<lparr>node_next := st_head g\<rparr>)) g))
      | Pop_Load \<Rightarrow> Some (pop_loaded g)
      | Pop_Next a \<Rightarrow> with_node a l g (\<lambda>n. (Pop_CAS a (node_next n), g))
      | Pop_CAS a nx \<Rightarrow>
          Some (if st_head g = Some a \<and> \<not> ch_spurious c
                then (Pop_Take a, g\<lparr>st_head := nx, st_hist := st_hist g @ [Popped (data_of (st_heap g) a)]\<rparr>)
                else pop_loaded g)
      | Pop_Take a \<Rightarrow> with_node a l g (\<lambda>n. (Pop_Free a, g\<lparr>st_returned := st_returned g @ [node_data n]\<rparr>))
      | Pop_Free a \<Rightarrow> with_node a l g (\<lambda>n. (S_Idle, set_node a None g)))"

definition stack_start :: "nat \<Rightarrow> stack_pc list \<times> stack_shared" where
  "stack_start n = (replicate n S_Idle,
     \<lparr>st_head = None, st_heap = (\<lambda>_. None), st_fault = False, st_hist = [], st_returned = []\<rparr>)"

section \<open>Its specification\<close>

text \<open>Replaying a history on a sequential stack; \<open>None\<close> if an event does not fit.\<close>

fun replay :: "int list \<Rightarrow> stack_event list \<Rightarrow> int list option" where
  "replay s [] = Some s"
| "replay s (Pushed v # es) = replay (v # s) es"
| "replay s (Popped v # es) = (case s of [] \<Rightarrow> None | x # xs \<Rightarrow> if x = v then replay xs es else None)"
| "replay s (Found_empty # es) = (if s = [] then replay s es else None)"

fun popped_values :: "stack_event list \<Rightarrow> int list" where
  "popped_values [] = []"
| "popped_values (Popped v # es) = v # popped_values es"
| "popped_values (_ # es) = popped_values es"

lemma replay_append: "replay s (es @ fs) = (case replay s es of None \<Rightarrow> None | Some s' \<Rightarrow> replay s' fs)"
  by (induction s es rule: replay.induct) (auto split: list.splits)

lemma popped_values_append [simp]: "popped_values (es @ fs) = popped_values es @ popped_values fs"
  by (induction es rule: popped_values.induct) auto

section \<open>Many producers and one consumer\<close>

text \<open>Thread 0 is the consumer. A thread owns the node it is about to push or has taken off.\<close>

abbreviation only_0 :: "nat \<Rightarrow> bool" where
  "only_0 i \<equiv> i = 0"

definition owns :: "stack_pc \<Rightarrow> nat option" where
  "owns l = (case l of Push_Load a \<Rightarrow> Some a | Push_CAS a \<Rightarrow> Some a | Pop_Take a \<Rightarrow> Some a
     | Pop_Free a \<Rightarrow> Some a | _ \<Rightarrow> None)"

definition pops :: "stack_pc \<Rightarrow> bool" where
  "pops l = (case l of Pop_Load \<Rightarrow> True | Pop_Next _ \<Rightarrow> True | Pop_CAS _ _ \<Rightarrow> True | Pop_Take _ \<Rightarrow> True
     | Pop_Free _ \<Rightarrow> True | _ \<Rightarrow> False)"

definition role_ok :: "nat \<Rightarrow> stack_pc \<Rightarrow> bool" where
  "role_ok i l \<longleftrightarrow> l = S_Idle \<or> pops l = only_0 i"

definition consumer_view :: "stack_pc \<Rightarrow> node_heap \<Rightarrow> nat list \<Rightarrow> bool" where
  "consumer_view l h as =
     (case l of Pop_Next a \<Rightarrow> a \<in> set as
      | Pop_CAS a nx \<Rightarrow> a \<in> set as \<and> (\<exists>n. h a = Some n \<and> node_next n = nx) | _ \<Rightarrow> True)"

definition in_hand :: "stack_pc \<Rightarrow> node_heap \<Rightarrow> int list" where
  "in_hand l h = (case l of Pop_Take a \<Rightarrow> [data_of h a] | _ \<Rightarrow> [])"

definition owners_ok :: "stack_pc list \<Rightarrow> node_heap \<Rightarrow> nat list \<Rightarrow> bool" where
  "owners_ok ls h as \<longleftrightarrow> (\<forall>i<length ls. \<forall>a. owns (ls ! i) = Some a \<longrightarrow> h a \<noteq> None \<and> a \<notin> set as \<and>
     (\<forall>j<length ls. owns (ls ! j) = Some a \<longrightarrow> j = i))"

definition stack_ok :: "stack_pc list \<Rightarrow> stack_shared \<Rightarrow> nat list \<Rightarrow> bool" where
  "stack_ok ls g as \<longleftrightarrow> chain (st_heap g) (st_head g) as \<and> \<not> st_fault g \<and> owners_ok ls (st_heap g) as \<and>
     (\<forall>i<length ls. role_ok i (ls ! i)) \<and> consumer_view (ls ! 0) (st_heap g) as \<and>
     replay [] (st_hist g) = Some (map (data_of (st_heap g)) as) \<and>
     popped_values (st_hist g) = st_returned g @ in_hand (ls ! 0) (st_heap g)"

definition mpsc_stack_inv :: "stack_pc list \<times> stack_shared \<Rightarrow> bool" where
  "mpsc_stack_inv s \<longleftrightarrow> fst s \<noteq> [] \<and> (\<exists>as. stack_ok (fst s) (snd s) as)"

lemma stack_okD:
  assumes "stack_ok ls g as"
  shows "chain (st_heap g) (st_head g) as" "\<not> st_fault g" "consumer_view (ls ! 0) (st_heap g) as"
    "replay [] (st_hist g) = Some (map (data_of (st_heap g)) as)"
    "popped_values (st_hist g) = st_returned g @ in_hand (ls ! 0) (st_heap g)"
    "\<And>i. i < length ls \<Longrightarrow> role_ok i (ls ! i)"
    "\<And>i a. i < length ls \<Longrightarrow> owns (ls ! i) = Some a \<Longrightarrow> st_heap g a \<noteq> None \<and> a \<notin> set as"
    "\<And>i j a. i < length ls \<Longrightarrow> j < length ls \<Longrightarrow> owns (ls ! i) = Some a \<Longrightarrow> owns (ls ! j) = Some a \<Longrightarrow> i = j"
  using assms unfolding stack_ok_def owners_ok_def by blast+

text \<open>A step of thread \<open>i\<close> keeps the invariant if it respects what the others own.\<close>

lemma stack_ok_update:
  assumes ok: "stack_ok ls g as" and i: "i < length ls"
    and g': "chain (st_heap g') (st_head g') as'" "\<not> st_fault g'"
    and others: "\<And>j a. j < length ls \<Longrightarrow> j \<noteq> i \<Longrightarrow> owns (ls ! j) = Some a \<Longrightarrow> st_heap g' a \<noteq> None \<and> a \<notin> set as'"
    and own: "\<And>a. owns l' = Some a \<Longrightarrow> st_heap g' a \<noteq> None \<and> a \<notin> set as' \<and>
      (\<forall>j<length ls. j \<noteq> i \<longrightarrow> owns (ls ! j) \<noteq> Some a)"
    and role: "role_ok i l'"
    and view: "consumer_view (if i = 0 then l' else ls ! 0) (st_heap g') as'"
    and hist: "replay [] (st_hist g') = Some (map (data_of (st_heap g')) as')"
      "popped_values (st_hist g') = st_returned g' @ in_hand (if i = 0 then l' else ls ! 0) (st_heap g')"
  shows "stack_ok (ls[i := l']) g' as'"
proof -
  note D = stack_okD[OF ok]
  have z: "ls[i := l'] ! 0 = (if i = 0 then l' else ls ! 0)" using i by (cases i) auto
  have "st_heap g' a \<noteq> None \<and> a \<notin> set as' \<and> (\<forall>k<length ls. owns (ls[i := l'] ! k) = Some a \<longrightarrow> k = j)"
    if j: "j < length ls" "owns (ls[i := l'] ! j) = Some a" for j a
  proof (cases "j = i")
    case True
    with j i own[of a] show ?thesis by (auto simp: nth_list_update)
  next
    case False
    with j have oj: "owns (ls ! j) = Some a" by simp
    have "k = j" if k: "k < length ls" "owns (ls[i := l'] ! k) = Some a" for k
    proof (cases "k = i")
      case True
      with k i own[of a] j(1) False oj show ?thesis by simp
    next
      case False
      with k D(8)[OF k(1) j(1)] oj show ?thesis by simp
    qed
    with others[OF j(1) False oj] show ?thesis by blast
  qed
  then have "owners_ok (ls[i := l']) (st_heap g') as'" unfolding owners_ok_def length_list_update by blast
  moreover have "role_ok j (ls[i := l'] ! j)" if "j < length ls" for j
    using D(6)[OF that] role that by (cases "j = i") simp_all
  ultimately show ?thesis
    unfolding stack_ok_def z using g' view hist by simp
qed

lemma consumer_view_mono:
  assumes "consumer_view l h as" "set as \<subseteq> set as'" "\<And>a. a \<in> set as \<Longrightarrow> h' a = h a"
  shows "consumer_view l h' as'"
  using assms by (cases l) (auto simp: consumer_view_def)

text \<open>A producer writes a node that is not on the stack and that no one else owns.\<close>

lemma stack_ok_write:
  assumes ok: "stack_ok ls g as" and i: "i < length ls" "i \<noteq> 0"
    and a: "a \<notin> set as" "\<And>j. j < length ls \<Longrightarrow> j \<noteq> i \<Longrightarrow> owns (ls ! j) \<noteq> Some a"
    and l': "owns l' = Some a" "\<not> pops l'"
  shows "stack_ok (ls[i := l']) (set_node a (Some n) g) as"
proof (rule stack_ok_update[OF ok i(1)])
  note D = stack_okD[OF ok]
  have len: "0 < length ls" using i(1) by (rule le_less_trans[OF le0])
  show "chain (st_heap (set_node a (Some n) g)) (st_head (set_node a (Some n) g)) as" "\<not> st_fault (set_node a (Some n) g)"
    using chain_update[OF D(1) a(1)] D(2) by (simp_all add: set_node_def)
  show "st_heap (set_node a (Some n) g) b \<noteq> None \<and> b \<notin> set as"
    if "j < length ls" "j \<noteq> i" "owns (ls ! j) = Some b" for j b
    using D(7)[OF that(1,3)] by (simp add: set_node_def)
  show "st_heap (set_node a (Some n) g) b \<noteq> None \<and> b \<notin> set as \<and> (\<forall>j<length ls. j \<noteq> i \<longrightarrow> owns (ls ! j) \<noteq> Some b)"
    if "owns l' = Some b" for b
    using that a l' by (auto simp: set_node_def)
  show "role_ok i l'" using i(2) l'(2) by (simp add: role_ok_def)
  show "consumer_view (if i = 0 then l' else ls ! 0) (st_heap (set_node a (Some n) g)) as"
    unfolding if_not_P[OF i(2)]
    by (rule consumer_view_mono[OF D(3)]) (use a(1) in \<open>auto simp: set_node_def\<close>)
  show "replay [] (st_hist (set_node a (Some n) g)) = Some (map (data_of (st_heap (set_node a (Some n) g))) as)"
    using D(4) map_data_update[OF a(1)] by (simp add: set_node_def)
  have "in_hand (ls ! 0) (st_heap (set_node a (Some n) g)) = in_hand (ls ! 0) (st_heap g)"
    using a(2)[OF len] i(2) by (cases "ls ! 0") (auto simp: in_hand_def owns_def data_of_def set_node_def)
  with D(5) i(2) show "popped_values (st_hist (set_node a (Some n) g)) =
      st_returned (set_node a (Some n) g) @ in_hand (if i = 0 then l' else ls ! 0) (st_heap (set_node a (Some n) g))"
    by (simp add: set_node_def)
qed

lemma stack_ok_pushed:
  assumes ok: "stack_ok ls g as" and i: "i < length ls" "i \<noteq> 0" "ls ! i = Push_CAS a"
    and n: "st_heap g a = Some n" "node_next n = st_head g"
  shows "stack_ok (ls[i := S_Idle]) (g\<lparr>st_head := Some a, st_hist := st_hist g @ [Pushed (node_data n)]\<rparr>) (a # as)"
proof (rule stack_ok_update[OF ok i(1)])
  note D = stack_okD[OF ok]
  have own: "owns (ls ! i) = Some a" using i(3) by (simp add: owns_def)
  show "st_heap (g\<lparr>st_head := Some a, st_hist := st_hist g @ [Pushed (node_data n)]\<rparr>) b \<noteq> None \<and> b \<notin> set (a # as)"
    if "j < length ls" "j \<noteq> i" "owns (ls ! j) = Some b" for j b
    using D(7)[OF that(1,3)] D(8)[OF that(1) i(1) that(3)] own that(2) by auto
  show "consumer_view (if i = 0 then S_Idle else ls ! 0)
      (st_heap (g\<lparr>st_head := Some a, st_hist := st_hist g @ [Pushed (node_data n)]\<rparr>)) (a # as)"
    using consumer_view_mono[OF D(3), of "a # as" "st_heap g"] i(2) by auto
qed (use stack_okD[OF ok] i n in \<open>auto simp: owns_def role_ok_def replay_append data_of_def\<close>)

lemma stack_ok_producer:
  assumes ok: "stack_ok ls g as" and i: "i < length ls" "i \<noteq> 0"
    and act: "stack_act only_0 c i (ls ! i) g = Some (l', g')"
  shows "\<exists>as'. stack_ok (ls[i := l']) g' as'"
proof -
  note D = stack_okD[OF ok]
  have others: "owns (ls ! j) \<noteq> Some a" if "owns (ls ! i) = Some a" "j < length ls" "j \<noteq> i" for j a
    using D(8)[OF that(2) i(1)] that(1,3) by blast
  show ?thesis
  proof (cases "ls ! i")
    case S_Idle
    with act D(2) i(2) have "l' = Push_New (ch_value c)" "g' = g" by (auto simp: stack_act_def)
    then have "stack_ok (ls[i := l']) g' as"
      using D i by (intro stack_ok_update[OF ok i(1)]) (auto simp: owns_def role_ok_def pops_def)
    then show ?thesis by blast
  next
    case (Push_New v)
    let ?a = "ch_addr c"
    from Push_New act D(2) have a: "st_heap g ?a = None" and l': "l' = Push_Load ?a"
      and g': "g' = set_node ?a (Some \<lparr>node_data = v, node_next = None\<rparr>) g"
      by (auto simp: stack_act_def split: if_splits)
    have "?a \<notin> set as" using chain_allocated[OF D(1)] a by blast
    moreover have "owns (ls ! j) \<noteq> Some ?a" if "j < length ls" for j using D(7)[OF that] a by blast
    ultimately have "stack_ok (ls[i := l']) g' as"
      unfolding l' g' by (intro stack_ok_write[OF ok i]) (auto simp: owns_def pops_def)
    then show ?thesis by blast
  next
    case (Push_Load a)
    then have own: "owns (ls ! i) = Some a" by (simp add: owns_def)
    with D(7)[OF i(1)] obtain n where n: "st_heap g a = Some n" "a \<notin> set as" by auto
    with Push_Load act D(2) have "l' = Push_CAS a" "g' = set_node a (Some (n\<lparr>node_next := st_head g\<rparr>)) g"
      by (auto simp: stack_act_def with_node_def)
    then have "stack_ok (ls[i := l']) g' as"
      using n(2) others[OF own] by (auto intro!: stack_ok_write[OF ok i] simp: owns_def pops_def)
    then show ?thesis by blast
  next
    case (Push_CAS a)
    then have own: "owns (ls ! i) = Some a" by (simp add: owns_def)
    with D(7)[OF i(1)] obtain n where n: "st_heap g a = Some n" "a \<notin> set as" by auto
    show ?thesis
    proof (cases "node_next n = st_head g \<and> \<not> ch_spurious c")
      case True
      with n Push_CAS act D(2) have "l' = S_Idle"
        "g' = g\<lparr>st_head := Some a, st_hist := st_hist g @ [Pushed (node_data n)]\<rparr>"
        by (auto simp: stack_act_def with_node_def)
      with stack_ok_pushed[OF ok i Push_CAS n(1)] True show ?thesis by auto
    next
      case False
      with n Push_CAS act D(2) have "l' = Push_CAS a" "g' = set_node a (Some (n\<lparr>node_next := st_head g\<rparr>)) g"
        by (auto simp: stack_act_def with_node_def)
      then have "stack_ok (ls[i := l']) g' as"
        using n(2) others[OF own] by (auto intro!: stack_ok_write[OF ok i] simp: owns_def pops_def)
      then show ?thesis by blast
    qed
  qed (use D(6)[OF i(1)] i(2) in \<open>simp_all add: role_ok_def pops_def\<close>)
qed

text \<open>The consumer's steps that leave the stack and the heap alone.\<close>

lemma stack_ok_look:
  assumes ok: "stack_ok ls g as" and ls: "ls \<noteq> []"
    and l': "owns l' = None" "role_ok 0 l'" "consumer_view l' (st_heap g) as" "in_hand l' (st_heap g) = []"
    and hand: "in_hand (ls ! 0) (st_heap g) = []" and e: "es = [] \<or> es = [Found_empty] \<and> as = []"
  shows "stack_ok (ls[0 := l']) (g\<lparr>st_hist := st_hist g @ es\<rparr>) as"
  using stack_okD[OF ok] l' hand ls e
  by (intro stack_ok_update[OF ok]) (auto simp: replay_append)

lemma stack_ok_pop_loaded:
  assumes ok: "stack_ok ls g as" and ls: "ls \<noteq> []" and hand: "in_hand (ls ! 0) (st_heap g) = []"
    and p: "pop_loaded g = (l', g')"
  shows "stack_ok (ls[0 := l']) g' as"
proof (cases "st_head g")
  case None
  with stack_okD(1)[OF ok] have "as = []" by simp
  with None p stack_ok_look[OF ok ls _ _ _ _ hand, of S_Idle "[Found_empty]"] show ?thesis
    by (auto simp: pop_loaded_def owns_def role_ok_def consumer_view_def in_hand_def)
next
  case (Some a)
  with stack_okD(1)[OF ok] have "a \<in> set as" by (cases as) auto
  with Some p stack_ok_look[OF ok ls _ _ _ _ hand, of "Pop_Next a" "[]"] show ?thesis
    by (auto simp: pop_loaded_def owns_def role_ok_def pops_def consumer_view_def in_hand_def)
qed

lemma stack_ok_popped:
  assumes ok: "stack_ok ls g as" and ls: "ls \<noteq> []" "ls ! 0 = Pop_CAS a nx" and hd: "st_head g = Some a"
  shows "\<exists>bs. stack_ok (ls[0 := Pop_Take a])
    (g\<lparr>st_head := nx, st_hist := st_hist g @ [Popped (data_of (st_heap g) a)]\<rparr>) bs"
proof -
  note D = stack_okD[OF ok]
  from D(1) hd obtain bs m where as: "as = a # bs" "st_heap g a = Some m" "chain (st_heap g) (node_next m) bs"
    by (cases as) auto
  with D(3) ls(2) have nx: "node_next m = nx" by (auto simp: consumer_view_def)
  have "a \<notin> set bs" using chain_distinct[OF D(1)] as(1) by simp
  moreover have "owns (ls ! j) \<noteq> Some a" if "j < length ls" for j using D(7)[OF that] as(1) by auto
  ultimately have "stack_ok (ls[0 := Pop_Take a])
      (g\<lparr>st_head := nx, st_hist := st_hist g @ [Popped (data_of (st_heap g) a)]\<rparr>) bs"
    using D as nx ls by (intro stack_ok_update[OF ok])
      (auto simp: owns_def role_ok_def pops_def consumer_view_def in_hand_def replay_append)
  then show ?thesis by blast
qed

lemma stack_ok_freed:
  assumes ok: "stack_ok ls g as" and ls: "ls \<noteq> []" "ls ! 0 = Pop_Free a"
  shows "stack_ok (ls[0 := S_Idle]) (set_node a None g) as"
proof -
  note D = stack_okD[OF ok]
  have own: "owns (ls ! 0) = Some a" using ls(2) by (simp add: owns_def)
  have a: "a \<notin> set as" using D(7)[OF _ own] ls(1) by simp
  have "b \<noteq> a" if "j < length ls" "j \<noteq> 0" "owns (ls ! j) = Some b" for j b
    using D(8)[of j 0 a] that own ls(1) by auto
  then show ?thesis
    using D a ls chain_update[OF D(1) a] map_data_update[OF a, of "st_heap g" None]
    by (intro stack_ok_update[OF ok])
      (auto simp: set_node_def owns_def role_ok_def consumer_view_def in_hand_def)
qed

lemma stack_ok_consumer:
  assumes ok: "stack_ok ls g as" and ls: "ls \<noteq> []"
    and act: "stack_act only_0 c 0 (ls ! 0) g = Some (l', g')"
  shows "\<exists>as'. stack_ok (ls[0 := l']) g' as'"
proof -
  note D = stack_okD[OF ok]
  show ?thesis
  proof (cases "ls ! 0")
    case S_Idle
    with act D(2) stack_ok_look[OF ok ls, of Pop_Load "[]"] show ?thesis
      by (auto simp: stack_act_def owns_def role_ok_def pops_def consumer_view_def in_hand_def)
  next
    case Pop_Load
    with act D(2) stack_ok_pop_loaded[OF ok ls] show ?thesis by (auto simp: stack_act_def in_hand_def)
  next
    case (Pop_Next a)
    with D(3) have a: "a \<in> set as" by (simp add: consumer_view_def)
    with chain_allocated[OF D(1)] obtain n where n: "st_heap g a = Some n" by auto
    with Pop_Next act D(2) a stack_ok_look[OF ok ls, of "Pop_CAS a (node_next n)" "[]"] show ?thesis
      by (auto simp: stack_act_def with_node_def owns_def role_ok_def pops_def consumer_view_def in_hand_def)
  next
    case (Pop_CAS a nx)
    with act D(2) stack_ok_popped[OF ok ls Pop_CAS] stack_ok_pop_loaded[OF ok ls] show ?thesis
      by (auto simp: stack_act_def in_hand_def split: if_splits)
  next
    case (Pop_Take a)
    then have own: "owns (ls ! 0) = Some a" by (simp add: owns_def)
    with D(7)[of 0 a] ls obtain n where n: "st_heap g a = Some n" "a \<notin> set as" by auto
    have others: "owns (ls ! j) \<noteq> Some a" if "j < length ls" "j \<noteq> 0" for j
      using D(8)[OF that(1), of 0 a] own ls that(2) by auto
    have "stack_ok (ls[0 := Pop_Free a]) (g\<lparr>st_returned := st_returned g @ [node_data n]\<rparr>) as"
      using D n others ls Pop_Take by (intro stack_ok_update[OF ok])
        (auto simp: owns_def role_ok_def pops_def consumer_view_def in_hand_def data_of_def)
    with Pop_Take act D(2) n show ?thesis by (auto simp: stack_act_def with_node_def)
  next
    case (Pop_Free a)
    with D(7)[of 0 a] ls obtain n where "st_heap g a = Some n" by (auto simp: owns_def)
    with Pop_Free act D(2) stack_ok_freed[OF ok ls Pop_Free] show ?thesis
      by (auto simp: stack_act_def with_node_def)
  qed (use D(6)[of 0] ls in \<open>simp_all add: role_ok_def pops_def\<close>)
qed

lemma mpsc_stack_inv_step:
  assumes "mpsc_stack_inv s" "choice_step (stack_act only_0) s t"
  shows "mpsc_stack_inv t"
proof -
  obtain ls g where s: "s = (ls, g)" by (cases s)
  with assms(2) obtain i c l' g' where i: "i < length ls" and act: "stack_act only_0 c i (ls ! i) g = Some (l', g')"
    and t: "t = (ls[i := l'], g')" by (auto elim: choice_stepE)
  from assms(1) s obtain as where ok: "stack_ok ls g as" "ls \<noteq> []" by (auto simp: mpsc_stack_inv_def)
  from stack_ok_producer[OF ok(1) i _ act] stack_ok_consumer[OF ok] act
  have "\<exists>as'. stack_ok (ls[i := l']) g' as'" by (cases "i = 0") auto
  with ok(2) t show ?thesis by (simp add: mpsc_stack_inv_def)
qed

lemma mpsc_stack_inv_start: "mpsc_stack_inv (stack_start (Suc n))"
  by (auto simp: mpsc_stack_inv_def stack_start_def stack_ok_def owners_ok_def owns_def role_ok_def
      consumer_view_def in_hand_def nth_Cons split: nat.splits)

interpretation mpsc_stack: step_invariant "\<lambda>s. \<exists>n. s = stack_start (Suc n)" "choice_step (stack_act only_0)" mpsc_stack_inv
  by unfold_locales (auto intro: mpsc_stack_inv_start mpsc_stack_inv_step)

section \<open>The array stack\<close>

datatype buffer_pc =
    B_Idle
  | BPush_Load int              \<comment> \<open>\<^verbatim>\<open>m_head.load()\<close> in \<^verbatim>\<open>Push\<close>\<close>
  | BPush_CAS int int           \<comment> \<open>\<^verbatim>\<open>m_head.compare_exchange_weak(top, top + 1)\<close>\<close>
  | BPush_Write int int         \<comment> \<open>\<^verbatim>\<open>m_buffer[top] = std::move(value)\<close>\<close>
  | BPop_Load                   \<comment> \<open>\<^verbatim>\<open>m_head.load()\<close> in \<^verbatim>\<open>Pop\<close>\<close>
  | BPop_CAS int                \<comment> \<open>\<^verbatim>\<open>m_head.compare_exchange_weak(top, top - 1)\<close>\<close>
  | BPop_Read int               \<comment> \<open>\<^verbatim>\<open>std::move(m_buffer[top - 1])\<close>\<close>

record buffer_shared =
  bf_head :: int
  bf_buffer :: "int list"
  bf_fault :: bool                 \<comment> \<open>an index outside the array was used\<close>
  bf_pushed :: "int list"          \<comment> \<open>values of the pushes that have returned true\<close>
  bf_popped :: "int list"          \<comment> \<open>values the pops have returned\<close>

definition slot_in :: "int \<Rightarrow> buffer_shared \<Rightarrow> bool" where
  "slot_in k g \<longleftrightarrow> 0 \<le> k \<and> nat k < length (bf_buffer g)"

definition buffer_act ::
  "nat \<Rightarrow> (nat \<Rightarrow> bool) \<Rightarrow> stack_choice \<Rightarrow> nat \<Rightarrow> buffer_pc \<Rightarrow> buffer_shared \<Rightarrow> (buffer_pc \<times> buffer_shared) option" where
  "buffer_act Capacity consumer c i l g =
     (if bf_fault g then None
      else case l of
        B_Idle \<Rightarrow> Some (if consumer i then BPop_Load else BPush_Load (ch_value c), g)
      | BPush_Load v \<Rightarrow> Some (if bf_head g = int Capacity then B_Idle else BPush_CAS v (bf_head g), g)
      | BPush_CAS v hd0 \<Rightarrow>
          Some (if bf_head g = hd0 \<and> \<not> ch_spurious c then (BPush_Write v hd0, g\<lparr>bf_head := hd0 + 1\<rparr>)
                else (BPush_Load v, g))
      | BPush_Write v hd0 \<Rightarrow>
          Some (B_Idle,
            if slot_in hd0 g then g\<lparr>bf_buffer := (bf_buffer g)[nat hd0 := v], bf_pushed := bf_pushed g @ [v]\<rparr>
            else g\<lparr>bf_fault := True\<rparr>)
      | BPop_Load \<Rightarrow> Some (if bf_head g = 0 then B_Idle else BPop_CAS (bf_head g), g)
      | BPop_CAS hd0 \<Rightarrow>
          Some (if bf_head g = hd0 \<and> \<not> ch_spurious c then (BPop_Read hd0, g\<lparr>bf_head := hd0 - 1\<rparr>)
                else (BPop_Load, g))
      | BPop_Read hd0 \<Rightarrow>
          Some (B_Idle,
            if slot_in (hd0 - 1) g then g\<lparr>bf_popped := bf_popped g @ [bf_buffer g ! nat (hd0 - 1)]\<rparr>
            else g\<lparr>bf_fault := True\<rparr>))"

definition buffer_start :: "nat \<Rightarrow> nat \<Rightarrow> buffer_pc list \<times> buffer_shared" where
  "buffer_start Capacity n = (replicate n B_Idle,
     \<lparr>bf_head = 0, bf_buffer = replicate Capacity 0, bf_fault = False, bf_pushed = [], bf_popped = []\<rparr>)"

definition pushing :: "buffer_pc \<Rightarrow> bool" where
  "pushing l = (case l of BPush_Write _ _ \<Rightarrow> True | _ \<Rightarrow> False)"

definition popping :: "buffer_pc \<Rightarrow> bool" where
  "popping l = (case l of BPop_Read _ \<Rightarrow> True | _ \<Rightarrow> False)"

definition index_ok :: "nat \<Rightarrow> buffer_pc \<Rightarrow> bool" where
  "index_ok Capacity l =
     (case l of BPush_CAS _ hd0 \<Rightarrow> 0 \<le> hd0 \<and> hd0 < int Capacity | BPush_Write _ hd0 \<Rightarrow> 0 \<le> hd0 \<and> hd0 < int Capacity
      | BPop_CAS hd0 \<Rightarrow> 1 \<le> hd0 \<and> hd0 \<le> int Capacity | BPop_Read hd0 \<Rightarrow> 1 \<le> hd0 \<and> hd0 \<le> int Capacity | _ \<Rightarrow> True)"

text \<open>
  The head counts the pushes that have reserved a slot less the pops that have given one up, and
  every index in use lies in the array.
\<close>

definition buffer_inv :: "nat \<Rightarrow> buffer_pc list \<times> buffer_shared \<Rightarrow> bool" where
  "buffer_inv Capacity s \<longleftrightarrow> (case s of (ls, g) \<Rightarrow>
     0 \<le> bf_head g \<and> bf_head g \<le> int Capacity \<and> length (bf_buffer g) = Capacity \<and> \<not> bf_fault g \<and>
     (\<forall>i<length ls. index_ok Capacity (ls ! i)) \<and>
     bf_head g + int (length (bf_popped g)) + int (length (filter popping ls)) =
       int (length (bf_pushed g)) + int (length (filter pushing ls)))"

lemma buffer_inv_step:
  assumes "buffer_inv Capacity s" "choice_step (buffer_act Capacity consumer) s t"
  shows "buffer_inv Capacity t"
proof -
  obtain ls g where s: "s = (ls, g)" by (cases s)
  with assms(2) obtain i c l' g' where i: "i < length ls"
    and act: "buffer_act Capacity consumer c i (ls ! i) g = Some (l', g')" and t: "t = (ls[i := l'], g')"
    by (auto elim: choice_stepE)
  note inv = assms(1)[unfolded s buffer_inv_def prod.case]
  have ix: "index_ok Capacity (ls ! i)" using inv i by blast
  note cnt = length_filter_update[OF i, of popping l'] length_filter_update[OF i, of pushing l']
  have ix': "index_ok Capacity l'"
    using act ix inv by (cases "ls ! i") (auto simp: buffer_act_def index_ok_def split: if_splits)
  have all: "\<forall>j<length (ls[i := l']). index_ok Capacity (ls[i := l'] ! j)"
    using inv ix' by (intro allI) (case_tac "j = i"; simp)
  have rest: "0 \<le> bf_head g' \<and> bf_head g' \<le> int Capacity \<and> length (bf_buffer g') = Capacity \<and> \<not> bf_fault g'"
    using act ix inv by (cases "ls ! i") (auto simp: buffer_act_def index_ok_def slot_in_def split: if_splits)
  have "bf_head g' + int (length (bf_popped g')) + int (length (filter popping (ls[i := l']))) =
      int (length (bf_pushed g')) + int (length (filter pushing (ls[i := l'])))"
    using act ix inv cnt by (cases "ls ! i")
      (auto simp: buffer_act_def index_ok_def slot_in_def pushing_def popping_def split: if_splits)
  with all rest show ?thesis by (simp add: t buffer_inv_def)
qed

lemma buffer_inv_start: "buffer_inv Capacity (buffer_start Capacity n)"
  by (simp add: buffer_inv_def buffer_start_def index_ok_def popping_def pushing_def)

interpretation array_stack: step_invariant "\<lambda>s. \<exists>n. s = buffer_start Capacity n"
  "choice_step (buffer_act Capacity consumer)" "buffer_inv Capacity" for Capacity consumer
  by unfold_locales (auto intro: buffer_inv_start buffer_inv_step)

section \<open>Claims\<close>

text \<open>
  C4. The linked stack, with one consumer and any number of producers, under any interleaving, any
  reuse of freed addresses and any spurious failures: no unallocated node is ever used, the calls
  take effect one after the other as the calls of a sequential stack whose content is the chain
  behind \<^verbatim>\<open>m_head\<close>, an empty result included, and the values the pops return are, in order,
  those of this sequential run, the one the consumer has unlinked but not yet read excepted.
\<close>

theorem one_consumer_linearizable:
  assumes "(choice_step (stack_act only_0))\<^sup>*\<^sup>* (stack_start (Suc n)) (ls, g)"
  shows "\<not> st_fault g \<and> (\<exists>as. chain (st_heap g) (st_head g) as
      \<and> replay [] (st_hist g) = Some (map (data_of (st_heap g)) as)
      \<and> popped_values (st_hist g) = st_returned g @ in_hand (ls ! 0) (st_heap g))"
proof -
  have "mpsc_stack_inv (ls, g)"
    using assms by (rule mpsc_stack.inv_reachable[rotated]) blast
  then obtain as where "stack_ok ls g as" by (auto simp: mpsc_stack_inv_def)
  then show ?thesis unfolding stack_ok_def by blast
qed

text \<open>Thread 1 pushes 7 and thread 0 pops it, at address 5.\<close>

definition push_then_pop :: "(nat \<times> stack_choice) list" where
  "push_then_pop = map (\<lambda>i. (i, \<lparr>ch_value = 7, ch_addr = 5, ch_spurious = False\<rparr>)) [1, 1, 1, 1, 0, 0, 0, 0, 0, 0]"

theorem one_consumer_linearizable_witness:
  "\<exists>ls g. run_choices (stack_act only_0) push_then_pop (stack_start 2) = Some (ls, g)
     \<and> st_hist g = [Pushed 7, Popped 7] \<and> st_returned g = [7] \<and> \<not> st_fault g"
proof -
  obtain ls g where r: "run_choices (stack_act only_0) push_then_pop (stack_start 2) = Some (ls, g)"
    and g: "st_hist g = [Pushed 7, Popped 7] \<and> st_returned g = [7]"
    by (simp add: push_then_pop_def stack_start_def stack_act_def with_node_def pop_loaded_def set_node_def
        data_of_def numeral_eq_Suc)
  have "\<not> st_fault g"
    using one_consumer_linearizable[of 1 ls g] run_choices_reachable[OF r] by (simp add: numeral_2_eq_2)
  with r g show ?thesis by blast
qed

text \<open>
  The linked stack must not have two consumers: with threads 0 and 1 popping and thread 2 pushing
  there is a run in which thread 0 reads \<^verbatim>\<open>oldHead->next\<close> of a node that thread 1 has popped and
  deleted.
\<close>

lemma two_consumers_use_after_free:
  "\<exists>ls g. (choice_step (stack_act (\<lambda>i. i < 2)))\<^sup>*\<^sup>* (stack_start 3) (ls, g) \<and> st_fault g"
proof -
  let ?c = "\<lparr>ch_value = 7, ch_addr = 5, ch_spurious = False\<rparr>"
  obtain ls g where "run_choices (stack_act (\<lambda>i. i < 2))
      (map (\<lambda>i. (i, ?c)) [2, 2, 2, 2, 0, 0, 1, 1, 1, 1, 1, 1, 0]) (stack_start 3) = Some (ls, g)"
    and "st_fault g"
    by (simp add: stack_start_def stack_act_def with_node_def pop_loaded_def set_node_def data_of_def
        numeral_eq_Suc)
  then show ?thesis using run_choices_reachable by blast
qed

text \<open>
  C27. The array stack, with any number of producers and consumers: \<^verbatim>\<open>m_head\<close> stays between 0 and
  the capacity, every index used lies in the array, and the pushes accepted so far are as many as
  the pops answered so far plus \<^verbatim>\<open>m_head\<close>, up to the calls that are between their
  \<^verbatim>\<open>compare_exchange_weak\<close> and their array access.
\<close>

theorem array_stack_bounds:
  assumes "(choice_step (buffer_act Capacity consumer))\<^sup>*\<^sup>* (buffer_start Capacity n) (ls, g)"
  shows "0 \<le> bf_head g \<and> bf_head g \<le> int Capacity \<and> length (bf_buffer g) = Capacity \<and> \<not> bf_fault g
    \<and> bf_head g + int (length (bf_popped g)) + int (length (filter popping ls))
        = int (length (bf_pushed g)) + int (length (filter pushing ls))"
proof -
  have "buffer_inv Capacity (ls, g)"
    using assms by (rule array_stack.inv_reachable[rotated]) blast
  then show ?thesis unfolding buffer_inv_def by simp
qed

theorem array_stack_bounds_witness:
  "\<exists>ls g. run_choices (buffer_act 4 only_0) (map (\<lambda>i. (i, \<lparr>ch_value = 7, ch_addr = 0, ch_spurious = False\<rparr>)) [1, 1, 1, 0, 0, 1])
        (buffer_start 4 2) = Some (ls, g)
     \<and> ls = [BPop_CAS 1, B_Idle] \<and> bf_head g = int (length (bf_pushed g))"
proof -
  obtain ls g where r: "run_choices (buffer_act 4 only_0)
      (map (\<lambda>i. (i, \<lparr>ch_value = 7, ch_addr = 0, ch_spurious = False\<rparr>)) [1, 1, 1, 0, 0, 1]) (buffer_start 4 2) = Some (ls, g)"
    and ls: "ls = [BPop_CAS 1, B_Idle]" and p: "bf_popped g = []"
    by (simp add: buffer_start_def buffer_act_def slot_in_def numeral_eq_Suc)
  from array_stack_bounds[OF run_choices_reachable[OF r]] have "bf_head g = int (length (bf_pushed g))"
    by (simp add: ls p popping_def pushing_def)
  with r ls show ?thesis by blast
qed

text \<open>
  The array stack is not a stack under concurrency, even with one producer and one consumer:
  \<^verbatim>\<open>Push\<close> raises \<^verbatim>\<open>m_head\<close> before it writes the slot, and a pop in between returns the slot's
  old content, a value that was never pushed; the pushed value is then above \<^verbatim>\<open>m_head\<close> and lost.
\<close>

lemma array_stack_pops_unwritten_slot:
  "\<exists>ls g. (choice_step (buffer_act 4 only_0))\<^sup>*\<^sup>* (buffer_start 4 2) (ls, g)
     \<and> ls = [B_Idle, B_Idle] \<and> bf_pushed g = [7] \<and> bf_popped g = [0] \<and> bf_head g = 0"
proof -
  let ?c = "\<lparr>ch_value = 7, ch_addr = 0, ch_spurious = False\<rparr>"
  obtain ls g where "run_choices (buffer_act 4 only_0) (map (\<lambda>i. (i, ?c)) [1, 1, 1, 0, 0, 0, 0, 1]) (buffer_start 4 2)
      = Some (ls, g)"
    and "ls = [B_Idle, B_Idle] \<and> bf_pushed g = [7] \<and> bf_popped g = [0] \<and> bf_head g = 0"
    by (simp add: buffer_start_def buffer_act_def slot_in_def numeral_eq_Suc)
  then show ?thesis using run_choices_reachable by blast
qed

end
