(* ===== verification/Counters.thy ===== *)
theory Counters
  imports Prelude
begin

text \<open>
  The programs in which two threads update one variable: \<^verbatim>\<open>mutex/mutex.cpp\<close>, \<^verbatim>\<open>mutex/spinlock.cpp\<close>,
  \<^verbatim>\<open>atomics/data_race.cpp\<close>, \<^verbatim>\<open>sync_intro/data_race.cpp\<close>, \<^verbatim>\<open>atomics/race_condition.cpp\<close> and
  \<^verbatim>\<open>atomics/cas.cpp\<close> of \<^verbatim>\<open>synchronization_primitives/\<close>, and the operations of
  \<^verbatim>\<open>atomics/atomic_operations.cpp\<close>. A lock is an interface; the lemmas about the counter it guards
  are proved once for it and hold for \<^verbatim>\<open>std::mutex\<close> and for \<^verbatim>\<open>Spinlock\<close>. The claims give, for
  every program, exactly what it can print.
\<close>

section \<open>The report\<close>

text \<open>Each program repeats a run and counts how often the variable ends with the expected value.\<close>

fun tally :: "int \<Rightarrow> int list \<Rightarrow> nat \<times> nat \<Rightarrow> nat \<times> nat" where
  "tally expected [] counts = counts"
| "tally expected (x # xs) (correct, incorrect) =
     tally expected xs (if x = expected then (correct + 1, incorrect) else (correct, incorrect + 1))"

definition report :: "string \<Rightarrow> nat \<times> nat \<Rightarrow> string" where
  "report what counts =
     ''Correct '' @ what @ '': '' @ decimal (fst counts) @ '', incorrect '' @ what @ '': '' @ decimal (snd counts)"

text \<open>The lines a program can print when each run can end with one of the given values.\<close>

definition printed :: "nat \<Rightarrow> int \<Rightarrow> string \<Rightarrow> int set \<Rightarrow> string set" where
  "printed runs expected what results =
     {report what (tally expected xs (0, 0)) | xs. length xs = runs \<and> set xs \<subseteq> results}"

lemma tally_filter:
  "tally e xs (c, i) = (c + length (filter (\<lambda>x. x = e) xs), i + length (filter (\<lambda>x. x \<noteq> e) xs))"
  by (induction xs arbitrary: c i) auto

lemma printed_always:
  assumes "results = {e}"
  shows "printed n e what results = {report what (n, 0)}"
proof -
  have "length xs = n \<and> set xs \<subseteq> {e} \<longleftrightarrow> xs = replicate n e" for xs
    by (auto intro!: replicate_eqI)
  then have "printed n e what results = {report what (tally e (replicate n e) (0, 0))}"
    unfolding printed_def assms by simp
  also have "tally e (replicate n e) (0, 0) = (n, 0)" by (simp add: tally_filter)
  finally show ?thesis .
qed

lemma printed_sometimes:
  assumes "e \<in> results" "y \<in> results" "y \<noteq> e"
  shows "printed n e what results = {report what (c, n - c) | c. c \<le> n}" (is "?L = ?R")
proof
  show "?L \<subseteq> ?R"
  proof
    fix out assume "out \<in> ?L"
    then obtain xs where xs: "length xs = n" "out = report what (tally e xs (0, 0))"
      by (auto simp: printed_def)
    let ?c = "length (filter (\<lambda>x. x = e) xs)"
    have sum: "?c + length (filter (\<lambda>x. x \<noteq> e) xs) = n"
      using sum_length_filter_compl[of "\<lambda>x. x = e" xs] xs(1) by simp
    then have "length (filter (\<lambda>x. x \<noteq> e) xs) = n - ?c" by linarith
    with xs(2) sum have "out = report what (?c, n - ?c)" "?c \<le> n" by (simp_all add: tally_filter)
    then show "out \<in> ?R" by blast
  qed
  show "?R \<subseteq> ?L"
  proof
    fix out assume "out \<in> ?R"
    then obtain c where c: "c \<le> n" "out = report what (c, n - c)" by blast
    let ?xs = "replicate c e @ replicate (n - c) y"
    have "tally e ?xs (0, 0) = (c, n - c)"
      using assms(3) by (simp add: tally_filter)
    with c show "out \<in> ?L"
      unfolding printed_def using assms by (intro CollectI exI[of _ ?xs]) auto
  qed
qed

section \<open>A counter behind a lock\<close>

record 'm counter_shared =
  ctr_lock :: 'm
  ctr_x :: int

text \<open>
  One iteration of \<^verbatim>\<open>increment\<close>: the lock, the load and the store of \<^verbatim>\<open>++x\<close>, and the unlock. \<open>i\<close> is
  the loop variable.
\<close>

datatype counter_pc = C_Lock nat | C_Load nat | C_Store nat int | C_Unlock nat | C_Done

definition next_iteration :: "nat \<Rightarrow> nat \<Rightarrow> counter_pc" where
  "next_iteration iters i = (if i < iters then C_Lock i else C_Done)"

text \<open>
  \<open>lock\<close> is one attempt to take the lock: \<open>None\<close> blocks the thread, otherwise the flag tells whether
  the lock was taken or the loop in \<^verbatim>\<open>lock()\<close> goes round again.
\<close>

fun increment_act ::
  "(nat \<Rightarrow> 'm \<Rightarrow> (bool \<times> 'm) option) \<Rightarrow> (nat \<Rightarrow> 'm \<Rightarrow> 'm) \<Rightarrow> nat \<Rightarrow> nat \<Rightarrow> counter_pc \<Rightarrow> 'm counter_shared
    \<Rightarrow> (counter_pc \<times> 'm counter_shared) option" where
  "increment_act lock unlock iters t (C_Lock i) g =
     (case lock t (ctr_lock g) of None \<Rightarrow> None
      | Some (taken, m) \<Rightarrow> Some (if taken then C_Load i else C_Lock i, g\<lparr>ctr_lock := m\<rparr>))"
| "increment_act lock unlock iters t (C_Load i) g = Some (C_Store i (ctr_x g), g)"
| "increment_act lock unlock iters t (C_Store i v) g = Some (C_Unlock i, g\<lparr>ctr_x := v + 1\<rparr>)"
| "increment_act lock unlock iters t (C_Unlock i) g =
     Some (next_iteration iters (i + 1), g\<lparr>ctr_lock := unlock t (ctr_lock g)\<rparr>)"
| "increment_act lock unlock iters t C_Done g = None"

definition increment_start :: "'m \<Rightarrow> nat \<Rightarrow> nat \<Rightarrow> counter_pc list \<times> 'm counter_shared" where
  "increment_start m threads iters = (replicate threads (next_iteration iters 0), \<lparr>ctr_lock = m, ctr_x = 0\<rparr>)"

definition joined :: "counter_pc list \<times> 'm counter_shared \<Rightarrow> bool" where
  "joined s \<longleftrightarrow> (\<forall>l\<in>set (fst s). l = C_Done)"

subsection \<open>\<^verbatim>\<open>std::mutex\<close> and \<^verbatim>\<open>Spinlock\<close>\<close>

text \<open>A mutex is owned by at most one thread; a thread that finds it owned waits.\<close>

definition mutex_lock :: "nat \<Rightarrow> nat option \<Rightarrow> (bool \<times> nat option) option" where
  "mutex_lock t m = (case m of None \<Rightarrow> Some (True, Some t) | Some _ \<Rightarrow> None)"

definition mutex_unlock :: "nat \<Rightarrow> nat option \<Rightarrow> nat option" where
  "mutex_unlock t m = None"

text \<open>\<^verbatim>\<open>while (m_locked.exchange(true)) {}\<close>, one exchange at a time.\<close>

definition Spinlock_lock :: "nat \<Rightarrow> bool \<Rightarrow> (bool \<times> bool) option" where
  "Spinlock_lock t m_locked = Some (\<not> m_locked, True)"

definition Spinlock_unlock :: "nat \<Rightarrow> bool \<Rightarrow> bool" where
  "Spinlock_unlock t m_locked = False"

text \<open>The programs: one run's possible results, and what is printed after all runs.\<close>

definition mutex_run :: "int set" where
  "mutex_run = outcomes (prog_step (increment_act mutex_lock mutex_unlock 1000)) (increment_start None 2 1000)
     joined (\<lambda>s. ctr_x (snd s))"

definition mutex_main :: "string set" where
  "mutex_main = printed 1000 2000 ''sum'' mutex_run"

definition spinlock_run :: "int set" where
  "spinlock_run = outcomes (prog_step (increment_act Spinlock_lock Spinlock_unlock 1000)) (increment_start False 2 1000)
     joined (\<lambda>s. ctr_x (snd s))"

definition spinlock_main :: "string set" where
  "spinlock_main = printed 1000 2000 ''sum'' spinlock_run"

subsection \<open>The contract of a lock and the counter behind it\<close>

definition in_section :: "counter_pc \<Rightarrow> bool" where
  "in_section l = (case l of C_Load _ \<Rightarrow> True | C_Store _ _ \<Rightarrow> True | C_Unlock _ \<Rightarrow> True | _ \<Rightarrow> False)"

text \<open>Increments a thread has stored, and the actions it has left.\<close>

definition stored :: "nat \<Rightarrow> counter_pc \<Rightarrow> nat" where
  "stored iters l = (case l of C_Lock i \<Rightarrow> i | C_Load i \<Rightarrow> i | C_Store i _ \<Rightarrow> i | C_Unlock i \<Rightarrow> Suc i | C_Done \<Rightarrow> iters)"

definition left :: "nat \<Rightarrow> counter_pc \<Rightarrow> nat" where
  "left iters l = (case l of C_Lock i \<Rightarrow> 4 * (iters - i) | C_Load i \<Rightarrow> 4 * (iters - i) - 1 | C_Store i _ \<Rightarrow> 4 * (iters - i) - 2
     | C_Unlock i \<Rightarrow> 4 * (iters - i) - 3 | C_Done \<Rightarrow> 0)"

definition pc_ok :: "nat \<Rightarrow> int \<Rightarrow> counter_pc \<Rightarrow> bool" where
  "pc_ok iters x l = (case l of C_Lock i \<Rightarrow> i < iters | C_Load i \<Rightarrow> i < iters | C_Store i v \<Rightarrow> i < iters \<and> v = x
     | C_Unlock i \<Rightarrow> i < iters | C_Done \<Rightarrow> True)"

definition counter_inv :: "('m \<Rightarrow> bool) \<Rightarrow> nat \<Rightarrow> nat \<Rightarrow> counter_pc list \<times> 'm counter_shared \<Rightarrow> bool" where
  "counter_inv held n iters s \<longleftrightarrow> (case s of (ls, g) \<Rightarrow>
     length ls = n \<and> length (filter in_section ls) = of_bool (held (ctr_lock g)) \<and>
     (\<forall>i<length ls. pc_ok iters (ctr_x g) (ls ! i)) \<and> ctr_x g = int (sum_list (map (stored iters) ls)))"

lemma stored_le: "pc_ok iters x l \<Longrightarrow> stored iters l \<le> iters"
  by (cases l) (auto simp: pc_ok_def stored_def)

lemma pc_ok_other: "pc_ok iters x l \<Longrightarrow> \<not> in_section l \<Longrightarrow> pc_ok iters y l"
  by (cases l) (auto simp: pc_ok_def in_section_def)

lemma in_section_unique:
  assumes "length (filter P xs) = of_bool b" "i < length xs" "j < length xs" "P (xs ! i)" "P (xs ! j)"
  shows "i = j"
proof (rule ccontr)
  assume "i \<noteq> j"
  then have "2 = card {i, j}" by simp
  also have "\<dots> \<le> card {k. k < length xs \<and> P (xs ! k)}"
    using assms by (intro card_mono) auto
  also have "\<dots> = length (filter P xs)" by (simp add: length_filter_conv_card)
  finally show False using assms(1) by (cases b) auto
qed

lemma counter_invD:
  assumes "counter_inv held n iters (ls, g)"
  shows "length ls = n" "length (filter in_section ls) = of_bool (held (ctr_lock g))"
    "\<And>i. i < length ls \<Longrightarrow> pc_ok iters (ctr_x g) (ls ! i)" "ctr_x g = int (sum_list (map (stored iters) ls))"
  using assms by (auto simp: counter_inv_def)

locale lock_contract =
  fixes lock :: "nat \<Rightarrow> 'm \<Rightarrow> (bool \<times> 'm) option"
    and unlock :: "nat \<Rightarrow> 'm \<Rightarrow> 'm"
    and held :: "'m \<Rightarrow> bool"
  assumes lock_takes: "lock t m = Some (True, m') \<Longrightarrow> \<not> held m \<and> held m'"
    and lock_retries: "lock t m = Some (False, m') \<Longrightarrow> held m' = held m"
    and lock_free_succeeds: "\<not> held m \<Longrightarrow> \<exists>m'. lock t m = Some (True, m')"
    and unlock_releases: "\<not> held (unlock t m)"
begin

lemma counter_inv_step:
  assumes "counter_inv held n iters s" "prog_step (increment_act lock unlock iters) s s'"
  shows "counter_inv held n iters s'"
proof -
  obtain ls g where s: "s = (ls, g)" by (cases s)
  with assms(2) obtain t l' g' where t: "t < length ls"
    and act: "increment_act lock unlock iters t (ls ! t) g = Some (l', g')" and s': "s' = (ls[t := l'], g')"
    by (auto elim: prog_stepE)
  note D = counter_invD[OF assms(1)[unfolded s]]
  have ok: "pc_ok iters (ctr_x g) (ls ! t)" using D(3) t by blast
  note upd = length_filter_update[OF t, of in_section l'] sum_list_map_update[OF t, of "stored iters" l']
  have one: "of_bool (held (ctr_lock g)) = (of_bool (in_section (ls ! t)) :: nat)" if "in_section (ls ! t)"
  proof -
    have "length (filter in_section ls) \<noteq> 0" using that t unfolding length_filter_0 by blast
    with D(2) that show ?thesis by (cases "held (ctr_lock g)") auto
  qed
  have mine: "pc_ok iters (ctr_x g') l'"
    using act ok by (cases "ls ! t") (auto simp: pc_ok_def next_iteration_def split: option.splits if_splits)
  have others: "pc_ok iters (ctr_x g') (ls ! j)" if j: "j < length ls" "j \<noteq> t" for j
  proof (cases "in_section (ls ! t)")
    case True
    then have "\<not> in_section (ls ! j)" using in_section_unique[OF D(2), of j t] True j t by blast
    with D(3)[OF j(1)] show ?thesis by (rule pc_ok_other)
  next
    case False
    then have "ctr_x g' = ctr_x g"
      using act by (cases "ls ! t") (auto simp: in_section_def split: option.splits if_splits)
    with D(3)[OF j(1)] show ?thesis by simp
  qed
  have cnt: "length (filter in_section (ls[t := l'])) = of_bool (held (ctr_lock g'))"
  proof (cases "ls ! t")
    case (C_Lock i)
    with act obtain b m where m: "lock t (ctr_lock g) = Some (b, m)" "g' = g\<lparr>ctr_lock := m\<rparr>"
      and l': "l' = (if b then C_Load i else C_Lock i)" by (auto split: option.splits)
    with lock_takes[of t "ctr_lock g" m] lock_retries[of t "ctr_lock g" m] C_Lock upd(1) D(2) show ?thesis
      by (cases b) (simp_all add: in_section_def)
  next
    case (C_Unlock i)
    with act unlock_releases upd(1) D(2) one show ?thesis
      by (auto simp: in_section_def next_iteration_def split: if_splits)
  qed (use act D(2) upd(1) in \<open>auto simp: in_section_def\<close>)
  have sum: "ctr_x g' = int (sum_list (map (stored iters) (ls[t := l'])))"
    using act upd(2) D(4) ok
    by (cases "ls ! t") (auto simp: stored_def pc_ok_def next_iteration_def split: option.splits if_splits)
  have all: "\<forall>j<length (ls[t := l']). pc_ok iters (ctr_x g') (ls[t := l'] ! j)"
    using others mine by (rule all_nth_update)
  show ?thesis using all cnt sum D(1) by (simp add: s' counter_inv_def)
qed

lemma counter_inv_start:
  "\<not> held m \<Longrightarrow> counter_inv held n iters (increment_start m n iters)"
  by (simp add: counter_inv_def increment_start_def in_section_def next_iteration_def pc_ok_def stored_def sum_list_replicate)

lemma counter_advance:
  assumes "counter_inv held n iters s" "\<not> joined s"
  shows "\<exists>s'. prog_step (increment_act lock unlock iters) s s'
    \<and> sum_list (map (left iters) (fst s')) < sum_list (map (left iters) (fst s))"
proof -
  obtain ls g where s: "s = (ls, g)" by (cases s)
  note inv = assms(1)[unfolded s counter_inv_def prod.case]
  obtain t where t: "t < length ls" "ls ! t \<noteq> C_Done" "held (ctr_lock g) \<Longrightarrow> in_section (ls ! t)"
  proof (cases "held (ctr_lock g)")
    case True
    with inv have "length (filter in_section ls) \<noteq> 0" by simp
    then obtain t where "t < length ls" "in_section (ls ! t)" unfolding length_filter_0 by blast
    then show ?thesis by (intro that) (auto simp: in_section_def)
  next
    case False
    from assms(2) s obtain t where "t < length ls" "ls ! t \<noteq> C_Done"
      by (auto simp: joined_def in_set_conv_nth)
    with False that show ?thesis by blast
  qed
  have ok: "pc_ok iters (ctr_x g) (ls ! t)" using inv t by blast
  have "\<exists>l' g'. increment_act lock unlock iters t (ls ! t) g = Some (l', g') \<and> left iters l' < left iters (ls ! t)"
  proof (cases "ls ! t")
    case (C_Lock i)
    then have "\<not> held (ctr_lock g)" using t(3) by (auto simp: in_section_def)
    then obtain m where "lock t (ctr_lock g) = Some (True, m)" using lock_free_succeeds by blast
    with C_Lock ok show ?thesis by (simp add: left_def pc_ok_def)
  qed (use ok t(2) in \<open>auto simp: left_def pc_ok_def next_iteration_def\<close>)
  then obtain l' g' where a: "increment_act lock unlock iters t (ls ! t) g = Some (l', g')"
    and less: "left iters l' < left iters (ls ! t)" by blast
  have "prog_step (increment_act lock unlock iters) s (ls[t := l'], g')"
    unfolding s using t(1) a by (rule prog_stepI)
  moreover have "sum_list (map (left iters) (ls[t := l'])) < sum_list (map (left iters) ls)"
    using sum_list_map_update[OF t(1), of "left iters" l'] less by linarith
  ultimately show ?thesis unfolding s by auto
qed

end

sublocale lock_contract \<subseteq> counter: finishing_steps
  "\<lambda>s. \<exists>m. \<not> held m \<and> s = increment_start m n iters" "prog_step (increment_act lock unlock iters)"
  "counter_inv held n iters" joined "\<lambda>s. sum_list (map (left iters) (fst s))" for n iters
proof unfold_locales
  show "\<exists>m. \<not> held m \<and> s = increment_start m n iters \<Longrightarrow> counter_inv held n iters s" for s n iters
    using counter_inv_start by blast
qed (rule counter_inv_step counter_advance; assumption)+

context lock_contract
begin

lemma counter_bounds:
  assumes "(prog_step (increment_act lock unlock iters))\<^sup>*\<^sup>* (increment_start m n iters) (ls, g)" "\<not> held m"
  shows "0 \<le> ctr_x g \<and> ctr_x g \<le> int (n * iters)
    \<and> (\<forall>i<n. \<forall>j<n. in_section (ls ! i) \<longrightarrow> in_section (ls ! j) \<longrightarrow> i = j)"
proof -
  have inv: "counter_inv held n iters (ls, g)"
    using assms counter.inv_reachable[of "increment_start m n iters" n iters "(ls, g)"] by blast
  then have "sum_list (map (stored iters) ls) \<le> sum_list (map (\<lambda>_. iters) ls)"
    by (intro sum_list_mono) (auto simp: counter_inv_def in_set_conv_nth stored_le)
  then have "sum_list (map (stored iters) ls) \<le> length ls * iters" by (simp add: sum_list_triv)
  then have "int (sum_list (map (stored iters) ls)) \<le> int (length ls * iters)" by (rule zle_int[THEN iffD2])
  with inv in_section_unique[of in_section ls "held (ctr_lock g)"] show ?thesis
    by (auto simp: counter_inv_def)
qed

lemma counter_outcomes:
  assumes "\<not> held m"
  shows "outcomes (prog_step (increment_act lock unlock iters)) (increment_start m n iters) joined (\<lambda>s. ctr_x (snd s))
    = {int (n * iters)}"
proof -
  let ?step = "prog_step (increment_act lock unlock iters)"
  have res: "ctr_x (snd s) = int (n * iters)" if r: "?step\<^sup>*\<^sup>* (increment_start m n iters) s" "joined s" for s
  proof -
    have inv: "counter_inv held n iters s" using r(1) assms counter.inv_reachable by blast
    have "map (stored iters) (fst s) = map (\<lambda>_. iters) (fst s)"
      using r(2) by (auto simp: joined_def stored_def)
    then have "sum_list (map (stored iters) (fst s)) = sum_list (map (\<lambda>_. iters) (fst s))" by (rule arg_cong)
    then have "sum_list (map (stored iters) (fst s)) = length (fst s) * iters" by (simp only: sum_list_triv) simp
    with inv show ?thesis by (auto simp: counter_inv_def)
  qed
  have "\<exists>s. ?step\<^sup>*\<^sup>* (increment_start m n iters) s \<and> joined s"
    by (rule counter.reaches_final_inv) (rule counter_inv_start[OF assms])
  with res show ?thesis by (rule outcomes_unique)
qed

end

interpretation std_mutex: lock_contract mutex_lock mutex_unlock "\<lambda>m. m \<noteq> None"
  by unfold_locales (auto simp: mutex_lock_def mutex_unlock_def split: option.splits)

interpretation spin_lock: lock_contract Spinlock_lock Spinlock_unlock "\<lambda>m. m"
  by unfold_locales (auto simp: Spinlock_lock_def Spinlock_unlock_def)

section \<open>An atomic counter\<close>

text \<open>\<^verbatim>\<open>++x\<close> on \<^verbatim>\<open>std::atomic<int>\<close> is one action.\<close>

datatype atomic_pc = A_Increment nat | A_Done

definition atomic_next :: "nat \<Rightarrow> nat \<Rightarrow> atomic_pc" where
  "atomic_next iters i = (if i < iters then A_Increment i else A_Done)"

fun atomic_act :: "nat \<Rightarrow> nat \<Rightarrow> atomic_pc \<Rightarrow> int \<Rightarrow> (atomic_pc \<times> int) option" where
  "atomic_act iters t (A_Increment i) x = Some (atomic_next iters (i + 1), x + 1)"
| "atomic_act iters t A_Done x = None"

definition atomic_start :: "nat \<Rightarrow> nat \<Rightarrow> atomic_pc list \<times> int" where
  "atomic_start threads iters = (replicate threads (atomic_next iters 0), 0)"

definition atomic_run :: "int set" where
  "atomic_run = outcomes (prog_step (atomic_act 1000)) (atomic_start 2 1000) (\<lambda>s. \<forall>l\<in>set (fst s). l = A_Done) snd"

definition atomic_main :: "string set" where
  "atomic_main = printed 1000 2000 ''sum'' atomic_run"

definition atomic_left :: "nat \<Rightarrow> atomic_pc \<Rightarrow> nat" where
  "atomic_left iters l = (case l of A_Increment i \<Rightarrow> iters - i | A_Done \<Rightarrow> 0)"

definition atomic_inv :: "nat \<Rightarrow> nat \<Rightarrow> atomic_pc list \<times> int \<Rightarrow> bool" where
  "atomic_inv n iters s \<longleftrightarrow> (\<forall>l\<in>set (fst s). \<forall>i. l = A_Increment i \<longrightarrow> i < iters) \<and>
     snd s + int (sum_list (map (atomic_left iters) (fst s))) = int (n * iters)"

lemma atomic_act_left:
  assumes "atomic_act iters t l x = Some (l', x')" "\<And>i. l = A_Increment i \<Longrightarrow> i < iters"
  shows "x' = x + 1 \<and> Suc (atomic_left iters l') = atomic_left iters l \<and> (\<forall>i. l' = A_Increment i \<longrightarrow> i < iters)"
  using assms by (cases l) (auto simp: atomic_left_def atomic_next_def split: if_splits)

lemma atomic_inv_step:
  assumes "atomic_inv n iters s" "prog_step (atomic_act iters) s s'"
  shows "atomic_inv n iters s' \<and> sum_list (map (atomic_left iters) (fst s')) < sum_list (map (atomic_left iters) (fst s))"
proof -
  obtain ls x where s: "s = (ls, x)" by (cases s)
  with assms(2) obtain t l' x' where t: "t < length ls" and act: "atomic_act iters t (ls ! t) x = Some (l', x')"
    and s': "s' = (ls[t := l'], x')" by (auto elim: prog_stepE)
  have "\<And>i. ls ! t = A_Increment i \<Longrightarrow> i < iters" using assms(1) t nth_mem[OF t] by (auto simp: s atomic_inv_def)
  from atomic_act_left[OF act this]
  have eff: "x' = x + 1" "Suc (atomic_left iters l') = atomic_left iters (ls ! t)" "\<forall>i. l' = A_Increment i \<longrightarrow> i < iters"
    by blast+
  have sum: "Suc (sum_list (map (atomic_left iters) (ls[t := l']))) = sum_list (map (atomic_left iters) ls)"
    using sum_list_map_update[OF t, of "atomic_left iters" l'] eff(2) by simp
  moreover have "\<forall>l\<in>set (ls[t := l']). \<forall>i. l = A_Increment i \<longrightarrow> i < iters"
    using assms(1) eff(3) set_update_subset_insert[of ls t l'] by (auto simp: s atomic_inv_def)
  ultimately show ?thesis using assms(1) eff(1) by (simp add: s s' atomic_inv_def flip: sum)
qed

lemma atomic_progress:
  assumes "\<not> (\<forall>l\<in>set (fst s). l = A_Done)"
  shows "\<exists>s'. prog_step (atomic_act iters) s s'"
proof -
  obtain t i where "t < length (fst s)" "fst s ! t = A_Increment i"
    using assms by (metis atomic_pc.exhaust in_set_conv_nth)
  then have "prog_step (atomic_act iters) (fst s, snd s) ((fst s)[t := atomic_next iters (i + 1)], snd s + 1)"
    by (intro prog_stepI) auto
  then show ?thesis by auto
qed

interpretation atomic_counter: terminating_steps "\<lambda>s. s = atomic_start n iters" "prog_step (atomic_act iters)"
  "atomic_inv n iters" "\<lambda>s. \<forall>l\<in>set (fst s). l = A_Done" "\<lambda>s. sum_list (map (atomic_left iters) (fst s))" for n iters
proof unfold_locales
  show "s = atomic_start n iters \<Longrightarrow> atomic_inv n iters s" for s
    by (auto simp: atomic_inv_def atomic_start_def atomic_next_def atomic_left_def sum_list_replicate)
  show "\<not> (\<forall>l\<in>set (fst s). l = A_Done) \<Longrightarrow> \<exists>t. prog_step (atomic_act iters) s t" for s
    by (rule atomic_progress)
qed (rule atomic_inv_step[THEN conjunct1] atomic_inv_step[THEN conjunct2]; assumption)+

lemma atomic_outcomes:
  "outcomes (prog_step (atomic_act iters)) (atomic_start n iters) (\<lambda>s. \<forall>l\<in>set (fst s). l = A_Done) snd = {int (n * iters)}"
proof (rule outcomes_unique)
  fix s assume s: "(prog_step (atomic_act iters))\<^sup>*\<^sup>* (atomic_start n iters) s" "\<forall>l\<in>set (fst s). l = A_Done"
  then have "map (atomic_left iters) (fst s) = map (\<lambda>_. 0) (fst s)" by (auto simp: atomic_left_def)
  with atomic_counter.inv_reachable[OF refl s(1)] show "snd s = int (n * iters)"
    unfolding atomic_inv_def by simp
qed (rule atomic_counter.reaches_final[OF refl rtranclp.rtrancl_refl])

section \<open>A counter without synchronization\<close>

text \<open>
  \<^verbatim>\<open>++x\<close> on a plain \<^verbatim>\<open>int\<close>, as a load and a store that each take place at once. The language gives
  a program with this race no meaning at all; the results here are those of a machine whose \<^verbatim>\<open>int\<close>
  accesses do not tear and whose compiler translates each iteration as written.
\<close>

datatype racy_pc = R_Load nat | R_Store nat int | R_Done

definition racy_next :: "nat \<Rightarrow> nat \<Rightarrow> racy_pc" where
  "racy_next iters i = (if i < iters then R_Load i else R_Done)"

fun racy_act :: "nat \<Rightarrow> nat \<Rightarrow> racy_pc \<Rightarrow> int \<Rightarrow> (racy_pc \<times> int) option" where
  "racy_act iters t (R_Load i) x = Some (R_Store i x, x)"
| "racy_act iters t (R_Store i v) x = Some (racy_next iters (i + 1), v + 1)"
| "racy_act iters t R_Done x = None"

definition racy_start :: "nat \<Rightarrow> nat \<Rightarrow> racy_pc list \<times> int" where
  "racy_start threads iters = (replicate threads (racy_next iters 0), 0)"

definition racy_joined :: "racy_pc list \<times> int \<Rightarrow> bool" where
  "racy_joined s \<longleftrightarrow> (\<forall>l\<in>set (fst s). l = R_Done)"

definition data_race_run :: "int set" where
  "data_race_run = outcomes (prog_step (racy_act 1000)) (racy_start 2 1000) racy_joined snd"

definition data_race_main :: "string set" where
  "data_race_main = printed 1000 2000 ''sum'' data_race_run"

definition racy_stored :: "nat \<Rightarrow> racy_pc \<Rightarrow> nat" where
  "racy_stored iters l = (case l of R_Load i \<Rightarrow> i | R_Store i _ \<Rightarrow> i | R_Done \<Rightarrow> iters)"

abbreviation racy_sum :: "nat \<Rightarrow> racy_pc list \<Rightarrow> nat" where
  "racy_sum iters ls \<equiv> sum_list (map (racy_stored iters) ls)"

text \<open>
  A value is at most the number of stores so far, at least one after the first store, and the
  value stored in an iteration that is not the thread's first is at least two.
\<close>

definition racy_pc_ok :: "nat \<Rightarrow> nat \<Rightarrow> racy_pc \<Rightarrow> bool" where
  "racy_pc_ok iters tot l = (case l of R_Load i \<Rightarrow> i < iters
     | R_Store i v \<Rightarrow> i < iters \<and> 0 \<le> v \<and> v \<le> int tot \<and> (0 < i \<longrightarrow> 1 \<le> v) | R_Done \<Rightarrow> True)"

definition racy_inv :: "nat \<Rightarrow> nat \<Rightarrow> racy_pc list \<times> int \<Rightarrow> bool" where
  "racy_inv n iters s \<longleftrightarrow> (case s of (ls, x) \<Rightarrow> length ls = n \<and> 0 \<le> x \<and> x \<le> int (racy_sum iters ls) \<and>
     (0 < racy_sum iters ls \<longrightarrow> 1 \<le> x) \<and> (\<forall>i<length ls. racy_pc_ok iters (racy_sum iters ls) (ls ! i)) \<and>
     (racy_joined s \<longrightarrow> 2 \<le> x))"

lemma racy_stored_le: "t < length ls \<Longrightarrow> racy_stored iters (ls ! t) \<le> racy_sum iters ls"
  by (auto intro!: member_le_sum_list)

lemma racy_pc_ok_mono: "racy_pc_ok iters a l \<Longrightarrow> a \<le> b \<Longrightarrow> racy_pc_ok iters b l"
  by (auto simp: racy_pc_ok_def split: racy_pc.splits)

lemma racy_inv_step:
  assumes "racy_inv n iters s" "prog_step (racy_act iters) s s'" "2 \<le> iters"
  shows "racy_inv n iters s'"
proof -
  obtain ls x where s: "s = (ls, x)" by (cases s)
  with assms(2) obtain t l' x' where t: "t < length ls" and act: "racy_act iters t (ls ! t) x = Some (l', x')"
    and s': "s' = (ls[t := l'], x')" by (auto elim: prog_stepE)
  from assms(1) s have len: "length ls = n" and x: "0 \<le> x" "x \<le> int (racy_sum iters ls)"
    and one: "0 < racy_sum iters ls \<longrightarrow> 1 \<le> x"
    and ok: "\<And>i. i < length ls \<Longrightarrow> racy_pc_ok iters (racy_sum iters ls) (ls ! i)"
    by (auto simp: racy_inv_def)
  note sum = sum_list_map_update[OF t, of "racy_stored iters" l']
  have mono: "racy_sum iters ls \<le> racy_sum iters (ls[t := l'])"
    using sum act ok[OF t] by (cases "ls ! t") (auto simp: racy_stored_def racy_next_def racy_pc_ok_def split: if_splits)
  have mine: "racy_pc_ok iters (racy_sum iters (ls[t := l'])) l'"
    using act ok[OF t] x one mono racy_stored_le[OF t, of iters]
    by (cases "ls ! t") (auto simp: racy_pc_ok_def racy_next_def racy_stored_def split: if_splits)
  have all: "\<forall>j<length (ls[t := l']). racy_pc_ok iters (racy_sum iters (ls[t := l'])) (ls[t := l'] ! j)"
    using ok mono mine by (intro all_nth_update) (auto intro: racy_pc_ok_mono)
  have val: "0 \<le> x'" "x' \<le> int (racy_sum iters (ls[t := l']))" "0 < racy_sum iters (ls[t := l']) \<longrightarrow> 1 \<le> x'"
    using act ok[OF t] x one sum
    by (cases "ls ! t"; auto simp: racy_pc_ok_def racy_next_def racy_stored_def split: if_splits)+
  have "2 \<le> x'" if "racy_joined s'"
  proof -
    have "l' = R_Done" using that t by (auto simp: racy_joined_def s' set_update_memI)
    with act assms(3) ok[OF t] show ?thesis
      by (cases "ls ! t") (auto simp: racy_pc_ok_def racy_next_def split: if_splits)
  qed
  with len val all show ?thesis by (simp add: s' racy_inv_def)
qed

lemma racy_inv_start: "2 \<le> iters \<Longrightarrow> racy_inv (Suc n) iters (racy_start (Suc n) iters)"
  by (simp add: racy_inv_def racy_start_def racy_next_def racy_pc_ok_def racy_stored_def racy_joined_def sum_list_replicate
      del: replicate_Suc)

interpretation racy: step_invariant "\<lambda>s. s = racy_start (Suc n) (iters + 2)" "prog_step (racy_act (iters + 2))"
  "racy_inv (Suc n) (iters + 2)" for n iters
  by unfold_locales (simp add: racy_inv_start, rule racy_inv_step, auto)

text \<open>A thread that runs alone for some iterations.\<close>

lemma racy_solo:
  "t < length ls \<Longrightarrow> ls ! t = racy_next iters i \<Longrightarrow> i + j \<le> iters \<Longrightarrow>
   (prog_step (racy_act iters))\<^sup>*\<^sup>* (ls, x) (ls[t := racy_next iters (i + j)], x + int j)"
proof (induction j)
  case (Suc j)
  let ?ls = "ls[t := racy_next iters (i + j)]"
  have "run_schedule (racy_act iters) [t, t] (?ls, x + int j) = Some (ls[t := racy_next iters (i + Suc j)], x + int (Suc j))"
    using Suc.prems by (simp add: racy_next_def)
  then have "(prog_step (racy_act iters))\<^sup>*\<^sup>* (?ls, x + int j) (ls[t := racy_next iters (i + Suc j)], x + int (Suc j))"
    by (rule run_schedule_reachable)
  moreover have "(prog_step (racy_act iters))\<^sup>*\<^sup>* (ls, x) (?ls, x + int j)"
    using Suc by simp
  ultimately show ?case by (rule rtranclp_trans[rotated])
next
  case 0
  then have "ls[t := racy_next iters (i + 0)] = ls" by (metis add_0_right list_update_id)
  then show ?case by simp
qed

text \<open>
  Two schedules that give every possible result: the first thread's store of 1 wipes out what the
  second one did in the meantime, and then the second thread's last store of 2 does the same to the
  first.
\<close>

lemma racy_high:
  assumes "j \<le> k" "1 \<le> k"
  shows "(prog_step (racy_act k))\<^sup>*\<^sup>* (racy_start 2 k) ([R_Done, R_Done], int (2 * k - j))"
proof -
  let ?r = "(prog_step (racy_act k))\<^sup>*\<^sup>*"
  have "?r (racy_start 2 k) ([R_Store 0 0, racy_next k 0], 0)"
    using assms run_schedule_reachable[of "racy_act k" "[0]" "racy_start 2 k"]
    by (simp add: racy_start_def racy_next_def numeral_2_eq_2)
  also have "?r ([R_Store 0 0, racy_next k 0], 0) ([R_Store 0 0, racy_next k j], int j)"
    using racy_solo[of 1 "[R_Store 0 0, racy_next k 0]" k 0 j 0] assms by simp
  also have "?r ([R_Store 0 0, racy_next k j], int j) ([racy_next k 1, racy_next k j], 1)"
    using run_schedule_reachable[of "racy_act k" "[0]" "([R_Store 0 0, racy_next k j], int j)"] by simp
  also have "?r ([racy_next k 1, racy_next k j], 1) ([racy_next k k, racy_next k j], int k)"
    using racy_solo[of 0 "[racy_next k 1, racy_next k j]" k 1 "k - 1" 1] assms by (simp add: of_nat_diff)
  also have "?r ([racy_next k k, racy_next k j], int k) ([racy_next k k, racy_next k k], int k + int (k - j))"
    using racy_solo[of 1 "[racy_next k k, racy_next k j]" k j "k - j" "int k"] assms by simp
  finally show ?thesis using assms by (simp add: racy_next_def of_nat_diff)
qed

lemma racy_low:
  assumes "q < k" "2 \<le> k"
  shows "(prog_step (racy_act k))\<^sup>*\<^sup>* (racy_start 2 k) ([R_Done, R_Done], int (k + 1 - q))"
proof -
  let ?r = "(prog_step (racy_act k))\<^sup>*\<^sup>*"
  have "?r (racy_start 2 k) ([R_Store 0 0, racy_next k 0], 0)"
    using assms run_schedule_reachable[of "racy_act k" "[0]" "racy_start 2 k"]
    by (simp add: racy_start_def racy_next_def numeral_2_eq_2)
  also have "?r ([R_Store 0 0, racy_next k 0], 0) ([R_Store 0 0, racy_next k (k - 1)], int (k - 1))"
    using racy_solo[of 1 "[R_Store 0 0, racy_next k 0]" k 0 "k - 1" 0] assms by simp
  also have "?r ([R_Store 0 0, racy_next k (k - 1)], int (k - 1)) ([racy_next k 1, R_Store (k - 1) 1], 1)"
    using run_schedule_reachable[of "racy_act k" "[0, 1]" "([R_Store 0 0, racy_next k (k - 1)], int (k - 1))"] assms
    by (simp add: racy_next_def)
  also have "?r ([racy_next k 1, R_Store (k - 1) 1], 1) ([racy_next k (1 + q), R_Store (k - 1) 1], 1 + int q)"
    using racy_solo[of 0 "[racy_next k 1, R_Store (k - 1) 1]" k 1 q 1] assms by simp
  also have "?r ([racy_next k (1 + q), R_Store (k - 1) 1], 1 + int q) ([racy_next k (1 + q), racy_next k k], 2)"
    using run_schedule_reachable[of "racy_act k" "[1]" "([racy_next k (1 + q), R_Store (k - 1) 1], 1 + int q)"] assms by simp
  also have "?r ([racy_next k (1 + q), racy_next k k], 2) ([racy_next k k, racy_next k k], 2 + int (k - 1 - q))"
    using racy_solo[of 0 "[racy_next k (1 + q), racy_next k k]" k "1 + q" "k - 1 - q" 2] assms by simp
  finally show ?thesis using assms by (simp add: racy_next_def of_nat_diff algebra_simps)
qed

lemma racy_outcomes:
  assumes "2 \<le> k"
  shows "outcomes (prog_step (racy_act k)) (racy_start 2 k) racy_joined snd = {2..2 * int k}" (is "?L = ?R")
proof
  show "?L \<subseteq> ?R"
  proof
    fix x assume "x \<in> ?L"
    then obtain s where s: "(prog_step (racy_act k))\<^sup>*\<^sup>* (racy_start 2 k) s" "racy_joined s" "snd s = x"
      by (rule outcomesE)
    obtain i where k: "k = i + 2" using assms by (metis add.commute le_Suc_ex)
    have "racy_inv (Suc 1) (i + 2) s"
      by (rule racy.inv_reachable[OF refl]) (use s(1) k in \<open>simp add: numeral_2_eq_2\<close>)
    then have inv: "racy_inv 2 k s" using k by (simp add: numeral_2_eq_2)
    have "map (racy_stored k) (fst s) = map (\<lambda>_. k) (fst s)" using s(2) by (auto simp: racy_joined_def racy_stored_def)
    then have "racy_sum k (fst s) = sum_list (map (\<lambda>_. k) (fst s))" by (rule arg_cong)
    then have "racy_sum k (fst s) = length (fst s) * k" by (simp only: sum_list_triv) simp
    with inv s(2,3) show "x \<in> ?R" by (auto simp: racy_inv_def split: prod.splits)
  qed
  show "?R \<subseteq> ?L"
  proof
    fix x assume x: "x \<in> ?R"
    have joined: "racy_joined ([R_Done, R_Done], y)" for y by (simp add: racy_joined_def)
    show "x \<in> ?L"
    proof (cases "x < int k")
      case True
      with x racy_low[of "k + 1 - nat x" k] assms show ?thesis
        by (intro outcomesI[where t = "([R_Done, R_Done], x)"]) (auto simp: joined)
    next
      case False
      with x racy_high[of "2 * k - nat x" k] assms show ?thesis
        by (intro outcomesI[where t = "([R_Done, R_Done], x)"]) (auto simp: joined)
    qed
  qed
qed

section \<open>Checking before subtracting\<close>

text \<open>\<^verbatim>\<open>atomics/race_condition.cpp\<close>: the test \<^verbatim>\<open>x > 0\<close> and \<^verbatim>\<open>x -= 100\<close> are two atomic actions.\<close>

datatype decrement_pc = D_Test | D_Subtract | D_Done

fun decrement_act :: "nat \<Rightarrow> decrement_pc \<Rightarrow> int \<Rightarrow> (decrement_pc \<times> int) option" where
  "decrement_act t D_Test x = Some (if x > 0 then D_Subtract else D_Done, x)"
| "decrement_act t D_Subtract x = Some (D_Done, x - 100)"
| "decrement_act t D_Done x = None"

definition race_condition_run :: "int set" where
  "race_condition_run = outcomes (prog_step decrement_act) ([D_Test, D_Test], 100) (\<lambda>s. \<forall>l\<in>set (fst s). l = D_Done) snd"

definition race_condition_main :: "string set" where
  "race_condition_main = printed 10000 0 ''value'' race_condition_run"

text \<open>All states the two threads can be in.\<close>

definition decrement_states :: "(decrement_pc list \<times> int) set" where
  "decrement_states = {([D_Test, D_Test], 100), ([D_Subtract, D_Test], 100), ([D_Test, D_Subtract], 100),
     ([D_Subtract, D_Subtract], 100), ([D_Done, D_Test], 0), ([D_Test, D_Done], 0), ([D_Done, D_Subtract], 0),
     ([D_Subtract, D_Done], 0), ([D_Done, D_Done], 0), ([D_Done, D_Done], - 100)}"

lemma decrement_states_step:
  assumes "s \<in> decrement_states" "prog_step decrement_act s s'"
  shows "s' \<in> decrement_states"
proof -
  obtain a b x where s: "s = ([a, b], x)" using assms(1) by (auto simp: decrement_states_def)
  from assms(2)[unfolded s] obtain t l' x' where t: "t < length [a, b]"
    "decrement_act t ([a, b] ! t) x = Some (l', x')" "s' = ([a, b][t := l'], x')" by (rule prog_stepE)
  from t(1) consider "t = 0" | "t = 1" by (auto simp: less_Suc_eq)
  then show ?thesis
    using assms(1) t(2,3) by cases (cases a; cases b; auto simp: s decrement_states_def)+
qed

interpretation decrement: step_invariant "\<lambda>s. s = ([D_Test, D_Test], 100)" "prog_step decrement_act"
  "\<lambda>s. s \<in> decrement_states"
  by unfold_locales (simp add: decrement_states_def, rule decrement_states_step)

lemma race_condition_outcomes: "race_condition_run = {0, - 100}"
proof
  show "race_condition_run \<subseteq> {0, - 100}"
  proof
    fix x assume "x \<in> race_condition_run"
    then obtain s where s: "(prog_step decrement_act)\<^sup>*\<^sup>* ([D_Test, D_Test], 100) s" "\<forall>l\<in>set (fst s). l = D_Done" "snd s = x"
      unfolding race_condition_run_def by (rule outcomesE)
    from decrement.inv_reachable[OF refl s(1)] s(2,3) show "x \<in> {0, - 100}" by (auto simp: decrement_states_def)
  qed
  have "run_schedule decrement_act [0, 0, 1] ([D_Test, D_Test], 100) = Some ([D_Done, D_Done], 0)"
    "run_schedule decrement_act [0, 1, 0, 1] ([D_Test, D_Test], 100) = Some ([D_Done, D_Done], - 100)" by simp_all
  note runs = this[THEN run_schedule_reachable]
  have "0 \<in> race_condition_run" "- 100 \<in> race_condition_run"
    unfolding race_condition_run_def by (rule outcomesI[OF runs(1)]; simp) (rule outcomesI[OF runs(2)]; simp)
  then show "{0, - 100} \<subseteq> race_condition_run" by blast
qed

section \<open>Compare and exchange in a loop\<close>

text \<open>
  \<^verbatim>\<open>atomics/cas.cpp\<close>. A failed exchange, spurious or not, loads \<^verbatim>\<open>x\<close> into \<^verbatim>\<open>expected\<close>; a successful one
  leaves \<^verbatim>\<open>expected\<close> as it is, so the loop is entered once more. The choice is whether the weak
  exchange fails spuriously.
\<close>

datatype cas_pc = K_Load | K_Exchange int | K_Done

definition cas_loop :: "int \<Rightarrow> cas_pc" where
  "cas_loop expected = (if expected > 0 then K_Exchange expected else K_Done)"

fun cas_act :: "bool \<Rightarrow> nat \<Rightarrow> cas_pc \<Rightarrow> int \<Rightarrow> (cas_pc \<times> int) option" where
  "cas_act spurious t K_Load x = Some (cas_loop x, x)"
| "cas_act spurious t (K_Exchange expected) x =
     (if x = expected \<and> \<not> spurious then Some (cas_loop expected, expected - 100) else Some (cas_loop x, x))"
| "cas_act spurious t K_Done x = None"

definition cas_start :: "nat \<Rightarrow> cas_pc list \<times> int" where
  "cas_start threads = (replicate threads K_Load, 100)"

definition cas_joined :: "cas_pc list \<times> int \<Rightarrow> bool" where
  "cas_joined s \<longleftrightarrow> (\<forall>l\<in>set (fst s). l = K_Done)"

definition cas_run :: "int set" where
  "cas_run = outcomes (choice_step cas_act) (cas_start 2) cas_joined snd"

definition cas_main :: "string set" where
  "cas_main = printed 10000 0 ''value'' cas_run"

definition cas_inv :: "nat \<Rightarrow> cas_pc list \<times> int \<Rightarrow> bool" where
  "cas_inv n s \<longleftrightarrow> length (fst s) = n \<and> (snd s = 100 \<and> set (fst s) \<subseteq> {K_Load, K_Exchange 100} \<or>
     snd s = 0 \<and> set (fst s) \<subseteq> {K_Load, K_Exchange 100, K_Done})"

definition cas_weight :: "cas_pc \<Rightarrow> nat" where
  "cas_weight l = (case l of K_Load \<Rightarrow> 2 | K_Exchange _ \<Rightarrow> 1 | K_Done \<Rightarrow> 0)"

definition cas_rank :: "cas_pc list \<times> int \<Rightarrow> nat" where
  "cas_rank s = sum_list (map cas_weight (fst s)) + (if snd s = 100 then 1 else 0)"

lemma cas_inv_step:
  assumes "cas_inv n s" "choice_step cas_act s s'"
  shows "cas_inv n s'"
proof -
  obtain ls x where s: "s = (ls, x)" by (cases s)
  with assms(2) obtain t c l' x' where t: "t < length ls" and act: "cas_act c t (ls ! t) x = Some (l', x')"
    and s': "s' = (ls[t := l'], x')" by (auto elim: choice_stepE)
  have mem: "ls ! t \<in> set ls" using t by simp
  note up = set_update_subset_insert[of ls t l']
  from assms(1) consider (high) "x = 100" "set ls \<subseteq> {K_Load, K_Exchange 100}"
    | (low) "x = 0" "set ls \<subseteq> {K_Load, K_Exchange 100, K_Done}" by (auto simp: cas_inv_def s)
  then show ?thesis
  proof cases
    case high
    with mem have "ls ! t = K_Load \<or> ls ! t = K_Exchange 100" by blast
    with act high have "l' = K_Exchange 100" "x' = 100 \<or> x' = 0" by (auto simp: cas_loop_def split: if_splits)
    with high up assms(1) show ?thesis by (auto simp: cas_inv_def s s')
  next
    case low
    with mem have "ls ! t = K_Load \<or> ls ! t = K_Exchange 100 \<or> ls ! t = K_Done" by blast
    with act low have "l' = K_Done" "x' = 0" by (auto simp: cas_loop_def split: if_splits)
    with low up assms(1) show ?thesis by (auto simp: cas_inv_def s s')
  qed
qed

lemma cas_advance:
  assumes "cas_inv n s" "\<not> cas_joined s"
  shows "\<exists>s'. choice_step cas_act s s' \<and> cas_rank s' < cas_rank s"
proof -
  obtain ls x where s: "s = (ls, x)" by (cases s)
  with assms(2) obtain t where t: "t < length ls" "ls ! t \<noteq> K_Done" by (auto simp: cas_joined_def in_set_conv_nth)
  have "ls ! t \<in> set ls" using t by simp
  with assms(1) t(2) have "ls ! t = K_Load \<or> ls ! t = K_Exchange 100" "x = 100 \<or> x = 0"
    by (auto simp: cas_inv_def s)
  then have "\<exists>l' x'. cas_act False t (ls ! t) x = Some (l', x')
      \<and> cas_weight l' + (if x' = 100 then 1 else 0) < cas_weight (ls ! t) + (if x = 100 then 1 else 0)"
    by (elim disjE) (simp_all add: cas_loop_def cas_weight_def)
  then obtain l' x' where a: "cas_act False t (ls ! t) x = Some (l', x')"
    and less: "cas_weight l' + (if x' = 100 then 1 else 0) < cas_weight (ls ! t) + (if x = 100 then 1 else 0)" by blast
  have "cas_rank (ls[t := l'], x') < cas_rank s"
    using sum_list_map_update[OF t(1), of cas_weight l'] less by (simp add: cas_rank_def s)
  moreover have "choice_step cas_act s (ls[t := l'], x')" unfolding s using t(1) a by (rule choice_stepI)
  ultimately show ?thesis by blast
qed

interpretation cas: finishing_steps "\<lambda>s. s = cas_start n" "choice_step cas_act" "cas_inv n" cas_joined cas_rank for n
proof unfold_locales
  show "s = cas_start n \<Longrightarrow> cas_inv n s" for s by (auto simp: cas_start_def cas_inv_def)
qed (rule cas_inv_step cas_advance; assumption)+

lemma cas_outcomes:
  assumes "0 < n"
  shows "outcomes (choice_step cas_act) (cas_start n) cas_joined snd = {0}"
proof (rule outcomes_unique)
  fix s assume s: "(choice_step cas_act)\<^sup>*\<^sup>* (cas_start n) s" "cas_joined s"
  from cas.inv_reachable[OF refl s(1)] s(2) assms show "snd s = 0"
    by (cases "fst s") (auto simp: cas_inv_def cas_joined_def)
qed (rule cas.reaches_final[OF refl rtranclp.rtrancl_refl])

section \<open>The operations of an atomic variable\<close>

text \<open>
  The operations of \<^verbatim>\<open>std::atomic<int>\<close> that \<^verbatim>\<open>atomics/atomic_operations.cpp\<close> shows, on the variable's
  value. An exchange that compares returns whether it was made, the new \<^verbatim>\<open>expected\<close> and the new value;
  a weak one may also fail without a reason.
\<close>

definition exchange :: "int \<Rightarrow> int \<Rightarrow> int \<times> int" where
  "exchange x desired = (x, desired)"

definition fetch_add :: "int \<Rightarrow> int \<Rightarrow> int \<times> int" where
  "fetch_add x d = (x, x + d)"

definition fetch_sub :: "int \<Rightarrow> int \<Rightarrow> int \<times> int" where
  "fetch_sub x d = (x, x - d)"

definition compare_exchange_weak :: "bool \<Rightarrow> int \<Rightarrow> int \<Rightarrow> int \<Rightarrow> bool \<times> int \<times> int" where
  "compare_exchange_weak spurious x expected desired =
     (if x = expected \<and> \<not> spurious then (True, expected, desired) else (False, x, x))"

definition compare_exchange_strong :: "int \<Rightarrow> int \<Rightarrow> int \<Rightarrow> bool \<times> int \<times> int" where
  "compare_exchange_strong = compare_exchange_weak False"

definition format_bool :: "bool \<Rightarrow> string" where
  "format_bool b = (if b then ''true'' else ''false'')"

definition before_after :: "string \<Rightarrow> int \<times> int \<Rightarrow> string" where
  "before_after name r = ''Before '' @ name @ '': '' @ decimal_int (fst r) @ '', after '' @ name @ '': '' @ decimal_int (snd r)"

definition actual_exchanged :: "bool \<times> int \<times> int \<Rightarrow> string" where
  "actual_exchanged r = ''Actual value: '' @ decimal_int (fst (snd r)) @ '', exchanged: '' @ format_bool (fst r)"

text \<open>The program's lines; the arguments tell which of its two weak exchanges fail spuriously.\<close>

definition atomic_operations_main :: "bool \<Rightarrow> bool \<Rightarrow> string list" where
  "atomic_operations_main spurious1 spurious2 =
     (let x = 100;
          lines1 = [''Initial value:'' @ decimal_int x, ''Initial value: '' @ decimal_int x];
          x = 1337;
          lines2 = [''Value after assignment: '' @ decimal_int x];
          x = 228;
          lines3 = [''Value after store: '' @ decimal_int x];
          (previousValue, x) = exchange x 322;
          lines4 = [before_after ''exchange'' (previousValue, x)];
          (previousValue, x) = fetch_add x 1;
          lines5 = [before_after ''fetch_add'' (previousValue, x)];
          (previousValue, x) = fetch_sub x 10;
          lines6 = [before_after ''fetch_sub'' (previousValue, x)];
          expected = 0;
          (exchanged, expected, x) = compare_exchange_strong x expected 322;
          lines7 = [actual_exchanged (exchanged, expected, x)];
          (exchanged, expected, x) = compare_exchange_strong x expected 322;
          lines8 = [actual_exchanged (exchanged, expected, x)];
          expected = 0;
          (exchanged, expected, x) = compare_exchange_weak spurious1 x expected 322;
          lines9 = [actual_exchanged (exchanged, expected, x)];
          (exchanged, expected, x) = compare_exchange_weak spurious2 x expected 322;
          lines10 = [actual_exchanged (exchanged, expected, x)]
      in lines1 @ lines2 @ lines3 @ lines4 @ lines5 @ lines6 @ lines7 @ lines8 @ lines9 @ lines10)"

section \<open>Claims\<close>

text \<open>
  C8. The programs with a mutex, with the spin lock and with an atomic variable always print that
  all 1000 sums were correct: every run that ends leaves 2000 in the variable, and every run can be
  brought to its end. The same holds of the compare-and-exchange program and its 10000 values.
\<close>

theorem synchronized_programs_print:
  "mutex_main = {''Correct sum: 1000, incorrect sum: 0''} \<and> spinlock_main = {''Correct sum: 1000, incorrect sum: 0''}
   \<and> atomic_main = {''Correct sum: 1000, incorrect sum: 0''} \<and> cas_main = {''Correct value: 10000, incorrect value: 0''}"
proof -
  have "mutex_run = {2000}" "spinlock_run = {2000}" "atomic_run = {2000}" "cas_run = {0}"
    unfolding mutex_run_def spinlock_run_def atomic_run_def cas_run_def
    by (simp_all add: std_mutex.counter_outcomes spin_lock.counter_outcomes atomic_outcomes cas_outcomes)
  then show ?thesis
    by (simp add: mutex_main_def spinlock_main_def atomic_main_def cas_main_def printed_always report_def decimal.simps
        char_of_digits)
qed

text \<open>
  C9. The lock interface: whatever the number of threads and iterations, no two threads are between
  \<^verbatim>\<open>lock\<close> and \<^verbatim>\<open>unlock\<close> at the same time, for the mutex and for the spin lock, and the counter stays
  between 0 and the number of increments, so that it does not overflow while that number is an \<^verbatim>\<open>int\<close>.
\<close>

theorem lock_mutual_exclusion:
  assumes "n * iters < 2 ^ 31"
    and "(prog_step (increment_act mutex_lock mutex_unlock iters))\<^sup>*\<^sup>* (increment_start None n iters) (ls, g)"
    and "(prog_step (increment_act Spinlock_lock Spinlock_unlock iters))\<^sup>*\<^sup>* (increment_start False n iters) (ks, h)"
  shows "(\<forall>i<n. \<forall>j<n. in_section (ls ! i) \<and> in_section (ls ! j) \<longrightarrow> i = j) \<and> 0 \<le> ctr_x g \<and> ctr_x g < 2 ^ 31
    \<and> (\<forall>i<n. \<forall>j<n. in_section (ks ! i) \<and> in_section (ks ! j) \<longrightarrow> i = j) \<and> 0 \<le> ctr_x h \<and> ctr_x h < 2 ^ 31"
proof -
  have "int (n * iters) < int (2 ^ 31)" using assms(1) by (simp only: of_nat_less_iff)
  then have le: "int (n * iters) < 2 ^ 31" by simp
  have "(\<forall>i<n. \<forall>j<n. in_section (ls ! i) \<and> in_section (ls ! j) \<longrightarrow> i = j) \<and> 0 \<le> ctr_x g \<and> ctr_x g < 2 ^ 31"
    using std_mutex.counter_bounds[OF assms(2)] le by fastforce
  moreover have "(\<forall>i<n. \<forall>j<n. in_section (ks ! i) \<and> in_section (ks ! j) \<longrightarrow> i = j) \<and> 0 \<le> ctr_x h \<and> ctr_x h < 2 ^ 31"
    using spin_lock.counter_bounds[OF assms(3)] le by fastforce
  ultimately show ?thesis by blast
qed

theorem lock_mutual_exclusion_witness:
  "\<exists>ls g ks h. run_schedule (increment_act mutex_lock mutex_unlock 1) [0, 0, 0] (increment_start None 2 1) = Some (ls, g)
     \<and> in_section (ls ! 0) \<and> \<not> in_section (ls ! 1)
     \<and> run_schedule (increment_act Spinlock_lock Spinlock_unlock 1) [0, 0, 1, 0] (increment_start False 2 1) = Some (ks, h)
     \<and> in_section (ks ! 0) \<and> \<not> in_section (ks ! 1) \<and> ctr_x g < 2 ^ 31 \<and> ctr_x h < 2 ^ 31"
proof -
  obtain ls g ks h where
    r1: "run_schedule (increment_act mutex_lock mutex_unlock 1) [0, 0, 0] (increment_start None 2 1) = Some (ls, g)"
    and r2: "run_schedule (increment_act Spinlock_lock Spinlock_unlock 1) [0, 0, 1, 0] (increment_start False 2 1) = Some (ks, h)"
    and in0: "in_section (ls ! 0)" "in_section (ks ! 0)"
    by (simp add: increment_start_def next_iteration_def mutex_lock_def Spinlock_lock_def numeral_2_eq_2 in_section_def)
  note ex = lock_mutual_exclusion[OF _ run_schedule_reachable[OF r1] run_schedule_reachable[OF r2]]
  have "\<forall>i<2. \<forall>j<2. in_section (ls ! i) \<and> in_section (ls ! j) \<longrightarrow> i = j"
    "\<forall>i<2. \<forall>j<2. in_section (ks ! i) \<and> in_section (ks ! j) \<longrightarrow> i = j" "ctr_x g < 2 ^ 31" "ctr_x h < 2 ^ 31"
    using ex by simp_all
  moreover from this(1)[rule_format, of 0 1] this(2)[rule_format, of 0 1] in0
  have "\<not> in_section (ls ! 1)" "\<not> in_section (ks ! 1)" by auto
  ultimately show ?thesis using r1 r2 in0 by blast
qed

text \<open>
  C28. Without synchronization a run can end with every value from 2 to 2000, and with no other, so
  that the program can print any number of correct sums; when the test and the subtraction are two
  actions the value can end as 0 and as -100, and with no other.
\<close>

theorem racy_programs_print:
  "data_race_run = {2..2000} \<and> data_race_main = {report ''sum'' (c, 1000 - c) | c. c \<le> 1000}
   \<and> race_condition_run = {0, - 100} \<and> race_condition_main = {report ''value'' (c, 10000 - c) | c. c \<le> 10000}"
proof -
  have 1: "data_race_run = {2..2000}" unfolding data_race_run_def by (simp add: racy_outcomes)
  have 2: "data_race_main = {report ''sum'' (c, 1000 - c) | c. c \<le> 1000}"
    unfolding data_race_main_def by (rule printed_sometimes[where y = 2]) (simp_all add: 1)
  have "race_condition_main = {report ''value'' (c, 10000 - c) | c. c \<le> 10000}"
    unfolding race_condition_main_def by (rule printed_sometimes[where y = "- 100"]) (simp_all add: race_condition_outcomes)
  with 1 2 race_condition_outcomes show ?thesis by blast
qed

text \<open>
  What the program of the atomic operations prints, whatever the weak exchanges do: only its last
  line depends on whether the last exchange fails spuriously.
\<close>

lemma atomic_operations_print:
  "atomic_operations_main spurious1 spurious2 =
     [''Initial value:100'', ''Initial value: 100'', ''Value after assignment: 1337'', ''Value after store: 228'',
      ''Before exchange: 228, after exchange: 322'', ''Before fetch_add: 322, after fetch_add: 323'',
      ''Before fetch_sub: 323, after fetch_sub: 313'', ''Actual value: 313, exchanged: false'',
      ''Actual value: 313, exchanged: true'', ''Actual value: 322, exchanged: false'',
      if spurious2 then ''Actual value: 322, exchanged: false'' else ''Actual value: 322, exchanged: true'']"
  by (simp add: atomic_operations_main_def exchange_def fetch_add_def fetch_sub_def compare_exchange_strong_def
      compare_exchange_weak_def before_after_def actual_exchanged_def decimal_int_def format_bool_def decimal.simps char_of_digits)

end
