(* ===== verification/CV_Lock.thy ===== *)
theory CV_Lock
  imports Counters
begin

text \<open>
  The lock of \<^verbatim>\<open>condition_variable/condvar_intro.cpp\<close>, made of a mutex and a condition variable, and
  the counter program around it. The lemmas show that no wake-up is lost and every run ends, and
  that the lock does not exclude: \<^verbatim>\<open>lock\<close> waits under an \<^verbatim>\<open>if\<close> and does not look at \<^verbatim>\<open>m_locked\<close> again
  after it was woken.
\<close>

section \<open>The lock and the program\<close>

datatype cv_phase =
    P_Lock          \<comment> \<open>\<^verbatim>\<open>std::unique_lock lock{m_mtx}\<close> in \<^verbatim>\<open>lock\<close>\<close>
  | P_Check         \<comment> \<open>\<^verbatim>\<open>m_locked == true\<close>; \<^verbatim>\<open>wait\<close> releases the mutex and goes to sleep at once\<close>
  | P_Wait          \<comment> \<open>asleep in \<^verbatim>\<open>wait\<close>, or woken\<close>
  | P_Relock        \<comment> \<open>\<^verbatim>\<open>wait\<close> takes the mutex again\<close>
  | P_Set           \<comment> \<open>\<^verbatim>\<open>m_locked = true\<close>\<close>
  | P_Leave         \<comment> \<open>the mutex is released at the end of \<^verbatim>\<open>lock\<close>\<close>
  | P_Load
  | P_Store int
  | P_Unlock        \<comment> \<open>\<^verbatim>\<open>std::unique_lock lock{m_mtx}\<close> in \<^verbatim>\<open>unlock\<close>\<close>
  | P_Clear         \<comment> \<open>\<^verbatim>\<open>m_locked = false\<close>\<close>
  | P_Notify        \<comment> \<open>\<^verbatim>\<open>notify_one\<close>\<close>
  | P_Exit          \<comment> \<open>the mutex is released at the end of \<^verbatim>\<open>unlock\<close>\<close>
  | P_Done

record cv_shared =
  m_mtx :: "nat option"
  asleep :: "nat set"              \<comment> \<open>the threads that wait for \<^verbatim>\<open>m_mutexUnlocked\<close>\<close>
  m_locked :: bool
  cv_x :: int

text \<open>The environment chooses whether a sleeper wakes up for no reason and whom \<^verbatim>\<open>notify_one\<close> wakes.\<close>

record cv_choice =
  wake_up :: bool
  woken :: nat

definition take_mtx :: "nat \<Rightarrow> nat \<times> cv_phase \<Rightarrow> cv_shared \<Rightarrow> ((nat \<times> cv_phase) \<times> cv_shared) option" where
  "take_mtx t l g = (if m_mtx g = None then Some (l, g\<lparr>m_mtx := Some t\<rparr>) else None)"

definition cv_next :: "nat \<Rightarrow> nat \<Rightarrow> nat \<times> cv_phase" where
  "cv_next iters i = (i, if i < iters then P_Lock else P_Done)"

definition cv_act ::
  "nat \<Rightarrow> cv_choice \<Rightarrow> nat \<Rightarrow> nat \<times> cv_phase \<Rightarrow> cv_shared \<Rightarrow> ((nat \<times> cv_phase) \<times> cv_shared) option" where
  "cv_act iters c t l g = (let i = fst l in
     case snd l of
       P_Lock \<Rightarrow> take_mtx t (i, P_Check) g
     | P_Check \<Rightarrow>
         Some (if m_locked g then ((i, P_Wait), g\<lparr>m_mtx := None, asleep := insert t (asleep g)\<rparr>) else ((i, P_Set), g))
     | P_Wait \<Rightarrow>
         (if t \<notin> asleep g then Some ((i, P_Relock), g)
          else if wake_up c then Some ((i, P_Relock), g\<lparr>asleep := asleep g - {t}\<rparr>) else None)
     | P_Relock \<Rightarrow> take_mtx t (i, P_Set) g
     | P_Set \<Rightarrow> Some ((i, P_Leave), g\<lparr>m_locked := True\<rparr>)
     | P_Leave \<Rightarrow> Some ((i, P_Load), g\<lparr>m_mtx := None\<rparr>)
     | P_Load \<Rightarrow> Some ((i, P_Store (cv_x g)), g)
     | P_Store v \<Rightarrow> Some ((i, P_Unlock), g\<lparr>cv_x := v + 1\<rparr>)
     | P_Unlock \<Rightarrow> take_mtx t (i, P_Clear) g
     | P_Clear \<Rightarrow> Some ((i, P_Notify), g\<lparr>m_locked := False\<rparr>)
     | P_Notify \<Rightarrow>
         (if asleep g = {} then Some ((i, P_Exit), g)
          else if woken c \<in> asleep g then Some ((i, P_Exit), g\<lparr>asleep := asleep g - {woken c}\<rparr>) else None)
     | P_Exit \<Rightarrow> Some (cv_next iters (i + 1), g\<lparr>m_mtx := None\<rparr>)
     | P_Done \<Rightarrow> None)"

definition cv_start :: "nat \<Rightarrow> nat \<Rightarrow> (nat \<times> cv_phase) list \<times> cv_shared" where
  "cv_start threads iters =
     (replicate threads (cv_next iters 0), \<lparr>m_mtx = None, asleep = {}, m_locked = False, cv_x = 0\<rparr>)"

definition cv_joined :: "(nat \<times> cv_phase) list \<times> cv_shared \<Rightarrow> bool" where
  "cv_joined s \<longleftrightarrow> (\<forall>l\<in>set (fst s). snd l = P_Done)"

definition condvar_run :: "int set" where
  "condvar_run = outcomes (choice_step (cv_act 1000)) (cv_start 2 1000) cv_joined (\<lambda>s. cv_x (snd s))"

definition condvar_main :: "string set" where
  "condvar_main = printed 1000 2000 ''sum'' condvar_run"

section \<open>No lost wake-up\<close>

definition has_mtx :: "cv_phase \<Rightarrow> bool" where
  "has_mtx p \<longleftrightarrow> p \<in> {P_Check, P_Set, P_Leave, P_Clear, P_Notify, P_Exit}"

text \<open>The threads that have set \<^verbatim>\<open>m_locked\<close> and not cleared it, and those that will call \<^verbatim>\<open>notify_one\<close>.\<close>

definition inside :: "cv_phase \<Rightarrow> bool" where
  "inside p = (case p of P_Leave \<Rightarrow> True | P_Load \<Rightarrow> True | P_Store _ \<Rightarrow> True | P_Unlock \<Rightarrow> True | P_Clear \<Rightarrow> True | _ \<Rightarrow> False)"

definition will_notify :: "nat set \<Rightarrow> nat \<Rightarrow> cv_phase \<Rightarrow> bool" where
  "will_notify sleepers t p \<longleftrightarrow>
     inside p \<or> p = P_Relock \<or> p = P_Set \<or> p = P_Notify \<or> p = P_Wait \<and> t \<notin> sleepers"

definition cv_inv :: "nat \<Rightarrow> (nat \<times> cv_phase) list \<times> cv_shared \<Rightarrow> bool" where
  "cv_inv iters s \<longleftrightarrow> (case s of (ls, g) \<Rightarrow>
     (\<forall>t<length ls. (m_mtx g = Some t \<longleftrightarrow> has_mtx (snd (ls ! t)))) \<and>
     (\<forall>t. m_mtx g = Some t \<longrightarrow> t < length ls) \<and>
     (\<forall>t\<in>asleep g. t < length ls \<and> snd (ls ! t) = P_Wait) \<and>
     (m_locked g \<longrightarrow> (\<exists>t<length ls. inside (snd (ls ! t)))) \<and>
     (asleep g \<noteq> {} \<longrightarrow> (\<exists>t<length ls. will_notify (asleep g) t (snd (ls ! t)))) \<and>
     (\<forall>t<length ls. fst (ls ! t) < iters \<or> snd (ls ! t) = P_Done))"

lemma cv_invD:
  assumes "cv_inv iters (ls, g)"
  shows "\<And>t. t < length ls \<Longrightarrow> m_mtx g = Some t \<longleftrightarrow> has_mtx (snd (ls ! t))"
    "\<And>t. m_mtx g = Some t \<Longrightarrow> t < length ls"
    "\<And>t. t \<in> asleep g \<Longrightarrow> t < length ls \<and> snd (ls ! t) = P_Wait"
    "m_locked g \<Longrightarrow> \<exists>t<length ls. inside (snd (ls ! t))"
    "asleep g \<noteq> {} \<Longrightarrow> \<exists>t<length ls. will_notify (asleep g) t (snd (ls ! t))"
    "\<And>t. t < length ls \<Longrightarrow> fst (ls ! t) < iters \<or> snd (ls ! t) = P_Done"
  using assms by (auto simp: cv_inv_def)

text \<open>What an action of thread \<open>t\<close> does to each part of the state.\<close>

lemma cv_act_mtx:
  assumes "cv_act iters c t l g = Some (l', g')" "m_mtx g = Some t \<longleftrightarrow> has_mtx (snd l)"
  shows "m_mtx g' = Some t \<longleftrightarrow> has_mtx (snd l')"
    "u \<noteq> t \<Longrightarrow> m_mtx g' = Some u \<longleftrightarrow> m_mtx g = Some u"
  using assms by (cases "snd l"; auto simp: cv_act_def Let_def take_mtx_def has_mtx_def cv_next_def split: if_splits)+

lemma cv_act_asleep:
  assumes "cv_act iters c t l g = Some (l', g')" "u \<in> asleep g'"
  shows "if u = t then snd l' = P_Wait \<or> (t \<in> asleep g \<and> snd l \<noteq> P_Wait) else u \<in> asleep g"
  using assms by (cases "snd l") (auto simp: cv_act_def Let_def take_mtx_def split: if_splits)

lemma cv_act_locked:
  assumes "cv_act iters c t l g = Some (l', g')" "m_locked g'"
  shows "inside (snd l') \<or> (m_locked g \<and> \<not> inside (snd l))"
  using assms by (cases "snd l") (auto simp: cv_act_def Let_def take_mtx_def inside_def cv_next_def split: if_splits)

lemma cv_act_notify:
  assumes "cv_act iters c t l g = Some (l', g')" "asleep g' \<noteq> {}"
  shows "will_notify (asleep g') t (snd l')
    \<or> (snd l = P_Notify \<and> woken c \<in> asleep g \<and> asleep g' = asleep g - {woken c})
    \<or> (snd l = P_Check \<and> m_locked g \<and> asleep g' = insert t (asleep g))
    \<or> (asleep g' = asleep g \<and> \<not> will_notify (asleep g) t (snd l))"
  using assms by (cases "snd l")
    (auto simp: cv_act_def Let_def take_mtx_def will_notify_def inside_def cv_next_def split: if_splits)

lemma cv_inv_step:
  assumes "cv_inv iters s" "choice_step (cv_act iters) s s'"
  shows "cv_inv iters s'"
proof -
  obtain ls g where s: "s = (ls, g)" by (cases s)
  with assms(2) obtain t c l' g' where t: "t < length ls" and act: "cv_act iters c t (ls ! t) g = Some (l', g')"
    and s': "s' = (ls[t := l'], g')" by (auto elim: choice_stepE)
  let ?ls = "ls[t := l']"
  note D = cv_invD[OF assms(1)[unfolded s]]
  note mtx = cv_act_mtx[OF act D(1)[OF t]]
  have "\<forall>u<length ?ls. (m_mtx g' = Some u \<longleftrightarrow> has_mtx (snd (?ls ! u)))"
    by (rule all_nth_update[where P = "\<lambda>u l. (m_mtx g' = Some u) = has_mtx (snd l)"]) (use mtx D(1) in auto)
  moreover have "\<forall>u. m_mtx g' = Some u \<longrightarrow> u < length ?ls" using mtx(2) D(2) t by (metis length_list_update)
  moreover have "\<forall>u\<in>asleep g'. u < length ?ls \<and> snd (?ls ! u) = P_Wait"
  proof
    fix u assume "u \<in> asleep g'"
    from cv_act_asleep[OF act this] D(3) t show "u < length ?ls \<and> snd (?ls ! u) = P_Wait"
      by (cases "u = t") auto
  qed
  moreover have "m_locked g' \<longrightarrow> (\<exists>u<length ?ls. inside (snd (?ls ! u)))"
  proof
    assume "m_locked g'"
    from cv_act_locked[OF act this] show "\<exists>u<length ?ls. inside (snd (?ls ! u))"
      using D(4) t by (metis length_list_update nth_list_update_eq nth_list_update_neq)
  qed
  moreover have "asleep g' \<noteq> {} \<longrightarrow> (\<exists>u<length ?ls. will_notify (asleep g') u (snd (?ls ! u)))"
  proof
    assume ne: "asleep g' \<noteq> {}"
    from cv_act_notify[OF act ne] consider (self) "will_notify (asleep g') t (snd l')"
      | (notify) "snd (ls ! t) = P_Notify" "woken c \<in> asleep g" "asleep g' = asleep g - {woken c}"
      | (check) "snd (ls ! t) = P_Check" "m_locked g" "asleep g' = insert t (asleep g)"
      | (other) "asleep g' = asleep g" "\<not> will_notify (asleep g) t (snd (ls ! t))" by blast
    then show "\<exists>u<length ?ls. will_notify (asleep g') u (snd (?ls ! u))"
    proof cases
      case self
      then show ?thesis using t by (intro exI[of _ t]) simp
    next
      case notify
      from D(3)[OF notify(2)] have w: "woken c < length ls" "snd (ls ! woken c) = P_Wait" by blast+
      with notify(1) have "woken c \<noteq> t" by auto
      with w notify(3) show ?thesis by (intro exI[of _ "woken c"]) (simp add: will_notify_def)
    next
      case check
      from D(4)[OF check(2)] obtain u where u: "u < length ls" "inside (snd (ls ! u))" by blast
      with check(1) have "u \<noteq> t" by (auto simp: inside_def)
      with u show ?thesis by (intro exI[of _ u]) (simp add: will_notify_def)
    next
      case other
      from D(5)[OF ne[unfolded other(1)]] obtain u where u: "u < length ls" "will_notify (asleep g) u (snd (ls ! u))"
        by blast
      with other(2) have "u \<noteq> t" by auto
      with u other(1) show ?thesis by (intro exI[of _ u]) simp
    qed
  qed
  moreover have "\<forall>u<length ?ls. fst (?ls ! u) < iters \<or> snd (?ls ! u) = P_Done"
  proof (rule all_nth_update)
    show "fst l' < iters \<or> snd l' = P_Done"
      using act D(6)[OF t] by (cases "snd (ls ! t)") (auto simp: cv_act_def Let_def take_mtx_def cv_next_def split: if_splits)
  qed (use D(6) in blast)
  ultimately show ?thesis by (simp add: s' cv_inv_def)
qed

lemma cv_inv_start: "cv_inv iters (cv_start n iters)"
  by (auto simp: cv_inv_def cv_start_def has_mtx_def cv_next_def)

section \<open>Every run ends\<close>

definition position :: "cv_phase \<Rightarrow> nat" where
  "position p = (case p of P_Lock \<Rightarrow> 0 | P_Check \<Rightarrow> 1 | P_Wait \<Rightarrow> 2 | P_Relock \<Rightarrow> 3 | P_Set \<Rightarrow> 4 | P_Leave \<Rightarrow> 5 | P_Load \<Rightarrow> 6
     | P_Store _ \<Rightarrow> 7 | P_Unlock \<Rightarrow> 8 | P_Clear \<Rightarrow> 9 | P_Notify \<Rightarrow> 10 | P_Exit \<Rightarrow> 11 | P_Done \<Rightarrow> 12)"

definition cv_left :: "nat \<Rightarrow> nat \<times> cv_phase \<Rightarrow> nat" where
  "cv_left iters l = (if snd l = P_Done then 0 else 12 * (iters - fst l) - position (snd l))"

definition cv_rank :: "nat \<Rightarrow> (nat \<times> cv_phase) list \<times> cv_shared \<Rightarrow> nat" where
  "cv_rank iters s = sum_list (map (cv_left iters) (fst s))"

lemma cv_act_left:
  assumes "cv_act iters c t l g = Some (l', g')" "fst l < iters \<or> snd l = P_Done"
  shows "cv_left iters l' < cv_left iters l"
  using assms by (cases "snd l")
    (auto simp: cv_act_def Let_def take_mtx_def cv_left_def cv_next_def position_def split: if_splits)

lemma cv_rank_step:
  assumes "cv_inv iters s" "choice_step (cv_act iters) s s'"
  shows "cv_rank iters s' < cv_rank iters s"
proof -
  obtain ls g where s: "s = (ls, g)" by (cases s)
  with assms(2) obtain t c l' g' where t: "t < length ls" and act: "cv_act iters c t (ls ! t) g = Some (l', g')"
    and s': "s' = (ls[t := l'], g')" by (auto elim: choice_stepE)
  from cv_act_left[OF act cv_invD(6)[OF assms(1)[unfolded s] t]] sum_list_map_update[OF t, of "cv_left iters" l']
  show ?thesis by (simp add: s s' cv_rank_def)
qed

lemma cv_progress:
  assumes "cv_inv iters s" "\<not> cv_joined s"
  shows "\<exists>s'. choice_step (cv_act iters) s s'"
proof -
  obtain ls g where s: "s = (ls, g)" by (cases s)
  note D = cv_invD[OF assms(1)[unfolded s]]
  obtain t where t: "t < length ls" "snd (ls ! t) \<noteq> P_Done" "snd (ls ! t) = P_Wait \<Longrightarrow> t \<notin> asleep g"
    "m_mtx g \<noteq> None \<Longrightarrow> has_mtx (snd (ls ! t))"
  proof (cases "m_mtx g")
    case (Some t)
    then show ?thesis using that[of t] D(1,2)[of t] by (auto simp: has_mtx_def)
  next
    case None
    from assms(2) obtain u where u: "u < length ls" "snd (ls ! u) \<noteq> P_Done"
      by (auto simp: cv_joined_def s in_set_conv_nth)
    show ?thesis
    proof (cases "u \<in> asleep g")
      case False
      then show ?thesis using that[of u] u None by simp
    next
      case True
      with D(5) obtain v where v: "v < length ls" "will_notify (asleep g) v (snd (ls ! v))" by blast
      then show ?thesis using that[of v] None by (cases "snd (ls ! v)") (simp_all add: will_notify_def inside_def)
    qed
  qed
  obtain c :: cv_choice where c: "asleep g \<noteq> {} \<Longrightarrow> woken c \<in> asleep g"
    by (metis ex_in_conv cv_choice.select_convs(2))
  have "\<exists>l' g'. cv_act iters c t (ls ! t) g = Some (l', g')"
    using t c by (cases "snd (ls ! t)"; cases "m_mtx g")
      (auto simp: cv_act_def Let_def take_mtx_def has_mtx_def)
  then show ?thesis unfolding s using t(1) by (blast intro: choice_stepI)
qed

interpretation cv_lock: terminating_steps "\<lambda>s. s = cv_start n iters" "choice_step (cv_act iters)" "cv_inv iters"
  cv_joined "cv_rank iters" for n iters
proof unfold_locales
  show "s = cv_start n iters \<Longrightarrow> cv_inv iters s" for s using cv_inv_start by blast
qed (rule cv_inv_step cv_rank_step cv_progress; assumption)+

section \<open>A lost update\<close>

definition quiet :: "int \<Rightarrow> cv_shared" where
  "quiet x = \<lparr>m_mtx = None, asleep = {}, m_locked = False, cv_x = x\<rparr>"

definition no_choice :: cv_choice where
  "no_choice = \<lparr>wake_up = False, woken = 1\<rparr>"

lemma cv_solo:
  "t < length ls \<Longrightarrow> ls ! t = cv_next iters i \<Longrightarrow> i + j \<le> iters \<Longrightarrow>
   (choice_step (cv_act iters))\<^sup>*\<^sup>* (ls, quiet x) (ls[t := cv_next iters (i + j)], quiet (x + int j))"
proof (induction j)
  case (Suc j)
  let ?ls = "ls[t := cv_next iters (i + j)]"
  have "run_choices (cv_act iters) (replicate 10 (t, no_choice)) (?ls, quiet (x + int j))
      = Some (ls[t := cv_next iters (i + Suc j)], quiet (x + int (Suc j)))"
    using Suc.prems by (simp add: cv_act_def cv_next_def take_mtx_def quiet_def no_choice_def numeral_eq_Suc)
  from run_choices_reachable[OF this] Suc show ?case by (auto elim: rtranclp_trans[rotated])
next
  case 0
  then have "ls[t := cv_next iters (i + 0)] = ls" by (metis add_0_right list_update_id)
  then show ?case by simp
qed

text \<open>
  Thread 1 waits; thread 0 unlocks, wakes it, and locks again before it; then both increment.
\<close>

definition both_inside :: "nat list" where
  "both_inside = [0, 0, 0, 0, 1, 1, 0, 0, 0, 0, 0, 0, 0, 0, 0, 0, 1, 1, 1, 1]"

definition overlap_end :: "nat list" where
  "overlap_end = [0, 1, 0, 1, 0, 0, 0, 0, 1, 1, 1, 1]"

lemma cv_both_inside:
  assumes "2 \<le> k"
  shows "run_choices (cv_act k) (map (\<lambda>t. (t, no_choice)) both_inside) (cv_start 2 k) =
    Some ([(1, P_Load), (0, P_Load)], \<lparr>m_mtx = None, asleep = {}, m_locked = True, cv_x = 1\<rparr>)"
  using assms by (simp add: both_inside_def cv_start_def cv_act_def cv_next_def take_mtx_def no_choice_def numeral_2_eq_2)

lemma cv_overlap_end:
  assumes "2 \<le> k"
  shows "run_choices (cv_act k) (map (\<lambda>t. (t, no_choice)) overlap_end)
      ([(1, P_Load), (0, P_Load)], \<lparr>m_mtx = None, asleep = {}, m_locked = True, cv_x = 1\<rparr>) =
    Some ([cv_next k 2, cv_next k 1], quiet 2)"
  using assms by (simp add: overlap_end_def cv_act_def cv_next_def take_mtx_def no_choice_def quiet_def numeral_2_eq_2)

lemma cv_joinedI: "cv_joined ([cv_next k k, cv_next k k], g)"
  by (simp add: cv_joined_def cv_next_def)

lemma cv_lost_update:
  assumes "2 \<le> k"
  shows "(choice_step (cv_act k))\<^sup>*\<^sup>* (cv_start 2 k) ([cv_next k k, cv_next k k], quiet (2 * int k - 1))"
proof -
  let ?r = "(choice_step (cv_act k))\<^sup>*\<^sup>*"
  note run_choices_reachable[OF cv_both_inside[OF assms]]
  also note run_choices_reachable[OF cv_overlap_end[OF assms]]
  also have "?r ([cv_next k 2, cv_next k 1], quiet 2) ([cv_next k k, cv_next k 1], quiet (2 + int (k - 2)))"
    using cv_solo[of 0 "[cv_next k 2, cv_next k 1]" k 2 "k - 2" 2, unfolded le_add_diff_inverse[OF assms]] by simp
  also have "?r ([cv_next k k, cv_next k 1], quiet (2 + int (k - 2)))
      ([cv_next k k, cv_next k k], quiet (2 + int (k - 2) + int (k - 1)))"
    using cv_solo[of 1 "[cv_next k k, cv_next k 1]" k 1 "k - 1" "2 + int (k - 2)"] assms by simp
  finally show ?thesis using assms by (simp add: of_nat_diff algebra_simps)
qed

lemma cv_in_turn:
  "(choice_step (cv_act k))\<^sup>*\<^sup>* (cv_start 2 k) ([cv_next k k, cv_next k k], quiet (2 * int k))"
proof -
  have "cv_start 2 k = ([cv_next k 0, cv_next k 0], quiet 0)" by (simp add: cv_start_def quiet_def numeral_2_eq_2)
  moreover have "(choice_step (cv_act k))\<^sup>*\<^sup>* ([cv_next k 0, cv_next k 0], quiet 0) ([cv_next k k, cv_next k 0], quiet (int k))"
    using cv_solo[of 0 "[cv_next k 0, cv_next k 0]" k 0 k 0] by simp
  moreover have "(choice_step (cv_act k))\<^sup>*\<^sup>* ([cv_next k k, cv_next k 0], quiet (int k))
      ([cv_next k k, cv_next k k], quiet (int k + int k))"
    using cv_solo[of 1 "[cv_next k k, cv_next k 0]" k 0 k "int k"] by simp
  ultimately show ?thesis by (auto elim: rtranclp_trans[rotated])
qed

section \<open>Claims\<close>

text \<open>
  C10. The condition-variable lock loses no wake-up: with any number of threads and iterations, and
  with any spurious wake-ups, a run makes at most twelve actions per iteration, and one that
  cannot go on has every thread at its end.
\<close>

theorem cv_lock_terminates:
  assumes "(choice_step (cv_act iters))\<^sup>*\<^sup>* (cv_start n iters) s"
  shows "(\<exists>t. (choice_step (cv_act iters))\<^sup>*\<^sup>* s t \<and> cv_joined t) \<and> (stuck (choice_step (cv_act iters)) s \<longrightarrow> cv_joined s)
    \<and> (\<forall>m t. (choice_step (cv_act iters) ^^ m) (cv_start n iters) t \<longrightarrow> m \<le> 12 * n * iters)"
proof -
  have "cv_rank iters (cv_start n iters) \<le> 12 * n * iters"
    by (simp add: cv_rank_def cv_start_def cv_left_def cv_next_def position_def sum_list_replicate)
  then have "m \<le> 12 * n * iters" if "(choice_step (cv_act iters) ^^ m) (cv_start n iters) t" for m t
    using cv_lock.run_bounded[OF cv_inv_start that] by linarith
  then show ?thesis
    using cv_lock.reaches_final[OF refl assms] cv_lock.stuck_final[OF refl assms] by blast
qed

theorem cv_lock_terminates_witness:
  "\<exists>t. (choice_step (cv_act 2))\<^sup>*\<^sup>* ([(1, P_Load), (0, P_Load)], \<lparr>m_mtx = None, asleep = {}, m_locked = True, cv_x = 1\<rparr>) t
     \<and> cv_joined t"
  using cv_lock_terminates[OF run_choices_reachable[OF cv_both_inside[OF order_refl]]] by blast

text \<open>
  C29. The condition-variable lock does not exclude: without any spurious wake-up both threads can be
  past \<^verbatim>\<open>lock()\<close> at once, an increment is lost, and the program can print any number of correct sums.
\<close>

theorem cv_lock_not_exclusive:
  "(\<exists>g. (choice_step (cv_act 1000))\<^sup>*\<^sup>* (cv_start 2 1000) ([(1, P_Load), (0, P_Load)], g))
   \<and> 1999 \<in> condvar_run \<and> condvar_main = {report ''sum'' (c, 1000 - c) | c. c \<le> 1000}"
proof -
  have "\<exists>g. (choice_step (cv_act 1000))\<^sup>*\<^sup>* (cv_start 2 1000) ([(1, P_Load), (0, P_Load)], g)"
    using run_choices_reachable[OF cv_both_inside[of 1000]] by auto
  moreover have lost: "1999 \<in> condvar_run"
    unfolding condvar_run_def by (rule outcomesI, rule cv_lost_update, simp, rule cv_joinedI, simp add: quiet_def)
  moreover have "2000 \<in> condvar_run"
    unfolding condvar_run_def by (rule outcomesI, rule cv_in_turn, rule cv_joinedI, simp add: quiet_def)
  with lost have "condvar_main = {report ''sum'' (c, 1000 - c) | c. c \<le> 1000}"
    unfolding condvar_main_def by (intro printed_sometimes[where y = 1999]) simp_all
  ultimately show ?thesis by blast
qed

end
