(* ===== verification/Lock_Order.thy ===== *)
theory Lock_Order
  imports Prelude
begin

text \<open>
  The programs of \<^verbatim>\<open>synchronization_primitives/mutex/\<close> that show how locking can block:
  \<^verbatim>\<open>deadlock.cpp\<close>, \<^verbatim>\<open>livelock.cpp\<close>, \<^verbatim>\<open>recursive_mutex.cpp\<close>, \<^verbatim>\<open>shared_mutex.cpp\<close> and \<^verbatim>\<open>lock_guard.cpp\<close>.
  A thread is the sequence of its operations on mutexes, the releases by its guards' destructors
  included. The main lemma is about all threads that take their mutexes in increasing order, or
  with a timeout: whatever their number and interleaving, they never block for ever.
\<close>

section \<open>Threads and mutexes\<close>

datatype lock_op =
    Acquire nat                       \<comment> \<open>\<^verbatim>\<open>std::lock_guard guard{m}\<close>\<close>
  | Acquire_for nat "lock_op list"    \<comment> \<open>\<^verbatim>\<open>std::unique_lock guard{m, 5s}\<close> and what follows when it has no lock\<close>
  | Yield                             \<comment> \<open>\<^verbatim>\<open>std::this_thread::yield()\<close> or a sleep\<close>
  | Print string
  | Release nat                       \<comment> \<open>the guard's destructor\<close>

record lock_state =
  owner :: "nat \<Rightarrow> nat option"
  out :: "string list"

text \<open>The choice is whether a timed attempt gives up; the standard lets it do so at any time.\<close>

fun lock_act :: "bool \<Rightarrow> nat \<Rightarrow> lock_op list \<Rightarrow> lock_state \<Rightarrow> (lock_op list \<times> lock_state) option" where
  "lock_act timeout t [] g = None"
| "lock_act timeout t (Acquire m # ops) g =
     (if owner g m = None then Some (ops, g\<lparr>owner := (owner g)(m := Some t)\<rparr>) else None)"
| "lock_act timeout t (Acquire_for m failed # ops) g =
     (if timeout then Some (failed, g)
      else if owner g m = None then Some (ops, g\<lparr>owner := (owner g)(m := Some t)\<rparr>) else None)"
| "lock_act timeout t (Yield # ops) g = Some (ops, g)"
| "lock_act timeout t (Print line # ops) g = Some (ops, g\<lparr>out := out g @ [line]\<rparr>)"
| "lock_act timeout t (Release m # ops) g = Some (ops, g\<lparr>owner := (owner g)(m := None)\<rparr>)"

definition lock_start :: "lock_op list list \<Rightarrow> lock_op list list \<times> lock_state" where
  "lock_start threads = (threads, \<lparr>owner = (\<lambda>_. None), out = []\<rparr>)"

definition all_ended :: "lock_op list list \<times> lock_state \<Rightarrow> bool" where
  "all_ended s \<longleftrightarrow> (\<forall>l\<in>set (fst s). l = []) \<and> (\<forall>m. owner (snd s) m = None)"

abbreviation lock_steps :: "lock_op list list \<times> lock_state \<Rightarrow> lock_op list list \<times> lock_state \<Rightarrow> bool" where
  "lock_steps \<equiv> (choice_step lock_act)\<^sup>*\<^sup>*"

section \<open>The programs\<close>

text \<open>The mutexes \<^verbatim>\<open>m1\<close> and \<^verbatim>\<open>m2\<close> are 1 and 2.\<close>

definition Deadlock :: "lock_op list list" where
  "Deadlock = [[Acquire 1, Yield, Acquire 2, Release 2, Release 1], [Acquire 2, Yield, Acquire 1, Release 1, Release 2]]"

definition NoDeadlock :: "lock_op list list" where
  "NoDeadlock = [[Acquire 1, Yield, Acquire 2, Release 2, Release 1], [Acquire 1, Yield, Acquire 2, Release 2, Release 1]]"

text \<open>A guard without a lock has nothing to release.\<close>

definition Livelock :: "lock_op list list" where
  "Livelock =
     [[Acquire_for 1 [Yield, Print ''First thread failed to get m1 lock''], Yield,
       Acquire_for 2 [Print ''First thread failed to get m2 lock'', Release 1], Release 2, Release 1],
      [Acquire_for 2 [Yield, Print ''Second thread failed to get m2 lock''], Yield,
       Acquire_for 1 [Print ''Second thread failed to get m1 lock'', Release 2], Release 1, Release 2]]"

definition recursive_mutex_main :: "lock_op list list" where
  "recursive_mutex_main = [[Acquire 0, Acquire 0, Release 0, Release 0]]"

text \<open>\<^verbatim>\<open>DataManager::GetCopy\<close> five times in each of two threads.\<close>

definition GetCopy_ops :: "lock_op list" where
  "GetCopy_ops = [Acquire 0, Yield, Release 0]"

definition shared_mutex_main :: "lock_op list list" where
  "shared_mutex_main = replicate 2 (concat (replicate 5 GetCopy_ops))"

section \<open>Taking mutexes in order\<close>

text \<open>
  \<open>held\<close> are the mutexes the thread has. A mutex taken without a timeout is greater than all of
  them, and at the end all have been released.
\<close>

fun disciplined :: "nat list \<Rightarrow> lock_op list \<Rightarrow> bool" where
  "disciplined held [] \<longleftrightarrow> held = []"
| "disciplined held (Acquire m # ops) \<longleftrightarrow> (\<forall>h\<in>set held. h < m) \<and> disciplined (m # held) ops"
| "disciplined held (Acquire_for m failed # ops) \<longleftrightarrow>
     m \<notin> set held \<and> disciplined held failed \<and> disciplined (m # held) ops"
| "disciplined held (Yield # ops) \<longleftrightarrow> disciplined held ops"
| "disciplined held (Print line # ops) \<longleftrightarrow> disciplined held ops"
| "disciplined held (Release m # ops) \<longleftrightarrow> m \<in> set held \<and> disciplined (removeAll m held) ops"

fun weight :: "lock_op list \<Rightarrow> nat" where
  "weight [] = 0"
| "weight (Acquire_for m failed # ops) = Suc (weight failed + weight ops)"
| "weight (op # ops) = Suc (weight ops)"

definition held_ok :: "(nat \<Rightarrow> nat option) \<Rightarrow> nat \<Rightarrow> lock_op list \<Rightarrow> bool" where
  "held_ok own t ops \<longleftrightarrow> (\<exists>held. disciplined held ops \<and> (\<forall>m. own m = Some t \<longleftrightarrow> m \<in> set held))"

definition lock_inv :: "lock_op list list \<times> lock_state \<Rightarrow> bool" where
  "lock_inv s \<longleftrightarrow> (\<forall>t<length (fst s). held_ok (owner (snd s)) t (fst s ! t)) \<and>
     (\<forall>m t. owner (snd s) m = Some t \<longrightarrow> t < length (fst s))"

lemma held_okI:
  "disciplined held ops \<Longrightarrow> (\<And>m. own m = Some t \<longleftrightarrow> m \<in> set held) \<Longrightarrow> held_ok own t ops"
  unfolding held_ok_def by blast

lemma lock_act_held:
  assumes "lock_act c t ops g = Some (ops', g')" "held_ok (owner g) t ops"
  shows "held_ok (owner g') t ops' \<and> (\<forall>m u. u \<noteq> t \<longrightarrow> (owner g' m = Some u \<longleftrightarrow> owner g m = Some u))"
proof -
  from assms(2) obtain held where h: "disciplined held ops" "\<And>m. owner g m = Some t \<longleftrightarrow> m \<in> set held"
    by (auto simp: held_ok_def)
  show ?thesis
  proof (cases ops)
    case (Cons op rest)
    show ?thesis
    proof (cases op)
      case (Acquire m)
      with assms(1) Cons have a: "owner g m = None" "ops' = rest" "g' = g\<lparr>owner := (owner g)(m := Some t)\<rparr>"
        by (auto split: if_splits)
      have "held_ok (owner g') t ops'" using h Cons Acquire a by (intro held_okI[of "m # held"]) auto
      with a show ?thesis by auto
    next
      case (Acquire_for m failed)
      show ?thesis
      proof (cases c)
        case True
        with assms(1) Cons Acquire_for h show ?thesis by (auto intro!: held_okI[of held])
      next
        case False
        with assms(1) Cons Acquire_for
        have a: "owner g m = None" "ops' = rest" "g' = g\<lparr>owner := (owner g)(m := Some t)\<rparr>" by (auto split: if_splits)
        have "held_ok (owner g') t ops'" using h Cons Acquire_for a by (intro held_okI[of "m # held"]) auto
        with a show ?thesis by auto
      qed
    next
      case (Release m)
      with assms(1) Cons have a: "ops' = rest" "g' = g\<lparr>owner := (owner g)(m := None)\<rparr>" by auto
      have "held_ok (owner g') t ops'" using h Cons Release a by (intro held_okI[of "removeAll m held"]) auto
      moreover have "owner g m = Some t" using h Cons Release by simp
      ultimately show ?thesis using a by auto
    next
      case Yield
      with assms(1) Cons h(1) held_okI[OF _ h(2), of ops'] show ?thesis by auto
    next
      case (Print line)
      with assms(1) Cons h(1) held_okI[OF _ h(2), of ops'] show ?thesis by auto
    qed
  qed (use assms in simp)
qed

lemma held_ok_cong:
  assumes "\<And>m. own' m = Some t \<longleftrightarrow> own m = Some t" "held_ok own t ops"
  shows "held_ok own' t ops"
  using assms unfolding held_ok_def by simp

lemma lock_inv_step:
  assumes "lock_inv s" "choice_step lock_act s s'"
  shows "lock_inv s'"
proof -
  obtain ls g where s: "s = (ls, g)" by (cases s)
  with assms(2) obtain t c ops g' where t: "t < length ls" and act: "lock_act c t (ls ! t) g = Some (ops, g')"
    and s': "s' = (ls[t := ops], g')" by (auto elim: choice_stepE)
  from assms(1) have ok: "\<And>u. u < length ls \<Longrightarrow> held_ok (owner g) u (ls ! u)"
    and own: "\<And>m u. owner g m = Some u \<Longrightarrow> u < length ls" by (auto simp: lock_inv_def s)
  from lock_act_held[OF act ok[OF t]] have mine: "held_ok (owner g') t ops"
    and same: "\<And>m u. u \<noteq> t \<Longrightarrow> owner g' m = Some u \<longleftrightarrow> owner g m = Some u" by blast+
  have "\<forall>u<length (ls[t := ops]). held_ok (owner g') u (ls[t := ops] ! u)"
  proof (rule all_nth_update)
    show "held_ok (owner g') u (ls ! u)" if "u < length ls" "u \<noteq> t" for u
      using same[OF that(2)] ok[OF that(1)] by (rule held_ok_cong)
  qed (rule mine)
  moreover have "owner g' m = Some u \<longrightarrow> u < length (ls[t := ops])" for m u
    using same[of u m] own[of m u] t by (cases "u = t") auto
  ultimately show ?thesis by (simp add: s' lock_inv_def)
qed

lemma lock_act_weight: "lock_act c t ops g = Some (ops', g') \<Longrightarrow> weight ops' < weight ops"
  by (cases "(c, t, ops, g)" rule: lock_act.cases) (auto split: if_splits)

lemma lock_rank_step:
  assumes "choice_step lock_act s s'"
  shows "sum_list (map weight (fst s')) < sum_list (map weight (fst s))"
proof -
  obtain ls g where s: "s = (ls, g)" by (cases s)
  with assms obtain t c ops g' where t: "t < length ls" and act: "lock_act c t (ls ! t) g = Some (ops, g')"
    and s': "s' = (ls[t := ops], g')" by (auto elim: choice_stepE)
  from lock_act_weight[OF act] sum_list_map_update[OF t, of weight ops] show ?thesis by (simp add: s s')
qed

text \<open>A thread that cannot move waits for a mutex greater than all it has.\<close>

lemma blocked_waits:
  assumes "held_ok own t ops" "ops \<noteq> []" "lock_act True t ops g = None" "own = owner g"
  obtains m u where "owner g m = Some u" "\<And>h. own h = Some t \<Longrightarrow> h < m" "hd ops = Acquire m"
proof (cases ops)
  case (Cons op rest)
  with assms(3) obtain m u where m: "op = Acquire m" "owner g m = Some u" by (cases op) (auto split: if_splits)
  with assms(1) Cons have "\<And>h. own h = Some t \<Longrightarrow> h < m" by (auto simp: held_ok_def)
  with m Cons that show ?thesis by auto
qed (use assms in simp)

lemma lock_progress:
  assumes "lock_inv s" "\<not> all_ended s"
  shows "\<exists>s'. choice_step lock_act s s'"
proof (rule ccontr)
  assume none: "\<not> ?thesis"
  obtain ls g where s: "s = (ls, g)" by (cases s)
  have ok: "held_ok (owner g) t (ls ! t)" if "t < length ls" for t using assms(1) that by (simp add: lock_inv_def s)
  have own: "t < length ls" if "owner g m = Some t" for m t using assms(1) that by (simp add: lock_inv_def s)
  have blocked: "lock_act True t (ls ! t) g = None" if "t < length ls" for t
    using none that unfolding s by (cases "lock_act True t (ls ! t) g") (auto intro: choice_stepI)
  define waits where "waits t = (case ls ! t of Acquire m # _ \<Rightarrow> m | _ \<Rightarrow> 0)" for t
  define ts where "ts = {t. t < length ls \<and> ls ! t \<noteq> []}"
  have greater: "\<exists>u\<in>ts. waits t < waits u" if "t \<in> ts" for t
  proof -
    from that have t: "t < length ls" "ls ! t \<noteq> []" by (simp_all add: ts_def)
    obtain m u where m: "owner g m = Some u" "hd (ls ! t) = Acquire m"
      using blocked_waits[OF ok[OF t(1)] t(2) blocked[OF t(1)] refl] by metis
    have u: "u < length ls" using own m(1) by blast
    have "ls ! u \<noteq> []" using ok[OF u] m(1) by (auto simp: held_ok_def)
    from blocked_waits[OF ok[OF u] this blocked[OF u] refl] obtain k where k: "hd (ls ! u) = Acquire k" "m < k"
      using m(1) by metis
    have "waits t = m" "waits u = k" using t(2) m(2) \<open>ls ! u \<noteq> []\<close> k(1) by (auto simp: waits_def neq_Nil_conv)
    with k(2) u \<open>ls ! u \<noteq> []\<close> show ?thesis by (auto simp: ts_def)
  qed
  have "finite ts" by (simp add: ts_def)
  moreover have "ts \<noteq> {}"
  proof
    assume e: "ts = {}"
    then have "\<forall>l\<in>set ls. l = []" by (auto simp: ts_def in_set_conv_nth)
    moreover have "owner g m = None" for m
    proof (rule ccontr)
      assume "owner g m \<noteq> None"
      then obtain t where t: "owner g m = Some t" by auto
      with ok[OF own[OF t]] e own[OF t] show False by (auto simp: held_ok_def ts_def)
    qed
    ultimately show False using assms(2) by (simp add: all_ended_def s)
  qed
  ultimately have "Max (waits ` ts) \<in> waits ` ts" "\<And>u. u \<in> ts \<Longrightarrow> waits u \<le> Max (waits ` ts)" by auto
  then obtain t where "t \<in> ts" "\<And>u. u \<in> ts \<Longrightarrow> waits u \<le> waits t" by force
  with greater[of t] show False by (meson not_le)
qed

lemma lock_inv_start:
  assumes "\<forall>p\<in>set threads. disciplined [] p"
  shows "lock_inv (lock_start threads)"
  using assms by (simp add: lock_inv_def lock_start_def held_okI[of "[]"])

interpretation ordered_locks: terminating_steps "\<lambda>s. \<exists>threads. s = lock_start threads \<and> (\<forall>p\<in>set threads. disciplined [] p)"
  "choice_step lock_act" lock_inv all_ended "\<lambda>s. sum_list (map weight (fst s))"
proof unfold_locales
  show "\<exists>threads. s = lock_start threads \<and> (\<forall>p\<in>set threads. disciplined [] p) \<Longrightarrow> lock_inv s" for s
    using lock_inv_start by blast
qed (rule lock_inv_step lock_rank_step lock_progress; assumption)+

lemma programs_disciplined:
  "\<forall>p\<in>set NoDeadlock. disciplined [] p" "\<forall>p\<in>set Livelock. disciplined [] p" "\<forall>p\<in>set shared_mutex_main. disciplined [] p"
  by (simp_all add: NoDeadlock_def Livelock_def shared_mutex_main_def GetCopy_ops_def numeral_eq_Suc)

section \<open>A lock that is not released\<close>

text \<open>
  \<^verbatim>\<open>lock_guard.cpp\<close>: the updates run in threads that are joined one after the other. A thread that finds
  the mutex locked waits for ever, since no other thread is alive: \<open>None\<close>.
\<close>

record ProtectedData =
  pd_locked :: bool      \<comment> \<open>\<^verbatim>\<open>m_mtx\<close>\<close>
  pd_data :: int         \<comment> \<open>\<^verbatim>\<open>m_data\<close>\<close>

definition UpdateData :: "int \<Rightarrow> ProtectedData \<Rightarrow> ProtectedData option" where
  "UpdateData newValue d =
     (if pd_locked d then None
      else if pd_data d = 42 then Some (d\<lparr>pd_locked := True\<rparr>)
      else Some (d\<lparr>pd_data := newValue, pd_locked := False\<rparr>))"

fun updaters :: "int list \<Rightarrow> ProtectedData \<Rightarrow> ProtectedData option" where
  "updaters [] d = Some d"
| "updaters (v # vs) d = (case UpdateData v d of None \<Rightarrow> None | Some d' \<Rightarrow> updaters vs d')"

definition lock_guard_main :: "ProtectedData option" where
  "lock_guard_main = updaters [12, 42, 34, 25] \<lparr>pd_locked = False, pd_data = 0\<rparr>"

lemma updaters_locked: "pd_locked d \<Longrightarrow> updaters vs d = None \<longleftrightarrow> vs \<noteq> []"
  by (cases vs) (auto simp: UpdateData_def)

lemma updaters_42: "\<not> pd_locked d \<Longrightarrow> pd_data d = 42 \<Longrightarrow> updaters vs d = None \<longleftrightarrow> 2 \<le> length vs"
  by (cases vs) (auto simp: UpdateData_def updaters_locked neq_Nil_conv Suc_le_eq)

lemma updaters_blocks:
  "\<not> pd_locked d \<Longrightarrow> pd_data d \<noteq> 42 \<Longrightarrow> updaters vs d = None \<longleftrightarrow> (\<exists>i. i + 2 < length vs \<and> vs ! i = 42)"
proof (induction vs arbitrary: d)
  case (Cons v vs)
  let ?d = "d\<lparr>pd_data := v, pd_locked := False\<rparr>"
  have step: "updaters (v # vs) d = updaters vs ?d" using Cons.prems by (simp add: UpdateData_def)
  have split: "(\<exists>i. i + 2 < length (v # vs) \<and> (v # vs) ! i = 42) \<longleftrightarrow>
      (v = 42 \<and> 2 \<le> length vs) \<or> (\<exists>i. i + 2 < length vs \<and> vs ! i = 42)"
    using ex_nat_split[of "\<lambda>i. i + 2 < length (v # vs) \<and> (v # vs) ! i = 42"] by auto
  show ?case
  proof (cases "v = 42")
    case True
    then have "updaters vs ?d = None \<longleftrightarrow> 2 \<le> length vs" by (intro updaters_42) simp_all
    with step split True show ?thesis by (auto intro: less_imp_le)
  next
    case False
    with Cons.IH[of ?d] step split show ?thesis by simp
  qed
qed simp

section \<open>Claims\<close>



text \<open>
  \<^verbatim>\<open>NoDeadlock\<close>, \<^verbatim>\<open>Livelock\<close> and the program of \<^verbatim>\<open>shared_mutex.cpp\<close> never block for ever, and end
  with all mutexes free.
\<close>

lemma lock_programs_end:
  assumes "P \<in> {NoDeadlock, Livelock, shared_mutex_main}" "lock_steps (lock_start P) s"
  shows "(\<exists>t. lock_steps s t \<and> all_ended t) \<and> (stuck (choice_step lock_act) s \<longrightarrow> all_ended s)"
  using assms programs_disciplined ordered_locks.reaches_final[of "lock_start P" s]
    ordered_locks.stuck_final[of "lock_start P" s] by blast

lemma lock_programs_end_witness:
  "(\<exists>t. lock_steps (lock_start NoDeadlock) t \<and> all_ended t) \<and> (\<exists>t. lock_steps (lock_start Livelock) t \<and> all_ended t)
   \<and> (\<exists>t. lock_steps (lock_start shared_mutex_main) t \<and> all_ended t)"
  using lock_programs_end[of NoDeadlock "lock_start NoDeadlock"] lock_programs_end[of Livelock "lock_start Livelock"]
    lock_programs_end[of shared_mutex_main "lock_start shared_mutex_main"] by blast

text \<open>
  \<^verbatim>\<open>Deadlock\<close> can block for ever, each thread holding the mutex the other one waits for; both
  threads of \<^verbatim>\<open>Livelock\<close> can give up and then end with their messages; and the program that locks a
  mutex it already has never gets past the second lock.
\<close>

lemma opposite_order_blocks:
  "(\<exists>s. lock_steps (lock_start Deadlock) s \<and> stuck (choice_step lock_act) s \<and> \<not> all_ended s
      \<and> owner (snd s) 1 = Some 0 \<and> owner (snd s) 2 = Some 1)
   \<and> (\<exists>s. lock_steps (lock_start Livelock) s \<and> all_ended s
      \<and> out (snd s) = [''First thread failed to get m2 lock'', ''Second thread failed to get m1 lock''])
   \<and> (\<nexists>s. lock_steps (lock_start recursive_mutex_main) s \<and> all_ended s)"
proof (intro conjI)
  obtain s where r: "run_choices lock_act (map (\<lambda>t. (t, False)) [0, 1, 0, 1]) (lock_start Deadlock) = Some s"
    and s: "fst s = [[Acquire 2, Release 2, Release 1], [Acquire 1, Release 1, Release 2]]"
      "owner (snd s) 1 = Some 0" "owner (snd s) 2 = Some 1" by (simp add: Deadlock_def lock_start_def)
  have "stuck (choice_step lock_act) s"
  proof -
    have "\<not> choice_step lock_act (fst s, snd s) t" for t
      using s(2,3) by (auto elim!: choice_stepE simp: s(1) less_Suc_eq split: if_splits)
    then show ?thesis by (simp add: stuck_def)
  qed
  moreover have "\<not> all_ended s" by (simp add: all_ended_def s(1))
  ultimately show "\<exists>s. lock_steps (lock_start Deadlock) s \<and> stuck (choice_step lock_act) s \<and> \<not> all_ended s
      \<and> owner (snd s) 1 = Some 0 \<and> owner (snd s) 2 = Some 1" using run_choices_reachable[OF r] s(2,3) by blast
next
  obtain s where r: "run_choices lock_act
      [(0, False), (1, False), (0, False), (1, False), (0, True), (1, True), (0, False), (1, False), (0, False), (1, False)]
      (lock_start Livelock) = Some s" and s: "all_ended s"
      "out (snd s) = [''First thread failed to get m2 lock'', ''Second thread failed to get m1 lock'']"
    by (simp add: Livelock_def lock_start_def all_ended_def)
  with run_choices_reachable[OF r] show "\<exists>s. lock_steps (lock_start Livelock) s \<and> all_ended s
      \<and> out (snd s) = [''First thread failed to get m2 lock'', ''Second thread failed to get m1 lock'']" by blast
next
  let ?inv = "\<lambda>s. s = lock_start recursive_mutex_main \<or>
    (fst s = [[Acquire 0, Release 0, Release 0]] \<and> owner (snd s) 0 = Some 0)"
  have "?inv s" if "lock_steps (lock_start recursive_mutex_main) s" for s
    using that
  proof (induction rule: rtranclp_induct)
    case (step s t)
    have "choice_step lock_act (fst s, snd s) t" using step.hyps by simp
    then obtain i c l' g' where "i < length (fst s)" "lock_act c i (fst s ! i) (snd s) = Some (l', g')"
      "t = ((fst s)[i := l'], g')" by (rule choice_stepE)
    with step.IH show ?case by (auto simp: lock_start_def recursive_mutex_main_def)
  qed simp
  then show "\<nexists>s. lock_steps (lock_start recursive_mutex_main) s \<and> all_ended s"
    by (force simp: all_ended_def lock_start_def recursive_mutex_main_def)
qed

text \<open>
  \<^verbatim>\<open>UpdateData\<close> returns without unlocking when the value is 42. From a fresh object a sequence of
  updates blocks exactly when an update that is neither the last nor the last but one stores 42;
  the program's own sequence does.
\<close>

lemma update_data_blocks:
  "(updaters vs \<lparr>pd_locked = False, pd_data = 0\<rparr> = None \<longleftrightarrow> (\<exists>i. i + 2 < length vs \<and> vs ! i = 42)) \<and> lock_guard_main = None"
  by (simp add: updaters_blocks lock_guard_main_def UpdateData_def)

end
