(* ===== verification/Shm_Rendezvous.thy ===== *)
theory Shm_Rendezvous
  imports Prelude
begin

text \<open>
  \<^verbatim>\<open>ipc/shm_intro.cpp\<close> and \<^verbatim>\<open>ipc/mmap_intro.cpp\<close>: a parent process passes the lines of its standard input
  to a child through one shared message, with two semaphores to take turns. The programs differ in
  how they make and release the shared memory. The processes interleave at their system calls and
  at each access to the shared message, and any system call whose result the code checks can fail.
  The lemmas show that the two never touch the message at the same time, that lines of ordinary
  length arrive complete and in order, and what an empty line and a long line do.
\<close>

section \<open>The shared message and the processes\<close>

text \<open>\<^verbatim>\<open>SharedData\<close>: the buffer takes what the size field leaves of 4096 bytes.\<close>

definition BufferSize :: nat where
  "BufferSize = 4096 - 4"

record SharedData =
  m_messageSize :: u32
  msg_buffer :: "byte list"

definition SharedData_init :: SharedData where
  "SharedData_init = \<lparr>m_messageSize = 0, msg_buffer = replicate BufferSize 0\<rparr>"

datatype ipc_line =
    Wrote nat                   \<comment> \<open>\<^verbatim>\<open>[PARENT]: wrote {} bytes\<close>\<close>
  | Read_size nat               \<comment> \<open>\<^verbatim>\<open>[CHILD]: read message of size: {}\<close>\<close>
  | Content "byte list"         \<comment> \<open>\<^verbatim>\<open>[CHILD]: content: {}\<close>\<close>
  | Child_exited
  | Parent_exited

datatype ipc_call = Sem_unlink string | Munmap | Shm_unlink string

record rendezvous =
  write_sem :: nat              \<comment> \<open>value of \<^verbatim>\<open>writeDoneSema\<close>\<close>
  read_sem :: nat               \<comment> \<open>value of \<^verbatim>\<open>readDoneSema\<close>\<close>
  shared :: SharedData
  cin :: "byte list list"       \<comment> \<open>lines not read yet\<close>
  cout :: "ipc_line list"
  child_ended :: bool
  names :: "string set"         \<comment> \<open>names of semaphores and shared memory in the system\<close>
  overrun :: bool               \<comment> \<open>memory outside the message was read or written\<close>

datatype parent_pc =
    A_Getline | A_Size "byte list" | A_Memset "byte list" | A_Memcpy "byte list" | A_Log "byte list"
  | A_Post "byte list" | A_Wait "byte list" | A_Zero | A_Post_end | A_Wait_child | A_Cleanup "ipc_call list"
  | A_Log_exit | A_Exited | A_Failed

datatype child_pc = B_Wait | B_Test | B_Log_size | B_Log_content | B_Post | B_Close nat | B_Log_exit | B_Exited | B_Failed

datatype process = Parent parent_pc | Child child_pc

definition set_buffer :: "byte list option \<Rightarrow> rendezvous \<Rightarrow> rendezvous" where
  "set_buffer b g = (case b of None \<Rightarrow> g\<lparr>overrun := True\<rparr> | Some bs \<Rightarrow> g\<lparr>shared := (shared g)\<lparr>msg_buffer := bs\<rparr>\<rparr>)"

definition say :: "ipc_line \<Rightarrow> rendezvous \<Rightarrow> rendezvous" where
  "say e g = g\<lparr>cout := cout g @ [e]\<rparr>"

fun cleanup_call :: "ipc_call \<Rightarrow> rendezvous \<Rightarrow> rendezvous" where
  "cleanup_call (Sem_unlink n) g = g\<lparr>names := names g - {n}\<rparr>"
| "cleanup_call Munmap g = g"
| "cleanup_call (Shm_unlink n) g = g\<lparr>names := names g - {n}\<rparr>"

text \<open>
  \<open>fails\<close> tells whether the system call of the action, if its result is checked, fails; then the
  process exits. \<open>calls\<close> are the calls by which the parent cleans up.
\<close>

fun parent_act :: "ipc_call list \<Rightarrow> bool \<Rightarrow> parent_pc \<Rightarrow> rendezvous \<Rightarrow> (parent_pc \<times> rendezvous) option" where
  "parent_act calls fails A_Getline g =
     (case cin g of [] \<Rightarrow> Some (A_Zero, g) | input # rest \<Rightarrow> Some (A_Size input, g\<lparr>cin := rest\<rparr>))"
| "parent_act calls fails (A_Size input) g =
     Some (A_Memset input, g\<lparr>shared := (shared g)\<lparr>m_messageSize := of_nat (length input)\<rparr>\<rparr>)"
| "parent_act calls fails (A_Memset input) g =
     Some (A_Memcpy input, set_buffer (memset (msg_buffer (shared g)) 0 BufferSize) g)"
| "parent_act calls fails (A_Memcpy input) g =
     Some (A_Log input, set_buffer (memcpy (msg_buffer (shared g)) input (min (length input) BufferSize)) g)"
| "parent_act calls fails (A_Log input) g = Some (A_Post input, say (Wrote (length input)) g)"
| "parent_act calls fails (A_Post input) g =
     Some (if fails then (A_Failed, g) else (A_Wait input, g\<lparr>write_sem := write_sem g + 1\<rparr>))"
| "parent_act calls fails (A_Wait input) g =
     (if fails then Some (A_Failed, g)
      else if read_sem g = 0 then None else Some (A_Getline, g\<lparr>read_sem := read_sem g - 1\<rparr>))"
| "parent_act calls fails A_Zero g = Some (A_Post_end, g\<lparr>shared := (shared g)\<lparr>m_messageSize := 0\<rparr>\<rparr>)"
| "parent_act calls fails A_Post_end g =
     Some (if fails then (A_Failed, g) else (A_Wait_child, g\<lparr>write_sem := write_sem g + 1\<rparr>))"
| "parent_act calls fails A_Wait_child g =
     (if fails then Some (A_Failed, g) else if child_ended g then Some (A_Cleanup calls, g) else None)"
| "parent_act calls fails (A_Cleanup cs) g =
     (case cs of [] \<Rightarrow> Some (A_Log_exit, g)
      | c # cs' \<Rightarrow> Some (if fails then (A_Failed, g) else (A_Cleanup cs', cleanup_call c g)))"
| "parent_act calls fails A_Log_exit g = Some (A_Exited, say Parent_exited g)"
| "parent_act calls fails A_Exited g = None"
| "parent_act calls fails A_Failed g = None"

definition child_fails :: "rendezvous \<Rightarrow> child_pc \<times> rendezvous" where
  "child_fails g = (B_Failed, g\<lparr>child_ended := True\<rparr>)"

fun child_act :: "bool \<Rightarrow> child_pc \<Rightarrow> rendezvous \<Rightarrow> (child_pc \<times> rendezvous) option" where
  "child_act fails B_Wait g =
     (if fails then Some (child_fails g)
      else if write_sem g = 0 then None else Some (B_Test, g\<lparr>write_sem := write_sem g - 1\<rparr>))"
| "child_act fails B_Test g = Some (if m_messageSize (shared g) = 0 then B_Close 2 else B_Log_size, g)"
| "child_act fails B_Log_size g = Some (B_Log_content, say (Read_size (unat (m_messageSize (shared g)))) g)"
| "child_act fails B_Log_content g =
     Some (B_Post, case c_string (msg_buffer (shared g)) of None \<Rightarrow> g\<lparr>overrun := True\<rparr> | Some s \<Rightarrow> say (Content s) g)"
| "child_act fails B_Post g = Some (if fails then child_fails g else (B_Wait, g\<lparr>read_sem := read_sem g + 1\<rparr>))"
| "child_act fails (B_Close k) g =
     (case k of 0 \<Rightarrow> Some (B_Log_exit, g) | Suc k' \<Rightarrow> Some (if fails then child_fails g else (B_Close k', g)))"
| "child_act fails B_Log_exit g = Some (B_Exited, (say Child_exited g)\<lparr>child_ended := True\<rparr>)"
| "child_act fails B_Exited g = None"
| "child_act fails B_Failed g = None"

definition rendezvous_act ::
  "ipc_call list \<Rightarrow> bool \<Rightarrow> nat \<Rightarrow> process \<Rightarrow> rendezvous \<Rightarrow> (process \<times> rendezvous) option" where
  "rendezvous_act calls fails i l g =
     (case l of Parent p \<Rightarrow> map_option (\<lambda>(p', g'). (Parent p', g')) (parent_act calls fails p g)
      | Child c \<Rightarrow> map_option (\<lambda>(c', g'). (Child c', g')) (child_act fails c g))"

text \<open>The processes after \<^verbatim>\<open>fork\<close>, with the given names in the system and the given input.\<close>

definition forked :: "string set \<Rightarrow> byte list list \<Rightarrow> process list \<times> rendezvous" where
  "forked ns lines = ([Parent A_Getline, Child B_Wait],
     \<lparr>write_sem = 0, read_sem = 0, shared = SharedData_init, cin = lines, cout = [], child_ended = False, names = ns,
      overrun = False\<rparr>)"

section \<open>The programs\<close>

text \<open>
  Before \<^verbatim>\<open>fork\<close>: the calls in order, each of which can fail. The semaphores are new: the names are not
  in the system. An uncaught exception and \<^verbatim>\<open>exit(EXIT_FAILURE)\<close> both end the program; the names made
  until then stay.
\<close>

datatype setup_error = Opening_semaphore_failed | Mmap_failed | Exit_failure

datatype setup_call = Sem_open string | Shm_unlink_ignored string | Shm_open string | Ftruncate | Mmap | Fork

fun setup_call_act :: "bool \<Rightarrow> setup_call \<Rightarrow> string set \<Rightarrow> (setup_error \<times> string set) + string set" where
  "setup_call_act fails (Sem_open n) ns = (if fails then Inl (Opening_semaphore_failed, ns) else Inr (insert n ns))"
| "setup_call_act fails (Shm_unlink_ignored n) ns = Inr (if fails then ns else ns - {n})"
| "setup_call_act fails (Shm_open n) ns = (if fails then Inl (Exit_failure, ns) else Inr (insert n ns))"
| "setup_call_act fails Ftruncate ns = (if fails then Inl (Exit_failure, ns) else Inr ns)"
| "setup_call_act fails Mmap ns = (if fails then Inl (Mmap_failed, ns) else Inr ns)"
| "setup_call_act fails Fork ns = (if fails then Inl (Exit_failure, ns) else Inr ns)"

fun run_setup :: "(setup_call \<times> bool) list \<Rightarrow> string set \<Rightarrow> (setup_error \<times> string set) + string set" where
  "run_setup [] ns = Inr ns"
| "run_setup ((c, fails) # cs) ns = (case setup_call_act fails c ns of Inl e \<Rightarrow> Inl e | Inr ns' \<Rightarrow> run_setup cs ns')"

definition shm_intro_setup :: "setup_call list" where
  "shm_intro_setup =
     [Sem_open ''/write_sema'', Sem_open ''/read_done_sema'', Shm_unlink_ignored ''/kafka'', Shm_open ''/kafka'', Ftruncate,
      Mmap, Fork]"

definition shm_intro_cleanup :: "ipc_call list" where
  "shm_intro_cleanup = [Sem_unlink ''/read_done_sema'', Sem_unlink ''/write_sema'', Munmap, Shm_unlink ''/kafka'']"

definition mmap_intro_setup :: "setup_call list" where
  "mmap_intro_setup = [Sem_open ''/write_sema'', Sem_open ''/read_done_sema'', Mmap, Fork]"

definition mmap_intro_cleanup :: "ipc_call list" where
  "mmap_intro_cleanup = [Sem_unlink ''/read_done_sema'', Sem_unlink ''/write_sema'', Munmap]"

text \<open>The two processes of each program, after \<^verbatim>\<open>fork\<close>.\<close>

definition shm_intro_processes :: "bool \<Rightarrow> nat \<Rightarrow> process \<Rightarrow> rendezvous \<Rightarrow> (process \<times> rendezvous) option" where
  "shm_intro_processes = rendezvous_act shm_intro_cleanup"

definition mmap_intro_processes :: "bool \<Rightarrow> nat \<Rightarrow> process \<Rightarrow> rendezvous \<Rightarrow> (process \<times> rendezvous) option" where
  "mmap_intro_processes = rendezvous_act mmap_intro_cleanup"

text \<open>The program up to \<^verbatim>\<open>fork\<close>; \<open>fs\<close> tells which of its calls fail.\<close>

definition ipc_main ::
  "setup_call list \<Rightarrow> bool list \<Rightarrow> byte list list \<Rightarrow> (setup_error \<times> string set) + (process list \<times> rendezvous)" where
  "ipc_main calls fs lines =
     (case run_setup (zip calls fs) {} of Inl e \<Rightarrow> Inl e | Inr ns \<Rightarrow> Inr (forked ns lines))"

section \<open>Steps of the two processes\<close>

lemma parent_moves:
  "parent_act calls f p g = Some (p', g') \<Longrightarrow>
   choice_step (rendezvous_act calls) ([Parent p, Child c], g) ([Parent p', Child c], g')"
  using choice_stepI[of 0 "[Parent p, Child c]" "rendezvous_act calls" f g "Parent p'" g'] by (simp add: rendezvous_act_def)

lemma child_moves:
  "child_act f c g = Some (c', g') \<Longrightarrow>
   choice_step (rendezvous_act calls) ([Parent p, Child c], g) ([Parent p, Child c'], g')"
  using choice_stepI[of 1 "[Parent p, Child c]" "rendezvous_act calls" f g "Child c'" g'] by (simp add: rendezvous_act_def)

lemma process_step_cases:
  assumes "choice_step (rendezvous_act calls) ([Parent p, Child c], g) t"
  obtains (parent) f p' g' where "parent_act calls f p g = Some (p', g')" "t = ([Parent p', Child c], g')"
  | (child) f c' g' where "child_act f c g = Some (c', g')" "t = ([Parent p, Child c'], g')"
proof -
  from assms obtain i f l' g' where i: "i < length [Parent p, Child c]"
    and act: "rendezvous_act calls f i ([Parent p, Child c] ! i) g = Some (l', g')" and t: "t = ([Parent p, Child c][i := l'], g')"
    by (rule choice_stepE)
  from i consider "i = 0" | "i = 1" by (auto simp: less_Suc_eq)
  then show ?thesis
  proof cases
    case 1
    with act obtain p' where "parent_act calls f p g = Some (p', g')" "l' = Parent p'" by (auto simp: rendezvous_act_def)
    with 1 t show ?thesis by (intro parent) auto
  next
    case 2
    with act obtain c' where "child_act f c g = Some (c', g')" "l' = Child c'" by (auto simp: rendezvous_act_def)
    with 2 t show ?thesis by (intro child) auto
  qed
qed

text \<open>The same when no call fails.\<close>

lemma ok_step_cases:
  assumes "prog_step (rendezvous_act calls False) ([Parent p, Child c], g) t"
  obtains (parent) p' g' where "parent_act calls False p g = Some (p', g')" "t = ([Parent p', Child c], g')"
  | (child) c' g' where "child_act False c g = Some (c', g')" "t = ([Parent p, Child c'], g')"
proof -
  from assms obtain i l' g' where i: "i < length [Parent p, Child c]"
    and act: "rendezvous_act calls False i ([Parent p, Child c] ! i) g = Some (l', g')"
    and t: "t = ([Parent p, Child c][i := l'], g')" by (rule prog_stepE)
  from i consider "i = 0" | "i = 1" by (auto simp: less_Suc_eq)
  then show ?thesis
  proof cases
    case 1
    with act obtain p' where "parent_act calls False p g = Some (p', g')" "l' = Parent p'" by (auto simp: rendezvous_act_def)
    with 1 t show ?thesis by (intro parent) auto
  next
    case 2
    with act obtain c' where "child_act False c g = Some (c', g')" "l' = Child c'" by (auto simp: rendezvous_act_def)
    with 2 t show ?thesis by (intro child) auto
  qed
qed

section \<open>Taking turns\<close>

text \<open>Between the two semaphores there is one token: who has it may use the message.\<close>

definition parent_writes :: "parent_pc \<Rightarrow> bool" where
  "parent_writes p = (case p of A_Size _ \<Rightarrow> True | A_Memset _ \<Rightarrow> True | A_Memcpy _ \<Rightarrow> True | A_Zero \<Rightarrow> True | _ \<Rightarrow> False)"

definition child_reads :: "child_pc \<Rightarrow> bool" where
  "child_reads c = (case c of B_Test \<Rightarrow> True | B_Log_size \<Rightarrow> True | B_Log_content \<Rightarrow> True | _ \<Rightarrow> False)"

definition parent_token :: "parent_pc \<Rightarrow> bool" where
  "parent_token p \<longleftrightarrow> parent_writes p \<or>
     (case p of A_Getline \<Rightarrow> True | A_Log _ \<Rightarrow> True | A_Post _ \<Rightarrow> True | A_Post_end \<Rightarrow> True | _ \<Rightarrow> False)"

definition child_token :: "child_pc \<Rightarrow> bool" where
  "child_token c \<longleftrightarrow> child_reads c \<or>
     (case c of B_Post \<Rightarrow> True | B_Close _ \<Rightarrow> True | B_Log_exit \<Rightarrow> True | B_Exited \<Rightarrow> True | _ \<Rightarrow> False)"

definition tokens :: "parent_pc \<Rightarrow> child_pc \<Rightarrow> rendezvous \<Rightarrow> nat" where
  "tokens p c g = write_sem g + read_sem g + of_bool (parent_token p) + of_bool (child_token c)"

definition turns_inv :: "process list \<times> rendezvous \<Rightarrow> bool" where
  "turns_inv s \<longleftrightarrow> (\<exists>p c. fst s = [Parent p, Child c] \<and> tokens p c (snd s) \<le> 1)"

lemmas token_defs = tokens_def parent_token_def child_token_def parent_writes_def child_reads_def

lemma cleanup_call_keeps [simp]:
  "write_sem (cleanup_call c g) = write_sem g" "read_sem (cleanup_call c g) = read_sem g"
  "shared (cleanup_call c g) = shared g" "cin (cleanup_call c g) = cin g" "cout (cleanup_call c g) = cout g"
  "child_ended (cleanup_call c g) = child_ended g" "overrun (cleanup_call c g) = overrun g"
  by (cases c; simp)+

lemma set_buffer_keeps [simp]:
  "write_sem (set_buffer b g) = write_sem g" "read_sem (set_buffer b g) = read_sem g"
  by (simp_all add: set_buffer_def split: option.splits)

lemma parent_act_tokens: "parent_act calls f p g = Some (p', g') \<Longrightarrow> tokens p' c g' \<le> tokens p c g"
  by (cases p) (auto simp: token_defs say_def split: list.splits if_splits)

lemma child_act_tokens: "child_act f c g = Some (c', g') \<Longrightarrow> tokens p c' g' \<le> tokens p c g"
  by (cases c) (auto simp: token_defs say_def child_fails_def split: nat.splits if_splits option.splits)

lemma turns_inv_step:
  assumes "turns_inv s" "choice_step (rendezvous_act calls) s t"
  shows "turns_inv t"
proof -
  obtain p c g where s: "s = ([Parent p, Child c], g)" and le: "tokens p c g \<le> 1"
    using assms(1) unfolding turns_inv_def by (metis prod.collapse)
  from assms(2)[unfolded s] show ?thesis
  proof (cases rule: process_step_cases)
    case (parent f p' g')
    with parent_act_tokens[of calls f p g p' g' c] le show ?thesis by (simp add: turns_inv_def)
  next
    case (child f c' g')
    with child_act_tokens[of f c g c' g' p] le show ?thesis by (simp add: turns_inv_def)
  qed
qed

interpretation turns: step_invariant "\<lambda>s. \<exists>ns lines. s = forked ns lines" "choice_step (rendezvous_act calls)" turns_inv
  for calls
proof unfold_locales
  show "\<exists>ns lines. s = forked ns lines \<Longrightarrow> turns_inv s" for s
    by (auto simp: turns_inv_def forked_def token_defs)
qed (rule turns_inv_step)

section \<open>What arrives\<close>

definition transcript :: "byte list list \<Rightarrow> ipc_line list" where
  "transcript lines = concat (map (\<lambda>x. [Wrote (length x), Read_size (length x), Content x]) lines)"

definition padded :: "byte list \<Rightarrow> byte list" where
  "padded x = x @ replicate (BufferSize - length x) 0"

text \<open>Lines that fit the buffer with a byte to spare and have no NUL.\<close>

definition fits :: "byte list \<Rightarrow> bool" where
  "fits x \<longleftrightarrow> length x < BufferSize \<and> 0 \<notin> set x"

definition unlinked :: "ipc_call list \<Rightarrow> string set" where
  "unlinked calls = {n. Sem_unlink n \<in> set calls \<or> Shm_unlink n \<in> set calls}"

definition idle :: "child_pc \<Rightarrow> rendezvous \<Rightarrow> bool" where
  "idle c g \<longleftrightarrow> c = B_Wait \<and> write_sem g = 0 \<and> read_sem g = 0"

definition published :: "byte list \<Rightarrow> rendezvous \<Rightarrow> bool" where
  "published x g \<longleftrightarrow> m_messageSize (shared g) = of_nat (length x) \<and> msg_buffer (shared g) = padded x"

text \<open>Where the child is while the parent waits for the answer to \<open>x\<close>.\<close>

definition answering :: "byte list list \<Rightarrow> byte list \<Rightarrow> child_pc \<Rightarrow> rendezvous \<Rightarrow> bool" where
  "answering ds x c g = (case c of
       B_Wait \<Rightarrow> write_sem g = 1 \<and> read_sem g = 0 \<and> cout g = transcript ds @ [Wrote (length x)]
         \<or> write_sem g = 0 \<and> read_sem g = 1 \<and> x \<noteq> [] \<and> cout g = transcript (ds @ [x])
     | B_Test \<Rightarrow> write_sem g = 0 \<and> read_sem g = 0 \<and> cout g = transcript ds @ [Wrote (length x)]
     | B_Log_size \<Rightarrow> write_sem g = 0 \<and> read_sem g = 0 \<and> x \<noteq> [] \<and> cout g = transcript ds @ [Wrote (length x)]
     | B_Log_content \<Rightarrow>
         write_sem g = 0 \<and> read_sem g = 0 \<and> x \<noteq> [] \<and> cout g = transcript ds @ [Wrote (length x), Read_size (length x)]
     | B_Post \<Rightarrow> write_sem g = 0 \<and> read_sem g = 0 \<and> x \<noteq> [] \<and> cout g = transcript (ds @ [x])
     | B_Close k \<Rightarrow> write_sem g = 0 \<and> read_sem g = 0 \<and> x = [] \<and> k \<le> 2 \<and> cout g = transcript ds @ [Wrote 0]
     | B_Log_exit \<Rightarrow> write_sem g = 0 \<and> read_sem g = 0 \<and> x = [] \<and> cout g = transcript ds @ [Wrote 0]
     | B_Exited \<Rightarrow> write_sem g = 0 \<and> read_sem g = 0 \<and> x = [] \<and> cout g = transcript ds @ [Wrote 0, Child_exited]
     | B_Failed \<Rightarrow> False)"

text \<open>Where it is after the parent's last post.\<close>

definition stopping :: "byte list list \<Rightarrow> child_pc \<Rightarrow> rendezvous \<Rightarrow> bool" where
  "stopping lines c g = (read_sem g = 0 \<and> m_messageSize (shared g) = 0 \<and> (case c of
       B_Wait \<Rightarrow> write_sem g = 1 \<and> cout g = transcript lines
     | B_Test \<Rightarrow> write_sem g = 0 \<and> cout g = transcript lines
     | B_Close k \<Rightarrow> write_sem g = 0 \<and> k \<le> 2 \<and> cout g = transcript lines
     | B_Log_exit \<Rightarrow> write_sem g = 0 \<and> cout g = transcript lines
     | B_Exited \<Rightarrow> write_sem g = 0 \<and> cout g = transcript lines @ [Child_exited]
     | _ \<Rightarrow> False))"

definition after_loop :: "parent_pc \<Rightarrow> bool" where
  "after_loop p = (case p of A_Zero \<Rightarrow> True | A_Post_end \<Rightarrow> True | A_Wait_child \<Rightarrow> True | A_Cleanup _ \<Rightarrow> True | A_Log_exit \<Rightarrow> True
     | A_Exited \<Rightarrow> True | _ \<Rightarrow> False)"

text \<open>
  \<open>ds\<close> are the lines already answered, none of them empty; \<open>ns\<close> are the names at the start.
\<close>

definition in_course ::
  "ipc_call list \<Rightarrow> string set \<Rightarrow> byte list list \<Rightarrow> byte list list \<Rightarrow> parent_pc \<Rightarrow> child_pc \<Rightarrow> rendezvous \<Rightarrow> bool" where
  "in_course calls ns lines ds p c g = ([] \<notin> set ds \<and> (after_loop p \<longrightarrow> [] \<notin> set lines) \<and> (case p of
       A_Getline \<Rightarrow> idle c g \<and> lines = ds @ cin g \<and> cout g = transcript ds \<and> names g = ns
     | A_Size x \<Rightarrow> idle c g \<and> lines = ds @ x # cin g \<and> cout g = transcript ds \<and> names g = ns
     | A_Memset x \<Rightarrow> idle c g \<and> lines = ds @ x # cin g \<and> cout g = transcript ds \<and> names g = ns \<and>
         m_messageSize (shared g) = of_nat (length x)
     | A_Memcpy x \<Rightarrow> idle c g \<and> lines = ds @ x # cin g \<and> cout g = transcript ds \<and> names g = ns \<and>
         m_messageSize (shared g) = of_nat (length x) \<and> msg_buffer (shared g) = replicate BufferSize 0
     | A_Log x \<Rightarrow> idle c g \<and> lines = ds @ x # cin g \<and> cout g = transcript ds \<and> names g = ns \<and> published x g
     | A_Post x \<Rightarrow> idle c g \<and> lines = ds @ x # cin g \<and> cout g = transcript ds @ [Wrote (length x)] \<and> names g = ns \<and>
         published x g
     | A_Wait x \<Rightarrow> answering ds x c g \<and> lines = ds @ x # cin g \<and> names g = ns \<and> published x g
     | A_Zero \<Rightarrow> idle c g \<and> cout g = transcript lines \<and> names g = ns
     | A_Post_end \<Rightarrow> idle c g \<and> cout g = transcript lines \<and> names g = ns \<and> m_messageSize (shared g) = 0
     | A_Wait_child \<Rightarrow> stopping lines c g \<and> names g = ns
     | A_Cleanup cs \<Rightarrow> c = B_Exited \<and> cout g = transcript lines @ [Child_exited] \<and>
         (\<exists>made. calls = made @ cs \<and> names g = ns - unlinked made)
     | A_Log_exit \<Rightarrow> c = B_Exited \<and> cout g = transcript lines @ [Child_exited] \<and> names g = ns - unlinked calls
     | A_Exited \<Rightarrow>
         c = B_Exited \<and> cout g = transcript lines @ [Child_exited, Parent_exited] \<and> names g = ns - unlinked calls
     | A_Failed \<Rightarrow> False))"

definition delivery_inv :: "ipc_call list \<Rightarrow> string set \<Rightarrow> byte list list \<Rightarrow> process list \<times> rendezvous \<Rightarrow> bool" where
  "delivery_inv calls ns lines s \<longleftrightarrow> (\<exists>ds p c. fst s = [Parent p, Child c] \<and> in_course calls ns lines ds p c (snd s) \<and>
     length (msg_buffer (shared (snd s))) = BufferSize \<and> \<not> overrun (snd s) \<and> child_ended (snd s) = (c = B_Exited))"

lemma length_padded: "length x \<le> BufferSize \<Longrightarrow> length (padded x) = BufferSize"
  by (simp add: padded_def)

lemma c_string_padded: "fits x \<Longrightarrow> c_string (padded x) = Some x"
proof -
  assume x: "fits x"
  then obtain k where "BufferSize - length x = Suc k" by (metis Suc_diff_Suc fits_def)
  with x show ?thesis by (simp add: padded_def fits_def)
qed

lemma memcpy_padded:
  "length x \<le> BufferSize \<Longrightarrow> memcpy (replicate BufferSize 0) x (min (length x) BufferSize) = Some (padded x)"
  by (simp add: memcpy_def padded_def)

lemma transcript_append [simp]: "transcript (xs @ ys) = transcript xs @ transcript ys"
  by (simp add: transcript_def)

lemma transcript_single [simp]: "transcript [x] = [Wrote (length x), Read_size (length x), Content x]"
  by (simp add: transcript_def)

lemma BufferSize_u32: "length x < BufferSize \<Longrightarrow> unat (of_nat (length x) :: u32) = length x"
  by (simp add: BufferSize_def unat_of_nat)

lemma parent_in_course:
  assumes "in_course calls ns lines ds p c g" "parent_act calls False p g = Some (p', g')" "\<forall>x\<in>set lines. fits x"
    "length (msg_buffer (shared g)) = BufferSize" "\<not> overrun g" "child_ended g = (c = B_Exited)"
  shows "(\<exists>ds'. in_course calls ns lines ds' p' c g') \<and> length (msg_buffer (shared g')) = BufferSize \<and> \<not> overrun g'
    \<and> child_ended g' = child_ended g"
proof (cases p)
  case (A_Memcpy x)
  with assms have x: "fits x" "m_messageSize (shared g) = of_nat (length x)" by (auto simp: in_course_def after_loop_def)
  then have "p' = A_Log x" "g' = g\<lparr>shared := (shared g)\<lparr>msg_buffer := padded x\<rparr>\<rparr>"
    using assms(1,2) A_Memcpy by (auto simp: in_course_def after_loop_def set_buffer_def memcpy_padded fits_def padded_def)
  moreover have "length (padded x) = BufferSize" using x(1) by (simp add: length_padded fits_def)
  ultimately show ?thesis using assms(1,5) x(2) A_Memcpy by (auto simp: in_course_def after_loop_def idle_def published_def)
next
  case (A_Wait x)
  with assms(1,2) have "answering ds x c g" "read_sem g \<noteq> 0" "p' = A_Getline" "g' = g\<lparr>read_sem := read_sem g - 1\<rparr>"
    by (auto simp: in_course_def after_loop_def split: if_splits)
  with assms A_Wait show ?thesis
    by (cases c) (auto simp: in_course_def after_loop_def answering_def idle_def intro!: exI[of _ "ds @ [x]"])
next
  case (A_Cleanup cs)
  show ?thesis
  proof (cases cs)
    case (Cons call rest)
    from assms(1) A_Cleanup Cons obtain made where made: "calls = made @ call # rest" "names g = ns - unlinked made"
      by (auto simp: in_course_def after_loop_def)
    have "names (cleanup_call call g) = ns - unlinked (made @ [call])"
      using made(2) by (cases call) (auto simp: unlinked_def)
    with assms A_Cleanup Cons made(1) show ?thesis
      by (auto simp: in_course_def after_loop_def intro!: exI[of _ "made @ [call]"])
  qed (use assms A_Cleanup in \<open>auto simp: in_course_def after_loop_def\<close>)
next
  case A_Getline
  with assms show ?thesis by (cases "cin g") (auto simp: in_course_def after_loop_def idle_def)
next
  case (A_Memset x)
  with assms show ?thesis by (auto simp: in_course_def after_loop_def idle_def set_buffer_def)
next
  case A_Wait_child
  with assms show ?thesis
    by (cases c) (auto simp: in_course_def after_loop_def stopping_def unlinked_def split: if_splits intro!: exI[of _ "[]"])
qed (use assms in \<open>auto simp: in_course_def after_loop_def idle_def published_def answering_def stopping_def say_def\<close>)

lemma child_in_course:
  assumes "in_course calls ns lines ds p c g" "child_act False c g = Some (c', g')" "\<forall>x\<in>set lines. fits x"
    "length (msg_buffer (shared g)) = BufferSize" "\<not> overrun g" "child_ended g = (c = B_Exited)"
  shows "in_course calls ns lines ds p c' g' \<and> length (msg_buffer (shared g')) = BufferSize \<and> \<not> overrun g'
    \<and> child_ended g' = (c' = B_Exited)"
proof (cases p)
  case (A_Wait x)
  with assms have x: "fits x" "published x g" "answering ds x c g" by (auto simp: in_course_def after_loop_def)
  then have "m_messageSize (shared g) = 0 \<longleftrightarrow> x = []" "unat (m_messageSize (shared g)) = length x"
    using BufferSize_u32[of x] by (auto simp: published_def fits_def unat_eq_zero)
  with x assms A_Wait c_string_padded[of x] show ?thesis
    by (cases c) (auto simp: in_course_def after_loop_def answering_def published_def say_def split: if_splits nat.splits)
next
  case A_Wait_child
  with assms show ?thesis
    by (cases c) (auto simp: in_course_def after_loop_def stopping_def say_def split: if_splits nat.splits)
qed (use assms in \<open>auto simp: in_course_def after_loop_def idle_def split: if_splits\<close>)

section \<open>Every run ends\<close>

text \<open>The states with no step: both have exited, or the parent waits for an answer to an empty line.\<close>

definition rendezvous_final :: "process list \<times> rendezvous \<Rightarrow> bool" where
  "rendezvous_final s \<longleftrightarrow> fst s = [Parent A_Exited, Child B_Exited] \<or> fst s = [Parent (A_Wait []), Child B_Exited]"

definition parent_left :: "nat \<Rightarrow> nat \<Rightarrow> parent_pc \<Rightarrow> nat" where
  "parent_left k n p = (case p of
       A_Getline \<Rightarrow> 20 * n + 20 + k | A_Size _ \<Rightarrow> 20 * n + 39 + k | A_Memset _ \<Rightarrow> 20 * n + 38 + k
     | A_Memcpy _ \<Rightarrow> 20 * n + 37 + k | A_Log _ \<Rightarrow> 20 * n + 36 + k | A_Post _ \<Rightarrow> 20 * n + 35 + k | A_Wait _ \<Rightarrow> 20 * n + 26 + k
     | A_Zero \<Rightarrow> 19 + k | A_Post_end \<Rightarrow> 18 + k | A_Wait_child \<Rightarrow> 10 + k | A_Cleanup cs \<Rightarrow> 2 + length cs | A_Log_exit \<Rightarrow> 1
     | A_Exited \<Rightarrow> 0 | A_Failed \<Rightarrow> 0)"

definition child_left :: "nat \<Rightarrow> child_pc \<Rightarrow> nat" where
  "child_left w c = (case c of B_Wait \<Rightarrow> 7 * w | B_Test \<Rightarrow> 6 | B_Log_size \<Rightarrow> 5 | B_Log_content \<Rightarrow> 4 | B_Post \<Rightarrow> 3
     | B_Close k \<Rightarrow> 2 + k | B_Log_exit \<Rightarrow> 1 | B_Exited \<Rightarrow> 0 | B_Failed \<Rightarrow> 0)"

definition rendezvous_rank :: "ipc_call list \<Rightarrow> process list \<times> rendezvous \<Rightarrow> nat" where
  "rendezvous_rank calls s = (case fst s of
       [Parent p, Child c] \<Rightarrow> parent_left (length calls) (length (cin (snd s))) p + child_left (write_sem (snd s)) c
     | _ \<Rightarrow> 0)"

lemma cin_keeps [simp]: "cin (set_buffer b g) = cin g"
  by (simp add: set_buffer_def split: option.splits)

lemma parent_rank:
  assumes "parent_act calls False p g = Some (p', g')" "in_course calls ns lines ds p c g"
  shows "rendezvous_rank calls ([Parent p', Child c], g') < rendezvous_rank calls ([Parent p, Child c], g)"
proof (cases p)
  case A_Wait_child
  with assms show ?thesis by (auto simp: rendezvous_rank_def parent_left_def split: if_splits)
next
  case (A_Cleanup cs)
  with assms show ?thesis
    by (cases cs) (auto simp: rendezvous_rank_def parent_left_def in_course_def child_left_def)
next
  case (A_Post x)
  with assms show ?thesis by (auto simp: rendezvous_rank_def parent_left_def in_course_def idle_def child_left_def)
next
  case A_Post_end
  with assms show ?thesis by (auto simp: rendezvous_rank_def parent_left_def in_course_def idle_def child_left_def)
qed (use assms in \<open>auto simp: rendezvous_rank_def parent_left_def say_def split: if_splits list.splits\<close>)

lemma child_rank:
  assumes "child_act False c g = Some (c', g')" "in_course calls ns lines ds p c g"
  shows "rendezvous_rank calls ([Parent p, Child c'], g') < rendezvous_rank calls ([Parent p, Child c], g)"
proof (cases c)
  case B_Post
  with assms have "write_sem g = 0" by (cases p) (auto simp: in_course_def idle_def answering_def stopping_def)
  with assms B_Post show ?thesis by (auto simp: rendezvous_rank_def child_left_def)
next
  case (B_Close k)
  with assms show ?thesis by (cases k) (auto simp: rendezvous_rank_def child_left_def)
next
  case B_Wait
  with assms show ?thesis by (auto simp: rendezvous_rank_def child_left_def split: if_splits)
qed (use assms in \<open>auto simp: rendezvous_rank_def child_left_def say_def split: if_splits option.splits\<close>)

lemma delivery_invE:
  assumes "delivery_inv calls ns lines s"
  obtains ds p c g where "s = ([Parent p, Child c], g)" "in_course calls ns lines ds p c g"
    "length (msg_buffer (shared g)) = BufferSize" "\<not> overrun g" "child_ended g = (c = B_Exited)"
  using assms unfolding delivery_inv_def by (metis prod.collapse)

lemma delivery_step:
  assumes "delivery_inv calls ns lines s" "prog_step (rendezvous_act calls False) s t" "\<forall>x\<in>set lines. fits x"
  shows "delivery_inv calls ns lines t \<and> rendezvous_rank calls t < rendezvous_rank calls s"
  using assms(1)
proof (rule delivery_invE)
  fix ds p c g
  assume s: "s = ([Parent p, Child c], g)" and inv: "in_course calls ns lines ds p c g"
    "length (msg_buffer (shared g)) = BufferSize" "\<not> overrun g" "child_ended g = (c = B_Exited)"
  from assms(2)[unfolded s] show ?thesis
  proof (cases rule: ok_step_cases)
    case (parent p' g')
    from parent_in_course[OF inv(1) parent(1) assms(3) inv(2-4)] parent(2) inv(4) parent_rank[OF parent(1) inv(1)]
    show ?thesis by (auto simp: delivery_inv_def s)
  next
    case (child c' g')
    from child_in_course[OF inv(1) child(1) assms(3) inv(2-4)] child(2) child_rank[OF child(1) inv(1)]
    show ?thesis by (auto simp: delivery_inv_def s)
  qed
qed

lemma in_course_progress:
  assumes "in_course calls ns lines ds p c g" "child_ended g = (c = B_Exited)" "\<not> rendezvous_final ([Parent p, Child c], g)"
  shows "parent_act calls False p g \<noteq> None \<or> child_act False c g \<noteq> None"
proof (cases p)
  case (A_Wait x)
  with assms show ?thesis
    by (cases c) (auto simp: in_course_def answering_def rendezvous_final_def split: nat.splits)
next
  case A_Wait_child
  with assms show ?thesis by (cases c) (auto simp: in_course_def stopping_def split: nat.splits)
qed (use assms in \<open>auto simp: in_course_def rendezvous_final_def split: list.splits\<close>)

lemma delivery_progress:
  assumes "delivery_inv calls ns lines s" "\<not> rendezvous_final s"
  shows "\<exists>t. prog_step (rendezvous_act calls False) s t"
  using assms(1)
proof (rule delivery_invE)
  fix ds p c g
  assume s: "s = ([Parent p, Child c], g)" and inv: "in_course calls ns lines ds p c g" "child_ended g = (c = B_Exited)"
  from in_course_progress[OF inv] assms(2) s
  have "rendezvous_act calls False 0 (Parent p) g \<noteq> None \<or> rendezvous_act calls False 1 (Child c) g \<noteq> None"
    by (auto simp: rendezvous_act_def)
  then show ?thesis unfolding s
    using prog_stepI[of 0 "[Parent p, Child c]" "rendezvous_act calls False" g]
      prog_stepI[of 1 "[Parent p, Child c]" "rendezvous_act calls False" g] by fastforce
qed

lemma delivery_start: "delivery_inv calls ns lines (forked ns lines)"
  unfolding delivery_inv_def forked_def
  by (intro exI[of _ "[]"] exI[of _ A_Getline] exI[of _ B_Wait])
    (simp add: in_course_def after_loop_def idle_def SharedData_init_def transcript_def)

interpretation delivery: terminating_steps "\<lambda>s. s = forked ns lines \<and> (\<forall>x\<in>set lines. fits x)"
  "prog_step (rendezvous_act calls False)" "\<lambda>s. delivery_inv calls ns lines s \<and> (\<forall>x\<in>set lines. fits x)"
  rendezvous_final "rendezvous_rank calls" for calls ns lines
proof unfold_locales
  show "s = forked ns lines \<and> (\<forall>x\<in>set lines. fits x) \<Longrightarrow> delivery_inv calls ns lines s \<and> (\<forall>x\<in>set lines. fits x)" for s
    using delivery_start by blast
qed (use delivery_step delivery_progress in blast)+

section \<open>The end of a run\<close>

lemma delivered:
  assumes "delivery_inv calls ns lines s" "rendezvous_final s" "[] \<notin> set lines"
  shows "fst s = [Parent A_Exited, Child B_Exited] \<and> cout (snd s) = transcript lines @ [Child_exited, Parent_exited]
    \<and> names (snd s) = ns - unlinked calls \<and> \<not> overrun (snd s)"
  using assms(1)
proof (rule delivery_invE)
  fix ds p c g
  assume s: "s = ([Parent p, Child c], g)" and inv: "in_course calls ns lines ds p c g" "\<not> overrun g"
  from assms(2) consider "p = A_Exited" "c = B_Exited" | "p = A_Wait []" "c = B_Exited" by (auto simp: rendezvous_final_def s)
  then show ?thesis using inv assms(3) by cases (auto simp: s in_course_def)
qed

lemma never_exits:
  assumes "delivery_inv calls ns lines s" "[] \<in> set lines"
  shows "fst s \<noteq> [Parent A_Exited, Child c']"
  using assms(1)
proof (rule delivery_invE)
  fix ds p c g
  assume s: "s = ([Parent p, Child c], g)" and inv: "in_course calls ns lines ds p c g"
  then show ?thesis using assms(2) by (auto simp: in_course_def after_loop_def)
qed

lemma setups:
  "ipc_main shm_intro_setup (replicate 7 False) lines = Inr (forked {''/write_sema'', ''/read_done_sema'', ''/kafka''} lines)"
  "ipc_main mmap_intro_setup (replicate 4 False) lines = Inr (forked {''/write_sema'', ''/read_done_sema''} lines)"
  by (simp_all add: ipc_main_def shm_intro_setup_def mmap_intro_setup_def numeral_eq_Suc insert_commute)

lemma cleanups:
  "{''/write_sema'', ''/read_done_sema'', ''/kafka''} - unlinked shm_intro_cleanup = {}"
  "{''/write_sema'', ''/read_done_sema''} - unlinked mmap_intro_cleanup = {}"
  by (auto simp: unlinked_def shm_intro_cleanup_def mmap_intro_cleanup_def)

text \<open>The two programs: the calls before \<^verbatim>\<open>fork\<close> and the processes.\<close>

definition ipc_programs :: "(setup_call list \<times> (bool \<Rightarrow> nat \<Rightarrow> process \<Rightarrow> rendezvous \<Rightarrow> (process \<times> rendezvous) option)) set" where
  "ipc_programs = {(shm_intro_setup, shm_intro_processes), (mmap_intro_setup, mmap_intro_processes)}"

lemma program_start:
  assumes "(calls, act) \<in> ipc_programs" "ipc_main calls (replicate (length calls) False) lines = Inr s"
  obtains ns cleanup where "s = forked ns lines" "ns - unlinked cleanup = {}" "act = rendezvous_act cleanup"
proof -
  have "length shm_intro_setup = 7" "length mmap_intro_setup = 4"
    by (simp_all add: shm_intro_setup_def mmap_intro_setup_def)
  with assms setups[of lines] cleanups that show ?thesis
    by (auto simp: ipc_programs_def shm_intro_processes_def mmap_intro_processes_def)
qed

section \<open>Claims\<close>



text \<open>
  C34. At no time does the parent write the shared message while the child reads it, whatever the input
  and whichever calls fail.
\<close>

theorem message_access_exclusive:
  assumes "(choice_step (rendezvous_act calls))\<^sup>*\<^sup>* (forked ns lines) ([Parent p, Child c], g)"
  shows "\<not> (parent_writes p \<and> child_reads c)"
proof -
  have "turns_inv ([Parent p, Child c], g)" using turns.inv_reachable[of "forked ns lines"] assms by blast
  then show ?thesis by (auto simp: turns_inv_def tokens_def parent_token_def child_token_def)
qed

theorem message_access_exclusive_witness:
  "parent_writes (A_Size [104])
   \<and> (\<exists>g. (choice_step (rendezvous_act []))\<^sup>*\<^sup>* (forked {} [[104]]) ([Parent (A_Size [104]), Child B_Wait], g)) \<and> \<not> child_reads B_Wait"
proof -
  have "choice_step (rendezvous_act []) (forked {} [[104]]) ([Parent (A_Size [104]), Child B_Wait], (snd (forked {} [[104]]))\<lparr>cin := []\<rparr>)"
    unfolding forked_def snd_conv by (rule parent_moves[where f = False]) simp
  then have r: "(choice_step (rendezvous_act []))\<^sup>*\<^sup>* (forked {} [[104]])
      ([Parent (A_Size [104]), Child B_Wait], (snd (forked {} [[104]]))\<lparr>cin := []\<rparr>)" by (rule r_into_rtranclp)
  have "parent_writes (A_Size [104])" by (simp add: parent_writes_def)
  with message_access_exclusive[OF r] r show ?thesis by blast
qed

text \<open>
  An empty line stops the programs from ending: its size 0 is what tells the child to stop, so the
  child exits without an answer and the parent waits for ever. Every run comes to this state.
\<close>

lemma empty_line_blocks_parent:
  assumes "\<forall>x\<in>set lines. fits x" "[] \<in> set lines" "(prog_step (rendezvous_act calls False))\<^sup>*\<^sup>* (forked ns lines) s"
  shows "\<exists>t. (prog_step (rendezvous_act calls False))\<^sup>*\<^sup>* s t \<and> stuck (prog_step (rendezvous_act calls False)) t
    \<and> fst t = [Parent (A_Wait []), Child B_Exited]"
proof -
  have init: "forked ns lines = forked ns lines \<and> (\<forall>x\<in>set lines. fits x)" using assms(1) by blast
  obtain t where t: "(prog_step (rendezvous_act calls False))\<^sup>*\<^sup>* s t" "rendezvous_final t"
    using delivery.reaches_final[OF init assms(3)] by blast
  have inv: "delivery_inv calls ns lines t"
    using delivery.inv_reachable[OF init rtranclp_trans[OF assms(3) t(1)]] by blast
  with t(2) never_exits[OF inv assms(2)] have f: "fst t = [Parent (A_Wait []), Child B_Exited]"
    by (auto simp: rendezvous_final_def)
  from inv f have "read_sem (snd t) = 0"
    by (auto elim!: delivery_invE simp: in_course_def answering_def)
  with f have "stuck (prog_step (rendezvous_act calls False)) t"
    using stuck_prog_step[of "rendezvous_act calls False" "fst t" "snd t"] unfolding prod.collapse
    by (simp add: less_Suc_eq rendezvous_act_def)
  with t(1) f show ?thesis by blast
qed

lemma empty_line_blocks_parent_witness:
  "\<exists>t. (prog_step (rendezvous_act mmap_intro_cleanup False))\<^sup>*\<^sup>* (forked {''/write_sema'', ''/read_done_sema''} [[104], []]) t
     \<and> fst t = [Parent (A_Wait []), Child B_Exited]"
  using empty_line_blocks_parent[of "[[104], []]" mmap_intro_cleanup "{''/write_sema'', ''/read_done_sema''}", OF _ _ rtranclp.rtrancl_refl]
  by (auto simp: fits_def BufferSize_def)

text \<open>
  A line that fills the buffer leaves no room for the NUL: the child reads past the message when
  it prints the content.
\<close>

lemma long_line_overruns_buffer:
  assumes "BufferSize \<le> length x" "length x < 2 ^ 32" "0 \<notin> set x"
  shows "\<exists>s. (prog_step (rendezvous_act calls False))\<^sup>*\<^sup>* (forked ns (x # lines)) s \<and> overrun (snd s)"
proof -
  have size: "(of_nat (length x) :: u32) \<noteq> 0"
    using assms(1,2) by (auto simp: BufferSize_def word_of_nat_eq_0_iff dest: nat_dvd_not_less)
  have copy: "memcpy (replicate BufferSize 0) x BufferSize = Some (take BufferSize x)"
    using assms(1) by (simp add: memcpy_def)
  have "0 \<notin> set (take BufferSize x)" using assms(3) by (meson in_set_takeD)
  then have none: "c_string (take BufferSize x) = None" by (simp add: c_string_def)
  have "min (length x) BufferSize = BufferSize" using assms(1) by simp
  with size copy none have "\<exists>s. run_schedule (rendezvous_act calls False) [0, 0, 0, 0, 0, 0, 1, 1, 1, 1] (forked ns (x # lines)) = Some s
      \<and> overrun (snd s)"
    by (simp add: forked_def rendezvous_act_def set_buffer_def SharedData_init_def say_def)
  then show ?thesis using run_schedule_reachable by blast
qed

lemma long_line_overruns_buffer_witness:
  "\<exists>s. (prog_step (rendezvous_act shm_intro_cleanup False))\<^sup>*\<^sup>* (forked {} [replicate BufferSize 97]) s \<and> overrun (snd s)"
  by (rule long_line_overruns_buffer) (simp_all add: BufferSize_def)

end
