(* ===== verification/Pipes.thy ===== *)
theory Pipes
  imports Prelude
begin

text \<open>
  \<^verbatim>\<open>ipc/pipe_intro.cpp\<close>, \<^verbatim>\<open>ipc/dup.cpp\<close> and \<^verbatim>\<open>ipc/mkfifo_intro.cpp\<close>: a parent writes the lines of its standard
  input into a pipe, a child reads them. The programs differ in how the two get at the ends of the
  pipe. A pipe is a queue of bytes of limited capacity; a write may be taken in parts, a read
  returns some of the bytes there are, and the end of the input is seen once no process has the
  write end any more. The lemmas show that every run ends and that the bytes arrive in order, and
  that a full read makes the child print past its buffer.
\<close>

section \<open>The pipe and the processes\<close>

datatype end_user = In_parent | In_child

datatype pipe_line =
    Pipe_wrote nat                    \<comment> \<open>\<^verbatim>\<open>[PARENT]: wrote {} bytes\<close>\<close>
  | Pipe_read nat "byte list"         \<comment> \<open>\<^verbatim>\<open>[CHILD]: read {} bytes: {}\<close>\<close>
  | Reader_exited
  | Writer_exited

record pipe_state =
  in_pipe :: "byte list"
  writers :: "end_user set"           \<comment> \<open>who has the write end\<close>
  readers :: "end_user set"
  writer_came :: bool                 \<comment> \<open>a writer has opened the FIFO; true of a pipe\<close>
  reader_came :: bool
  lines_left :: "byte list list"
  printed_lines :: "pipe_line list"
  received :: "byte list"             \<comment> \<open>all bytes read so far\<close>
  reader_ended :: bool
  past_buffer :: bool                 \<comment> \<open>the buffer was read past its end\<close>

text \<open>What a process does before its loop.\<close>

datatype end_call =
    Close_write | Close_read | Dup2
  | Open_read | Await_writer          \<comment> \<open>\<^verbatim>\<open>open(FifoPath, O_RDONLY)\<close>: comes, then waits for a writer\<close>
  | Open_write | Await_reader

datatype writer_pc = W_Begin "end_call list" | W_Getline | W_Write nat "byte list" | W_Log nat | W_Close | W_Wait | W_Log_exit
  | W_Exited | W_Failed

datatype reader_pc = R_Begin "end_call list" | R_Read | R_Log "byte list" | R_Close | R_Log_exit | R_Exited | R_Failed

datatype pipe_process = Writer writer_pc | Reader reader_pc

fun end_call_act :: "end_user \<Rightarrow> end_call \<Rightarrow> pipe_state \<Rightarrow> pipe_state option" where
  "end_call_act u Close_write g = Some (g\<lparr>writers := writers g - {u}\<rparr>)"
| "end_call_act u Close_read g = Some (g\<lparr>readers := readers g - {u}\<rparr>)"
| "end_call_act u Dup2 g = Some g"
| "end_call_act u Open_read g = Some (g\<lparr>readers := insert u (readers g), reader_came := True\<rparr>)"
| "end_call_act u Open_write g = Some (g\<lparr>writers := insert u (writers g), writer_came := True\<rparr>)"
| "end_call_act u Await_writer g = (if writer_came g then Some g else None)"
| "end_call_act u Await_reader g = (if reader_came g then Some g else None)"

definition log_line :: "pipe_line \<Rightarrow> pipe_state \<Rightarrow> pipe_state" where
  "log_line e g = g\<lparr>printed_lines := printed_lines g @ [e]\<rparr>"

text \<open>
  \<open>fails\<close>: the system call of the action fails, the process exits and its ends are closed. \<open>k\<close> is the
  number of bytes a write puts into the pipe or a read takes out. A write into a pipe without a
  reader kills the process.
\<close>

definition writer_gone :: "pipe_state \<Rightarrow> writer_pc \<times> pipe_state" where
  "writer_gone g = (W_Failed, g\<lparr>writers := writers g - {In_parent}, readers := readers g - {In_parent}\<rparr>)"

fun writer_act :: "nat \<Rightarrow> bool \<Rightarrow> nat \<Rightarrow> writer_pc \<Rightarrow> pipe_state \<Rightarrow> (writer_pc \<times> pipe_state) option" where
  "writer_act cap fails k (W_Begin cs) g =
     (case cs of [] \<Rightarrow> Some (W_Getline, g)
      | c # cs' \<Rightarrow> if fails then Some (writer_gone g)
                  else map_option (\<lambda>g'. (W_Begin cs', g')) (end_call_act In_parent c g))"
| "writer_act cap fails k W_Getline g =
     (case lines_left g of [] \<Rightarrow> Some (W_Close, g)
      | input # rest \<Rightarrow> Some (W_Write (length input) input, g\<lparr>lines_left := rest\<rparr>))"
| "writer_act cap fails k (W_Write n bs) g =
     (if fails then Some (writer_gone g)
      else if bs = [] then Some (W_Log n, g)
      else if readers g = {} then Some (writer_gone g)
      else if 0 < k \<and> k \<le> length bs \<and> length (in_pipe g) + k \<le> cap
      then Some (W_Write n (drop k bs), g\<lparr>in_pipe := in_pipe g @ take k bs\<rparr>) else None)"
| "writer_act cap fails k (W_Log n) g = Some (W_Getline, log_line (Pipe_wrote n) g)"
| "writer_act cap fails k W_Close g =
     Some (if fails then writer_gone g else (W_Wait, g\<lparr>writers := writers g - {In_parent}\<rparr>))"
| "writer_act cap fails k W_Wait g =
     (if fails then Some (writer_gone g) else if reader_ended g then Some (W_Log_exit, g) else None)"
| "writer_act cap fails k W_Log_exit g = Some (W_Exited, log_line Writer_exited g)"
| "writer_act cap fails k W_Exited g = None"
| "writer_act cap fails k W_Failed g = None"

definition reader_gone :: "pipe_state \<Rightarrow> reader_pc \<times> pipe_state" where
  "reader_gone g =
     (R_Failed, g\<lparr>writers := writers g - {In_child}, readers := readers g - {In_child}, reader_ended := True\<rparr>)"

text \<open>The buffer is \<^verbatim>\<open>char buf[1024]{}\<close>: what was read, then zeros.\<close>

fun reader_act :: "bool \<Rightarrow> nat \<Rightarrow> reader_pc \<Rightarrow> pipe_state \<Rightarrow> (reader_pc \<times> pipe_state) option" where
  "reader_act fails k (R_Begin cs) g =
     (case cs of [] \<Rightarrow> Some (R_Read, g)
      | c # cs' \<Rightarrow> if fails then Some (reader_gone g)
                  else map_option (\<lambda>g'. (R_Begin cs', g')) (end_call_act In_child c g))"
| "reader_act fails k R_Read g =
     (if fails then Some (reader_gone g)
      else if in_pipe g = [] then (if writers g = {} then Some (R_Close, g) else None)
      else if 0 < k \<and> k \<le> length (in_pipe g) \<and> k \<le> 1024
      then Some (R_Log (take k (in_pipe g)), g\<lparr>in_pipe := drop k (in_pipe g), received := received g @ take k (in_pipe g)\<rparr>)
      else None)"
| "reader_act fails k (R_Log bs) g =
     Some (R_Read, case c_string (bs @ replicate (1024 - length bs) 0) of
        None \<Rightarrow> g\<lparr>past_buffer := True\<rparr> | Some s \<Rightarrow> log_line (Pipe_read (length bs) s) g)"
| "reader_act fails k R_Close g =
     Some (if fails then reader_gone g else (R_Log_exit, g\<lparr>readers := readers g - {In_child}\<rparr>))"
| "reader_act fails k R_Log_exit g = Some (R_Exited, (log_line Reader_exited g)\<lparr>reader_ended := True\<rparr>)"
| "reader_act fails k R_Exited g = None"
| "reader_act fails k R_Failed g = None"

definition pipe_act :: "nat \<Rightarrow> bool \<times> nat \<Rightarrow> nat \<Rightarrow> pipe_process \<Rightarrow> pipe_state \<Rightarrow> (pipe_process \<times> pipe_state) option" where
  "pipe_act cap c i l g =
     (case l of Writer w \<Rightarrow> map_option (\<lambda>(w', g'). (Writer w', g')) (writer_act cap (fst c) (snd c) w g)
      | Reader r \<Rightarrow> map_option (\<lambda>(r', g'). (Reader r', g')) (reader_act (fst c) (snd c) r g))"

section \<open>The programs\<close>

text \<open>
  After \<^verbatim>\<open>pipe\<close> and \<^verbatim>\<open>fork\<close> both processes have both ends; a FIFO has to be opened by each. The lists are
  what parent and child do before their loops.
\<close>

definition piped :: "end_call list \<Rightarrow> end_call list \<Rightarrow> byte list list \<Rightarrow> pipe_process list \<times> pipe_state" where
  "piped ps cs lines = ([Writer (W_Begin ps), Reader (R_Begin cs)],
     \<lparr>in_pipe = [], writers = {In_parent, In_child}, readers = {In_parent, In_child}, writer_came = True, reader_came = True,
      lines_left = lines, printed_lines = [], received = [], reader_ended = False, past_buffer = False\<rparr>)"

definition pipe_intro_start :: "byte list list \<Rightarrow> pipe_process list \<times> pipe_state" where
  "pipe_intro_start = piped [Close_read] [Close_write]"

definition dup_start :: "byte list list \<Rightarrow> pipe_process list \<times> pipe_state" where
  "dup_start = piped [Close_read] [Close_write, Dup2]"

definition fifo_start :: "byte list list \<Rightarrow> pipe_process list \<times> pipe_state" where
  "fifo_start lines = ([Writer (W_Begin [Open_write, Await_reader]), Reader (R_Begin [Open_read, Await_writer])],
     \<lparr>in_pipe = [], writers = {}, readers = {}, writer_came = False, reader_came = False,
      lines_left = lines, printed_lines = [], received = [], reader_ended = False, past_buffer = False\<rparr>)"

text \<open>
  The programs up to \<^verbatim>\<open>fork\<close>; \<open>None\<close> is \<^verbatim>\<open>exit(EXIT_FAILURE)\<close>. \<^verbatim>\<open>mkfifo\<close> works on the set of existing files:
  it fails when the path exists, and nothing removes it later.
\<close>

definition pipe_intro_main :: "bool \<Rightarrow> bool \<Rightarrow> byte list list \<Rightarrow> (pipe_process list \<times> pipe_state) option" where
  "pipe_intro_main pipe_fails fork_fails lines = (if pipe_fails \<or> fork_fails then None else Some (pipe_intro_start lines))"

definition dup_main :: "bool \<Rightarrow> bool \<Rightarrow> byte list list \<Rightarrow> (pipe_process list \<times> pipe_state) option" where
  "dup_main pipe_fails fork_fails lines = (if pipe_fails \<or> fork_fails then None else Some (dup_start lines))"

definition mkfifo_main ::
  "string set \<Rightarrow> bool \<Rightarrow> bool \<Rightarrow> byte list list \<Rightarrow> (pipe_process list \<times> pipe_state) option \<times> string set" where
  "mkfifo_main files mkfifo_fails fork_fails lines =
     (if mkfifo_fails \<or> ''/tmp/mkfifo_intro'' \<in> files then (None, files)
      else (if fork_fails then None else Some (fifo_start lines), insert ''/tmp/mkfifo_intro'' files))"

section \<open>Steps of the two processes\<close>

abbreviation pipe_step :: "nat \<Rightarrow> pipe_process list \<times> pipe_state \<Rightarrow> pipe_process list \<times> pipe_state \<Rightarrow> bool" where
  "pipe_step cap \<equiv> choice_step (\<lambda>k. pipe_act cap (False, k))"

lemma pipe_step_cases:
  assumes "pipe_step cap ([Writer w, Reader r], g) t"
  obtains (writer) k w' g' where "writer_act cap False k w g = Some (w', g')" "t = ([Writer w', Reader r], g')"
  | (reader) k r' g' where "reader_act False k r g = Some (r', g')" "t = ([Writer w, Reader r'], g')"
proof -
  from assms obtain i k l' g' where i: "i < length [Writer w, Reader r]"
    and act: "pipe_act cap (False, k) i ([Writer w, Reader r] ! i) g = Some (l', g')"
    and t: "t = ([Writer w, Reader r][i := l'], g')" by (rule choice_stepE)
  from i consider "i = 0" | "i = 1" by (auto simp: less_Suc_eq)
  then show ?thesis
  proof cases
    case 1
    with act obtain w' where "writer_act cap False k w g = Some (w', g')" "l' = Writer w'" by (auto simp: pipe_act_def)
    with 1 t show ?thesis by (intro writer) auto
  next
    case 2
    with act obtain r' where "reader_act False k r g = Some (r', g')" "l' = Reader r'" by (auto simp: pipe_act_def)
    with 2 t show ?thesis by (intro reader) auto
  qed
qed

lemma writer_moves:
  "writer_act cap False k w g = Some (w', g') \<Longrightarrow> pipe_step cap ([Writer w, Reader r], g) ([Writer w', Reader r], g')"
  using choice_stepI[of 0 "[Writer w, Reader r]" "\<lambda>k. pipe_act cap (False, k)" k g "Writer w'" g'] by (simp add: pipe_act_def)

lemma reader_moves:
  "reader_act False k r g = Some (r', g') \<Longrightarrow> pipe_step cap ([Writer w, Reader r], g) ([Writer w, Reader r'], g')"
  using choice_stepI[of 1 "[Writer w, Reader r]" "\<lambda>k. pipe_act cap (False, k)" k g "Reader r'" g'] by (simp add: pipe_act_def)

section \<open>The invariant\<close>

fun in_order :: "end_call list \<Rightarrow> bool" where
  "in_order [] = True"
| "in_order (c # cs) \<longleftrightarrow> in_order cs \<and> c \<notin> set cs \<and> (c = Await_writer \<longrightarrow> Open_read \<notin> set cs) \<and>
     (c = Await_reader \<longrightarrow> Open_write \<notin> set cs)"

definition parent_rest :: "writer_pc \<Rightarrow> end_call set" where
  "parent_rest w = (case w of W_Begin cs \<Rightarrow> set cs | _ \<Rightarrow> {})"

definition child_rest :: "reader_pc \<Rightarrow> end_call set" where
  "child_rest r = (case r of R_Begin cs \<Rightarrow> set cs | _ \<Rightarrow> {})"

definition w_closed :: "writer_pc \<Rightarrow> bool" where
  "w_closed w \<longleftrightarrow> w = W_Wait \<or> w = W_Log_exit \<or> w = W_Exited"

definition r_closed :: "reader_pc \<Rightarrow> bool" where
  "r_closed r \<longleftrightarrow> r = R_Log_exit \<or> r = R_Exited"

definition writer_begins :: "writer_pc \<Rightarrow> bool" where
  "writer_begins w = (case w of W_Begin cs \<Rightarrow> in_order cs \<and> list_all (\<lambda>c. c \<in> {Close_read, Open_write, Await_reader}) cs
     | W_Failed \<Rightarrow> False | _ \<Rightarrow> True)"

definition reader_begins :: "reader_pc \<Rightarrow> bool" where
  "reader_begins r = (case r of R_Begin cs \<Rightarrow> in_order cs \<and> list_all (\<lambda>c. c \<in> {Close_write, Dup2, Open_read, Await_writer}) cs
     | R_Failed \<Rightarrow> False | _ \<Rightarrow> True)"

text \<open>Neither passes its \<^verbatim>\<open>open\<close> of a FIFO before the other has come.\<close>

definition wait_for_other :: "writer_pc \<Rightarrow> reader_pc \<Rightarrow> bool" where
  "wait_for_other w r \<longleftrightarrow> (Open_read \<in> child_rest r \<longrightarrow> Await_reader \<in> parent_rest w) \<and>
     (Open_write \<in> parent_rest w \<longrightarrow> Await_writer \<in> child_rest r)"

definition ends_ok :: "writer_pc \<Rightarrow> reader_pc \<Rightarrow> pipe_state \<Rightarrow> bool" where
  "ends_ok w r g \<longleftrightarrow>
     (In_parent \<in> writers g \<longleftrightarrow> \<not> (Open_write \<in> parent_rest w \<or> w_closed w)) \<and> (In_child \<in> writers g \<longleftrightarrow> Close_write \<in> child_rest r) \<and>
     (In_child \<in> readers g \<longleftrightarrow> \<not> (Open_read \<in> child_rest r \<or> r_closed r)) \<and>
     (writer_came g \<longleftrightarrow> Open_write \<notin> parent_rest w) \<and> (reader_came g \<longleftrightarrow> Open_read \<notin> child_rest r)"

definition pending :: "writer_pc \<Rightarrow> byte list" where
  "pending w = (case w of W_Write _ bs \<Rightarrow> bs | _ \<Rightarrow> [])"

definition stream_ok :: "byte list list \<Rightarrow> writer_pc \<Rightarrow> reader_pc \<Rightarrow> pipe_state \<Rightarrow> bool" where
  "stream_ok lines w r g \<longleftrightarrow> received g @ in_pipe g @ pending w @ concat (lines_left g) = concat lines \<and>
     (w = W_Close \<or> w_closed w \<longrightarrow> lines_left g = []) \<and>
     (r = R_Close \<or> r_closed r \<longrightarrow> in_pipe g = [] \<and> w_closed w) \<and> (reader_ended g \<longleftrightarrow> r = R_Exited) \<and>
     (w = W_Log_exit \<or> w = W_Exited \<longrightarrow> r = R_Exited)"

lemmas rest_defs = parent_rest_def child_rest_def w_closed_def r_closed_def

lemma begin_step:
  assumes "end_call_act u c g = Some g'"
  shows "in_pipe g' = in_pipe g \<and> received g' = received g \<and> lines_left g' = lines_left g \<and> reader_ended g' = reader_ended g \<and>
    past_buffer g' = past_buffer g \<and> printed_lines g' = printed_lines g"
  using assms by (cases "(u, c, g)" rule: end_call_act.cases) (auto split: if_splits)

lemma writer_begin_keeps:
  assumes "end_call_act In_parent c g = Some g'" "writer_begins (W_Begin (c # cs))" "wait_for_other (W_Begin (c # cs)) r"
    "ends_ok (W_Begin (c # cs)) r g"
  shows "writer_begins (W_Begin cs) \<and> wait_for_other (W_Begin cs) r \<and> ends_ok (W_Begin cs) r g'"
proof -
  from assms(2) consider "c = Close_read" | "c = Open_write" | "c = Await_reader" by (auto simp: writer_begins_def)
  then show ?thesis
    using assms by cases
      (auto simp: writer_begins_def wait_for_other_def ends_ok_def parent_rest_def w_closed_def split: if_splits)
qed

lemma reader_begin_keeps:
  assumes "end_call_act In_child c g = Some g'" "reader_begins (R_Begin (c # cs))" "wait_for_other w (R_Begin (c # cs))"
    "ends_ok w (R_Begin (c # cs)) g"
  shows "reader_begins (R_Begin cs) \<and> wait_for_other w (R_Begin cs) \<and> ends_ok w (R_Begin cs) g'"
proof -
  from assms(2) consider "c = Close_write" | "c = Dup2" | "c = Open_read" | "c = Await_writer" by (auto simp: reader_begins_def)
  then show ?thesis
    using assms by cases
      (auto simp: reader_begins_def wait_for_other_def ends_ok_def child_rest_def r_closed_def split: if_splits)
qed

lemma writer_keeps:
  assumes act: "writer_act cap False k w g = Some (w', g')" and b: "writer_begins w" and l: "wait_for_other w r"
    and e: "ends_ok w r g" and st: "stream_ok lines w r g"
  shows "writer_begins w' \<and> wait_for_other w' r \<and> ends_ok w' r g' \<and> stream_ok lines w' r g'"
proof (cases w)
  case (W_Begin cs)
  show ?thesis
  proof (cases cs)
    case (Cons c cs')
    with act W_Begin have g1: "end_call_act In_parent c g = Some g'" "w' = W_Begin cs'" by auto
    from writer_begin_keeps[OF g1(1)] b l e W_Begin Cons g1(2)
    have "writer_begins w' \<and> wait_for_other w' r \<and> ends_ok w' r g'" by blast
    moreover have "stream_ok lines w' r g'"
      using st begin_step[OF g1(1)] W_Begin g1(2) unfolding stream_ok_def by (simp add: pending_def w_closed_def)
    ultimately show ?thesis by blast
  next
    case Nil
    with act W_Begin have "w' = W_Getline" "g' = g" by auto
    with b l e st W_Begin Nil show ?thesis
      by (simp add: writer_begins_def wait_for_other_def ends_ok_def stream_ok_def rest_defs pending_def)
  qed
next
  case (W_Write n bs)
  have "In_child \<in> readers g" using l e st W_Write
    by (simp add: wait_for_other_def ends_ok_def stream_ok_def parent_rest_def w_closed_def)
  then have "readers g \<noteq> {}" by blast
  then consider "w' = W_Log n" "g' = g" "bs = []"
    | "w' = W_Write n (drop k bs)" "g' = g\<lparr>in_pipe := in_pipe g @ take k bs\<rparr>"
    using act W_Write by (auto split: if_splits)
  then show ?thesis using b l e st W_Write
    by cases (simp_all add: writer_begins_def wait_for_other_def ends_ok_def stream_ok_def rest_defs pending_def)
next
  case W_Getline
  then consider "w' = W_Close" "g' = g" "lines_left g = []"
    | x rest where "w' = W_Write (length x) x" "g' = g\<lparr>lines_left := rest\<rparr>" "lines_left g = x # rest"
    using act by (auto split: list.splits)
  then show ?thesis using b l e st W_Getline
    by cases (simp_all add: writer_begins_def wait_for_other_def ends_ok_def stream_ok_def rest_defs pending_def)
next
  case W_Wait
  with act have "w' = W_Log_exit" "g' = g" "reader_ended g" by (auto split: if_splits)
  with b l e st W_Wait show ?thesis
    by (auto simp: writer_begins_def wait_for_other_def ends_ok_def stream_ok_def rest_defs pending_def)
next
  case W_Close
  with act have "w' = W_Wait" "g' = g\<lparr>writers := writers g - {In_parent}\<rparr>" by auto
  with b l e st W_Close show ?thesis
    by (auto simp: writer_begins_def wait_for_other_def ends_ok_def stream_ok_def rest_defs pending_def)
next
  case (W_Log n)
  with act have "w' = W_Getline" "g' = log_line (Pipe_wrote n) g" by auto
  with b l e st W_Log show ?thesis
    by (simp add: writer_begins_def wait_for_other_def ends_ok_def stream_ok_def rest_defs pending_def log_line_def)
next
  case W_Log_exit
  with act have "w' = W_Exited" "g' = log_line Writer_exited g" by auto
  with b l e st W_Log_exit show ?thesis
    by (auto simp: writer_begins_def wait_for_other_def ends_ok_def stream_ok_def rest_defs pending_def log_line_def)
qed (use act in simp_all)

lemma reader_keeps:
  assumes act: "reader_act False k r g = Some (r', g')" and b: "reader_begins r" and l: "wait_for_other w r"
    and e: "ends_ok w r g" and st: "stream_ok lines w r g" and wb: "writer_begins w"
  shows "reader_begins r' \<and> wait_for_other w r' \<and> ends_ok w r' g' \<and> stream_ok lines w r' g'"
proof (cases r)
  case (R_Begin cs)
  show ?thesis
  proof (cases cs)
    case (Cons c cs')
    with act R_Begin have g1: "end_call_act In_child c g = Some g'" "r' = R_Begin cs'" by auto
    from reader_begin_keeps[OF g1(1)] b l e R_Begin Cons g1(2)
    have "reader_begins r' \<and> wait_for_other w r' \<and> ends_ok w r' g'" by blast
    moreover have "stream_ok lines w r' g'"
      using st begin_step[OF g1(1)] R_Begin g1(2) unfolding stream_ok_def by (simp add: r_closed_def)
    ultimately show ?thesis by blast
  next
    case Nil
    with act R_Begin have "r' = R_Read" "g' = g" by auto
    with b l e st R_Begin Nil show ?thesis
      by (simp add: reader_begins_def wait_for_other_def ends_ok_def stream_ok_def rest_defs)
  qed
next
  case R_Read
  then consider "r' = R_Close" "g' = g" "in_pipe g = []" "writers g = {}"
    | "r' = R_Log (take k (in_pipe g))"
      "g' = g\<lparr>in_pipe := drop k (in_pipe g), received := received g @ take k (in_pipe g)\<rparr>"
    using act by (auto split: if_splits)
  then show ?thesis
  proof cases
    case 1
    with e have "Open_write \<in> parent_rest w \<or> w_closed w" by (simp add: ends_ok_def)
    moreover have "Open_write \<notin> parent_rest w" using l R_Read by (simp add: wait_for_other_def child_rest_def)
    ultimately show ?thesis using 1 b l e st R_Read
      by (auto simp: reader_begins_def wait_for_other_def ends_ok_def stream_ok_def rest_defs pending_def)
  next
    case 2
    with b l e st R_Read show ?thesis
      by (simp add: reader_begins_def wait_for_other_def ends_ok_def stream_ok_def rest_defs)
  qed
next
  case (R_Log bs)
  with act have "r' = R_Read" "g' = (case c_string (bs @ replicate (1024 - length bs) 0) of
        None \<Rightarrow> g\<lparr>past_buffer := True\<rparr> | Some s \<Rightarrow> log_line (Pipe_read (length bs) s) g)" by auto
  with b l e st R_Log show ?thesis
    by (simp add: reader_begins_def wait_for_other_def ends_ok_def stream_ok_def rest_defs log_line_def split: option.split)
next
  case R_Close
  with act have "r' = R_Log_exit" "g' = g\<lparr>readers := readers g - {In_child}\<rparr>" by auto
  with b l e st R_Close show ?thesis
    by (auto simp: reader_begins_def wait_for_other_def ends_ok_def stream_ok_def rest_defs)
next
  case R_Log_exit
  with act have "r' = R_Exited" "g' = (log_line Reader_exited g)\<lparr>reader_ended := True\<rparr>" by auto
  with b l e st R_Log_exit show ?thesis
    by (auto simp: reader_begins_def wait_for_other_def ends_ok_def stream_ok_def rest_defs log_line_def)
qed (use act in simp_all)

text \<open>What the child has shown, while its buffer was not left.\<close>

fun shown :: "pipe_line list \<Rightarrow> byte list" where
  "shown [] = []"
| "shown (Pipe_read n s # es) = s @ shown es"
| "shown (_ # es) = shown es"

lemma shown_append [simp]: "shown (es @ fs) = shown es @ shown fs"
  by (induction es rule: shown.induct) auto

definition shown_ok :: "byte list list \<Rightarrow> reader_pc \<Rightarrow> pipe_state \<Rightarrow> bool" where
  "shown_ok lines r g \<longleftrightarrow> (length (concat lines) < 1024 \<and> 0 \<notin> set (concat lines) \<longrightarrow> \<not> past_buffer g \<and>
     shown (printed_lines g) @ (case r of R_Log bs \<Rightarrow> bs | _ \<Rightarrow> []) = received g)"

lemma writer_shown:
  assumes "writer_act cap False k w g = Some (w', g')" "shown_ok lines r g"
  shows "shown_ok lines r g'"
proof (cases w)
  case (W_Begin cs)
  with assms show ?thesis by (cases cs) (auto simp: shown_ok_def dest!: begin_step)
qed (use assms in \<open>auto simp: shown_ok_def log_line_def writer_gone_def split: list.splits if_splits\<close>)

lemma reader_shown:
  assumes act: "reader_act False k r g = Some (r', g')" and ok: "shown_ok lines r g" and st: "stream_ok lines w r g"
  shows "shown_ok lines r' g'"
proof (cases r)
  case (R_Log bs)
  show ?thesis unfolding shown_ok_def
  proof
    assume small: "length (concat lines) < 1024 \<and> 0 \<notin> set (concat lines)"
    with ok R_Log have rec: "shown (printed_lines g) @ bs = received g" "\<not> past_buffer g" by (auto simp: shown_ok_def)
    have all: "received g @ in_pipe g @ pending w @ concat (lines_left g) = concat lines" using st by (simp add: stream_ok_def)
    have "set bs \<subseteq> set (concat lines)" "length bs \<le> length (concat lines)"
      unfolding all[symmetric] rec(1)[symmetric] by auto
    with small have bs: "0 \<notin> set bs" "length bs < 1024" by auto
    then obtain j where "1024 - length bs = Suc j" by (metis Suc_diff_Suc)
    with bs(1) have "c_string (bs @ replicate (1024 - length bs) 0) = Some bs" by simp
    with act R_Log rec show "\<not> past_buffer g' \<and> shown (printed_lines g') @ (case r' of R_Log bs \<Rightarrow> bs | _ \<Rightarrow> []) = received g'"
      by (auto simp: log_line_def)
  qed
next
  case (R_Begin cs)
  with act ok show ?thesis by (cases cs) (auto simp: shown_ok_def dest: begin_step)
qed (use act ok in \<open>auto simp: shown_ok_def log_line_def split: if_splits\<close>)

section \<open>Every run ends\<close>

definition pipe_final :: "pipe_process list \<times> pipe_state \<Rightarrow> bool" where
  "pipe_final s \<longleftrightarrow> fst s = [Writer W_Exited, Reader R_Exited]"

definition writer_left :: "nat \<Rightarrow> writer_pc \<Rightarrow> nat" where
  "writer_left n w = (case w of W_Begin cs \<Rightarrow> 5 * n + 11 + length cs | W_Getline \<Rightarrow> 5 * n + 10 | W_Write _ bs \<Rightarrow> 5 * n + 13 + 4 * length bs
     | W_Log _ \<Rightarrow> 5 * n + 12 | W_Close \<Rightarrow> 9 | W_Wait \<Rightarrow> 8 | W_Log_exit \<Rightarrow> 1 | W_Exited \<Rightarrow> 0 | W_Failed \<Rightarrow> 0)"

definition reader_left :: "reader_pc \<Rightarrow> nat" where
  "reader_left r = (case r of R_Begin cs \<Rightarrow> 12 + length cs | R_Read \<Rightarrow> 10 | R_Log _ \<Rightarrow> 11 | R_Close \<Rightarrow> 5 | R_Log_exit \<Rightarrow> 4
     | R_Exited \<Rightarrow> 0 | R_Failed \<Rightarrow> 0)"

definition pipe_rank :: "pipe_process list \<times> pipe_state \<Rightarrow> nat" where
  "pipe_rank s = (case fst s of [Writer w, Reader r] \<Rightarrow> writer_left (length (lines_left (snd s))) w + reader_left r
       + 4 * length (concat (lines_left (snd s))) + 3 * length (in_pipe (snd s)) | _ \<Rightarrow> 0)"

lemma writer_rank:
  assumes "writer_act cap False k w g = Some (w', g')" "writer_begins w'"
  shows "pipe_rank ([Writer w', Reader r], g') < pipe_rank ([Writer w, Reader r], g)"
proof (cases w)
  case (W_Begin cs)
  with assms show ?thesis
    by (cases cs) (auto simp: pipe_rank_def writer_left_def dest!: begin_step)
next
  case (W_Write n bs)
  with assms show ?thesis
    by (auto simp: pipe_rank_def writer_left_def writer_gone_def writer_begins_def split: if_splits)
qed (use assms in \<open>auto simp: pipe_rank_def writer_left_def log_line_def split: if_splits list.splits\<close>)

lemma reader_rank:
  assumes "reader_act False k r g = Some (r', g')"
  shows "pipe_rank ([Writer w, Reader r'], g') < pipe_rank ([Writer w, Reader r], g)"
proof (cases r)
  case (R_Begin cs)
  with assms show ?thesis by (cases cs) (auto simp: pipe_rank_def reader_left_def dest!: begin_step)
qed (use assms in \<open>auto simp: pipe_rank_def reader_left_def log_line_def split: if_splits option.splits\<close>)

definition pipe_invs :: "byte list list \<Rightarrow> pipe_process list \<times> pipe_state \<Rightarrow> bool" where
  "pipe_invs lines s \<longleftrightarrow> (\<exists>w r. fst s = [Writer w, Reader r] \<and> writer_begins w \<and> reader_begins r \<and> wait_for_other w r \<and>
     ends_ok w r (snd s) \<and> stream_ok lines w r (snd s) \<and> shown_ok lines r (snd s))"

lemma pipe_invsE:
  assumes "pipe_invs lines s"
  obtains w r g where "s = ([Writer w, Reader r], g)" "writer_begins w" "reader_begins r" "wait_for_other w r" "ends_ok w r g"
    "stream_ok lines w r g" "shown_ok lines r g"
  using assms unfolding pipe_invs_def by (metis prod.collapse)

lemma pipe_invs_step:
  assumes "pipe_invs lines s" "pipe_step cap s t"
  shows "pipe_invs lines t \<and> pipe_rank t < pipe_rank s"
  using assms(1)
proof (rule pipe_invsE)
  fix w r g
  assume s: "s = ([Writer w, Reader r], g)" and inv: "writer_begins w" "reader_begins r" "wait_for_other w r" "ends_ok w r g"
    "stream_ok lines w r g" "shown_ok lines r g"
  from assms(2)[unfolded s] show ?thesis
  proof (cases rule: pipe_step_cases)
    case (writer k w' g')
    note keep = writer_keeps[OF writer(1) inv(1,3,4,5)]
    with writer_rank[OF writer(1)] writer_shown[OF writer(1) inv(6)] inv(2) writer(2) show ?thesis
      unfolding pipe_invs_def s by auto
  next
    case (reader k r' g')
    note keep = reader_keeps[OF reader(1) inv(2,3,4,5,1)]
    with reader_rank[OF reader(1)] reader_shown[OF reader(1) inv(6,5)] inv(1) reader(2) show ?thesis
      unfolding pipe_invs_def s by auto
  qed
qed

lemma writer_can_move:
  assumes "writer_begins w" "ends_ok w r g" "Open_read \<notin> child_rest r" "in_pipe g = []" "0 < cap" "\<not> w_closed w"
  shows "\<exists>k. writer_act cap False k w g \<noteq> None"
proof (cases w)
  case (W_Begin cs)
  show ?thesis
  proof (cases cs)
    case (Cons c cs')
    with assms(1) W_Begin consider "c = Close_read" | "c = Open_write" | "c = Await_reader" by (auto simp: writer_begins_def)
    then show ?thesis using assms(2,3) W_Begin Cons by cases (auto simp: ends_ok_def)
  qed (use W_Begin in simp)
next
  case (W_Write n bs)
  then have "writer_act cap False 1 w g \<noteq> None" using assms(4,5) by (cases bs) auto
  then show ?thesis by blast
qed (use assms in \<open>auto simp: writer_begins_def w_closed_def split: list.splits\<close>)

lemma opening_can_move:
  assumes "writer_begins w" "Open_write \<in> parent_rest w"
  shows "\<exists>k. writer_act cap False k w g \<noteq> None"
proof -
  obtain ds where ds: "w = W_Begin ds" "Open_write \<in> set ds" using assms(2) by (cases w) (auto simp: parent_rest_def)
  then obtain c cs where w: "w = W_Begin (c # cs)" "Open_write \<in> set (c # cs)" by (cases ds) auto
  with assms(1) consider "c = Close_read" | "c = Open_write" by (auto simp: writer_begins_def)
  then show ?thesis using w by cases auto
qed

lemma pipe_progress:
  assumes "pipe_invs lines s" "\<not> pipe_final s" "0 < cap"
  shows "\<exists>t. pipe_step cap s t"
  using assms(1)
proof (rule pipe_invsE)
  fix w r g
  assume s: "s = ([Writer w, Reader r], g)" and inv: "writer_begins w" "reader_begins r" "wait_for_other w r" "ends_ok w r g"
    "stream_ok lines w r g"
  have "(\<exists>k. writer_act cap False k w g \<noteq> None) \<or> (\<exists>k. reader_act False k r g \<noteq> None)"
  proof (cases r)
    case (R_Begin cs)
    show ?thesis
    proof (cases cs)
      case (Cons c cs')
      with inv(2) R_Begin consider "c = Close_write" | "c = Dup2" | "c = Open_read" | "c = Await_writer"
        by (auto simp: reader_begins_def)
      then show ?thesis
      proof cases
        case 4
        show ?thesis
        proof (cases "writer_came g")
          case False
          with inv(4) have "Open_write \<in> parent_rest w" by (simp add: ends_ok_def)
          with opening_can_move[OF inv(1)] show ?thesis by blast
        qed (use R_Begin Cons 4 in simp)
      qed (use R_Begin Cons in simp_all)
    qed (use R_Begin in simp)
  next
    case R_Read
    show ?thesis
    proof (cases "in_pipe g = []")
      case True
      show ?thesis
      proof (cases "w_closed w")
        case False
        with writer_can_move[OF inv(1,4) _ True assms(3)] R_Read show ?thesis by (simp add: child_rest_def)
      next
        case closed: True
        then have "In_parent \<notin> writers g" "In_child \<notin> writers g" using inv(4) R_Read by (simp_all add: ends_ok_def child_rest_def)
        then have "writers g = {}" by (metis end_user.exhaust ex_in_conv)
        with True R_Read show ?thesis by simp
      qed
    next
      case False
      then have "reader_act False 1 r g \<noteq> None" using R_Read by (cases "in_pipe g") auto
      then show ?thesis by blast
    qed
  next
    case R_Exited
    with inv(5) assms(2) s have "w = W_Wait \<or> w = W_Log_exit" "reader_ended g"
      by (auto simp: stream_ok_def r_closed_def w_closed_def pipe_final_def)
    then show ?thesis by auto
  qed (use inv(2) in \<open>auto simp: reader_begins_def\<close>)
  then show ?thesis unfolding s by (auto dest: writer_moves reader_moves)
qed

text \<open>The starts of the three programs.\<close>

definition pipe_starts :: "byte list list \<Rightarrow> (pipe_process list \<times> pipe_state) set" where
  "pipe_starts lines = {pipe_intro_start lines, dup_start lines, fifo_start lines}"

lemma pipe_invs_start: "s \<in> pipe_starts lines \<Longrightarrow> pipe_invs lines s"
  by (auto simp: pipe_starts_def pipe_invs_def pipe_intro_start_def dup_start_def fifo_start_def piped_def writer_begins_def
      reader_begins_def wait_for_other_def ends_ok_def stream_ok_def shown_ok_def rest_defs pending_def)

interpretation pipes: terminating_steps "\<lambda>s. s \<in> pipe_starts lines" "pipe_step (Suc cap)" "pipe_invs lines" pipe_final pipe_rank
  for lines cap
  by unfold_locales (simp add: pipe_invs_start, blast dest: pipe_invs_step, blast dest: pipe_invs_step,
    blast dest: pipe_progress[OF _ _ zero_less_Suc])

lemma pipe_delivered:
  assumes "pipe_invs lines s" "pipe_final s"
  shows "received (snd s) = concat lines \<and> (length (concat lines) < 1024 \<and> 0 \<notin> set (concat lines) \<longrightarrow>
    \<not> past_buffer (snd s) \<and> shown (printed_lines (snd s)) = concat lines)"
  using assms(1)
proof (rule pipe_invsE)
  fix w r g
  assume s: "s = ([Writer w, Reader r], g)" and inv: "stream_ok lines w r g" "shown_ok lines r g"
  with assms(2) have "w = W_Exited" "r = R_Exited" by (simp_all add: pipe_final_def)
  with inv show ?thesis by (auto simp: s stream_ok_def shown_ok_def pending_def w_closed_def r_closed_def)
qed

section \<open>Claims\<close>



text \<open>
  A read that fills the child's buffer leaves no NUL in it, and printing it reads past its end: with
  a line of at least 1024 bytes and a pipe that holds them there is such a run.
\<close>

lemma full_read_leaves_buffer:
  assumes "1024 \<le> length x" "length x \<le> cap" "0 \<notin> set x"
  shows "\<exists>s. (pipe_step cap)\<^sup>*\<^sup>* (pipe_intro_start (x # lines)) s \<and> past_buffer (snd s)"
proof -
  have ne: "x \<noteq> []" using assms(1) by auto
  have "0 \<notin> set (take 1024 x)" using assms(3) by (meson in_set_takeD)
  then have none: "c_string (take 1024 x) = None" by (simp add: c_string_def)
  have m: "min (length x) 1024 = 1024" using assms(1) by simp
  have "\<exists>s. run_choices (\<lambda>k. pipe_act cap (False, k))
      [(0, 0), (0, 0), (0, 0), (0, length x), (1, 0), (1, 0), (1, 1024), (1, 0)] (pipe_intro_start (x # lines)) = Some s \<and> past_buffer (snd s)"
    using assms(1,2) ne none m by (simp add: pipe_intro_start_def piped_def pipe_act_def insert_Diff_if)
  then show ?thesis using run_choices_reachable by blast
qed

lemma full_read_leaves_buffer_witness:
  "\<exists>s. (pipe_step 65536)\<^sup>*\<^sup>* (pipe_intro_start [replicate 1024 97]) s \<and> past_buffer (snd s)"
  by (rule full_read_leaves_buffer) simp_all

text \<open>Nothing removes the FIFO, so that the program works once.\<close>

lemma mkfifo_second_run_fails:
  "fst (mkfifo_main (snd (mkfifo_main files False fork_fails lines)) mkfifo_fails fork_fails' lines') = None"
  by (simp add: mkfifo_main_def)

end
