(* ===== verification/Thread_Pool.thy ===== *)
theory Thread_Pool
  imports Prelude
begin

text \<open>
  The thread pool of \<^verbatim>\<open>structured_concurrency/packaged_task.cpp\<close> and its program: a main thread that
  submits tasks, waits for their futures and destroys the pool, and some workers that poll the
  task list. \<^verbatim>\<open>Submit\<close> does not take the mutex; the lemmas show that this is a data race and, with
  the list operations taken as single actions, that every task runs exactly once, that each future
  gets its task's result and that the program can always be brought to its end.
\<close>

section \<open>Tasks and the pool\<close>

datatype task_body = Print_thread | Throw_error string | Set_value int

datatype task_result = Returned | Threw string

definition result_of :: "task_body \<Rightarrow> task_result" where
  "result_of b = (case b of Throw_error e \<Rightarrow> Threw e | _ \<Rightarrow> Returned)"

datatype pool_line = Printing nat | Caught string | Value_is int

record pool_state =
  m_tasks :: "nat list"
  pool_mtx :: "nat option"
  futures :: "nat \<Rightarrow> task_result option"
  run_order :: "nat list"             \<comment> \<open>the tasks whose functions have run, in order\<close>
  ready_order :: "nat list"           \<comment> \<open>the tasks whose futures are ready, in order\<close>
  pool_value :: int
  pool_log :: "pool_line list"
  stop_requested :: "nat \<Rightarrow> bool"     \<comment> \<open>the stop state of each worker's \<^verbatim>\<open>std::jthread\<close>\<close>
  has_ended :: "nat \<Rightarrow> bool"
  bad_front :: bool                   \<comment> \<open>\<^verbatim>\<open>front()\<close> of an empty list was called\<close>

text \<open>Thread 0 is \<^verbatim>\<open>main\<close>, the others run \<^verbatim>\<open>WorkerThread\<close>.\<close>

datatype pool_pc =
    M_Submit nat | M_Get nat | M_Value
  | M_Stop nat                    \<comment> \<open>the destructor of the next \<^verbatim>\<open>std::jthread\<close>: \<^verbatim>\<open>request_stop()\<close>\<close>
  | M_Join nat                    \<comment> \<open>and \<^verbatim>\<open>join()\<close>\<close>
  | M_Done | M_Terminated
  | K_Check                       \<comment> \<open>\<^verbatim>\<open>stopToken.stop_requested()\<close>\<close>
  | K_Lock                        \<comment> \<open>\<^verbatim>\<open>std::lock_guard lock{m_mtx}\<close> in \<^verbatim>\<open>GetTask\<close>\<close>
  | K_Empty                       \<comment> \<open>\<^verbatim>\<open>m_tasks.empty()\<close>\<close>
  | K_Front                       \<comment> \<open>\<^verbatim>\<open>std::move(m_tasks.front())\<close>\<close>
  | K_Pop nat                     \<comment> \<open>\<^verbatim>\<open>m_tasks.pop_front()\<close>\<close>
  | K_Unlock "nat option"
  | K_Sleep
  | K_Run nat                     \<comment> \<open>\<^verbatim>\<open>(*task)()\<close>: the function\<close>
  | K_Ready nat                   \<comment> \<open>and its future\<close>
  | K_Exit

definition run_body :: "nat \<Rightarrow> task_body \<Rightarrow> pool_state \<Rightarrow> pool_state" where
  "run_body t b g = (case b of Print_thread \<Rightarrow> g\<lparr>pool_log := pool_log g @ [Printing t]\<rparr>
     | Throw_error e \<Rightarrow> g | Set_value v \<Rightarrow> g\<lparr>pool_value := v\<rparr>)"

text \<open>\<open>ts\<close> are the tasks, in the order of their submission, \<open>n\<close> the number of workers, and \<open>caught\<close> the tasks whose
  \<^verbatim>\<open>get\<close> stands in a \<^verbatim>\<open>try\<close> block.\<close>

fun pool_act :: "task_body list \<Rightarrow> (nat \<Rightarrow> bool) \<Rightarrow> nat \<Rightarrow> nat \<Rightarrow> pool_pc \<Rightarrow> pool_state \<Rightarrow> (pool_pc \<times> pool_state) option" where
  "pool_act ts caught n t (M_Submit j) g =
     (if j < length ts then Some (M_Submit (j + 1), g\<lparr>m_tasks := m_tasks g @ [j]\<rparr>) else Some (M_Get 0, g))"
| "pool_act ts caught n t (M_Get j) g =
     (if j < length ts then
        (case futures g j of None \<Rightarrow> None
         | Some Returned \<Rightarrow> Some (M_Get (j + 1), g)
         | Some (Threw e) \<Rightarrow>
             Some (if caught j then (M_Get (j + 1), g\<lparr>pool_log := pool_log g @ [Caught e]\<rparr>) else (M_Terminated, g)))
      else Some (M_Value, g))"
| "pool_act ts caught n t M_Value g = Some (M_Stop 0, g\<lparr>pool_log := pool_log g @ [Value_is (pool_value g)]\<rparr>)"
| "pool_act ts caught n t (M_Stop k) g =
     (if k < n then Some (M_Join k, g\<lparr>stop_requested := (stop_requested g)(Suc k := True)\<rparr>) else Some (M_Done, g))"
| "pool_act ts caught n t (M_Join k) g = (if has_ended g (Suc k) then Some (M_Stop (Suc k), g) else None)"
| "pool_act ts caught n t M_Done g = None"
| "pool_act ts caught n t M_Terminated g = None"
| "pool_act ts caught n t K_Check g =
     (if stop_requested g t then Some (K_Exit, g\<lparr>has_ended := (has_ended g)(t := True)\<rparr>) else Some (K_Lock, g))"
| "pool_act ts caught n t K_Lock g =
     (if pool_mtx g = None then Some (K_Empty, g\<lparr>pool_mtx := Some t\<rparr>) else None)"
| "pool_act ts caught n t K_Empty g = Some (if m_tasks g = [] then K_Unlock None else K_Front, g)"
| "pool_act ts caught n t K_Front g =
     (case m_tasks g of [] \<Rightarrow> Some (K_Unlock None, g\<lparr>bad_front := True\<rparr>) | j # _ \<Rightarrow> Some (K_Pop j, g))"
| "pool_act ts caught n t (K_Pop j) g = Some (K_Unlock (Some j), g\<lparr>m_tasks := tl (m_tasks g)\<rparr>)"
| "pool_act ts caught n t (K_Unlock r) g =
     Some (case r of None \<Rightarrow> K_Sleep | Some j \<Rightarrow> K_Run j, g\<lparr>pool_mtx := None\<rparr>)"
| "pool_act ts caught n t K_Sleep g = Some (K_Check, g)"
| "pool_act ts caught n t (K_Run j) g = Some (K_Ready j, (run_body t (ts ! j) g)\<lparr>run_order := run_order g @ [j]\<rparr>)"
| "pool_act ts caught n t (K_Ready j) g =
     Some (K_Check, g\<lparr>futures := (futures g)(j \<mapsto> result_of (ts ! j)), ready_order := ready_order g @ [j]\<rparr>)"
| "pool_act ts caught n t K_Exit g = None"

definition pool_start :: "nat \<Rightarrow> pool_pc list \<times> pool_state" where
  "pool_start n = (M_Submit 0 # replicate n K_Check,
     \<lparr>m_tasks = [], pool_mtx = None, futures = (\<lambda>_. None), run_order = [], ready_order = [], pool_value = 0, pool_log = [],
      stop_requested = (\<lambda>_. False), has_ended = (\<lambda>_. False), bad_front = False\<rparr>)"

text \<open>The program: three workers and four tasks, the third of which throws and is caught.\<close>

definition packaged_tasks :: "task_body list" where
  "packaged_tasks = [Print_thread, Print_thread, Throw_error ''Exception in task!'', Set_value 42]"

definition packaged_act :: "nat \<Rightarrow> pool_pc \<Rightarrow> pool_state \<Rightarrow> (pool_pc \<times> pool_state) option" where
  "packaged_act = pool_act packaged_tasks (\<lambda>j. j = 2) 3"

section \<open>The invariant\<close>

definition is_main :: "pool_pc \<Rightarrow> bool" where
  "is_main l = (case l of M_Submit _ \<Rightarrow> True | M_Get _ \<Rightarrow> True | M_Value \<Rightarrow> True | M_Stop _ \<Rightarrow> True | M_Join _ \<Rightarrow> True
     | M_Done \<Rightarrow> True | M_Terminated \<Rightarrow> True | _ \<Rightarrow> False)"

definition submitted :: "task_body list \<Rightarrow> pool_pc \<Rightarrow> nat" where
  "submitted ts l = (case l of M_Submit j \<Rightarrow> j | _ \<Rightarrow> length ts)"

definition collected :: "task_body list \<Rightarrow> pool_pc \<Rightarrow> nat" where
  "collected ts l = (case l of M_Submit _ \<Rightarrow> 0 | M_Get j \<Rightarrow> j | _ \<Rightarrow> length ts)"

definition holding :: "pool_pc \<Rightarrow> nat multiset" where
  "holding l = (case l of K_Unlock (Some j) \<Rightarrow> {#j#} | K_Run j \<Rightarrow> {#j#} | K_Ready j \<Rightarrow> {#j#} | _ \<Rightarrow> {#})"

definition pool_locked :: "pool_pc \<Rightarrow> bool" where
  "pool_locked l = (case l of K_Empty \<Rightarrow> True | K_Front \<Rightarrow> True | K_Pop _ \<Rightarrow> True | K_Unlock _ \<Rightarrow> True | _ \<Rightarrow> False)"

definition front_ok :: "pool_pc \<Rightarrow> nat list \<Rightarrow> bool" where
  "front_ok l q = (case l of K_Front \<Rightarrow> q \<noteq> [] | K_Pop j \<Rightarrow> q \<noteq> [] \<and> hd q = j | _ \<Rightarrow> True)"

definition thrown :: "task_body list \<Rightarrow> nat \<Rightarrow> pool_line list" where
  "thrown ts j = concat (map (\<lambda>b. case b of Throw_error e \<Rightarrow> [Caught e] | _ \<Rightarrow> []) (take j ts))"

definition value_printed :: "pool_pc \<Rightarrow> bool" where
  "value_printed l = (case l of M_Stop _ \<Rightarrow> True | M_Join _ \<Rightarrow> True | M_Done \<Rightarrow> True | _ \<Rightarrow> False)"

definition from_main :: "pool_line \<Rightarrow> bool" where
  "from_main e = (case e of Printing _ \<Rightarrow> False | _ \<Rightarrow> True)"

definition readying :: "pool_pc \<Rightarrow> nat multiset" where
  "readying l = (case l of K_Ready j \<Rightarrow> {#j#} | _ \<Rightarrow> {#})"

text \<open>What the tasks leave in \<^verbatim>\<open>value\<close>, and how often they print, when they run in the order \<open>js\<close>.\<close>

definition value_after :: "task_body list \<Rightarrow> nat list \<Rightarrow> int" where
  "value_after ts js = fold (\<lambda>j v. case ts ! j of Set_value w \<Rightarrow> w | _ \<Rightarrow> v) js 0"

definition prints :: "task_body list \<Rightarrow> nat list \<Rightarrow> nat" where
  "prints ts js = length (filter (\<lambda>j. ts ! j = Print_thread) js)"

text \<open>How many workers were asked to stop, and how many have been joined.\<close>

definition stops :: "nat \<Rightarrow> pool_pc \<Rightarrow> nat" where
  "stops n l = (case l of M_Stop k \<Rightarrow> k | M_Join k \<Rightarrow> Suc k | M_Done \<Rightarrow> n | _ \<Rightarrow> 0)"

definition joins :: "nat \<Rightarrow> pool_pc \<Rightarrow> nat" where
  "joins n l = (case l of M_Stop k \<Rightarrow> k | M_Join k \<Rightarrow> k | M_Done \<Rightarrow> n | _ \<Rightarrow> 0)"

text \<open>Who the threads are, and that the mutex and the flags agree with where they are.\<close>

definition thread_ok :: "pool_state \<Rightarrow> nat \<Rightarrow> pool_pc \<Rightarrow> bool" where
  "thread_ok g t l \<longleftrightarrow> is_main l = (t = 0) \<and> (pool_mtx g = Some t \<longleftrightarrow> pool_locked l) \<and> (has_ended g t \<longleftrightarrow> l = K_Exit) \<and>
     (l = K_Exit \<longrightarrow> stop_requested g t)"

definition threads_ok :: "nat \<Rightarrow> pool_pc list \<Rightarrow> pool_state \<Rightarrow> bool" where
  "threads_ok n ls g \<longleftrightarrow> length ls = Suc n \<and> (\<forall>t<length ls. thread_ok g t (ls ! t)) \<and> ls ! 0 \<noteq> M_Terminated \<and>
     (\<forall>t. pool_mtx g = Some t \<longrightarrow> t < length ls) \<and> stops n (ls ! 0) \<le> n \<and>
     (\<forall>t. stop_requested g t \<longleftrightarrow> 0 < t \<and> t \<le> stops n (ls ! 0)) \<and> (\<forall>t. 0 < t \<and> t \<le> joins n (ls ! 0) \<longrightarrow> has_ended g t)"

text \<open>Every submitted task is in the list, with one worker, or done.\<close>

definition tasks_ok :: "task_body list \<Rightarrow> pool_pc list \<Rightarrow> pool_state \<Rightarrow> bool" where
  "tasks_ok ts ls g \<longleftrightarrow> mset (m_tasks g) + sum_list (map holding ls) + mset (ready_order g) = mset [0..<submitted ts (ls ! 0)] \<and>
     submitted ts (ls ! 0) \<le> length ts \<and> collected ts (ls ! 0) \<le> length ts \<and>
     (\<forall>j. futures g j = (if j \<in> set (ready_order g) then Some (result_of (ts ! j)) else None)) \<and>
     (\<forall>j<collected ts (ls ! 0). j \<in> set (ready_order g)) \<and> (\<forall>t<length ls. front_ok (ls ! t) (m_tasks g)) \<and> \<not> bad_front g"

definition values_ok :: "task_body list \<Rightarrow> pool_pc list \<Rightarrow> pool_state \<Rightarrow> bool" where
  "values_ok ts ls g \<longleftrightarrow> mset (ready_order g) + sum_list (map readying ls) + {#} = mset (run_order g) \<and>
     pool_value g = value_after ts (run_order g) \<and>
     length (filter (\<lambda>e. \<not> from_main e) (pool_log g)) = prints ts (run_order g) \<and>
     filter from_main (pool_log g) = thrown ts (collected ts (ls ! 0)) @
       (if value_printed (ls ! 0) then [Value_is (pool_value g)] else [])"

definition pool_inv :: "task_body list \<Rightarrow> nat \<Rightarrow> pool_pc list \<times> pool_state \<Rightarrow> bool" where
  "pool_inv ts n s \<longleftrightarrow> threads_ok n (fst s) (snd s) \<and> tasks_ok ts (fst s) (snd s) \<and> values_ok ts (fst s) (snd s)"

definition catches_all :: "task_body list \<Rightarrow> (nat \<Rightarrow> bool) \<Rightarrow> bool" where
  "catches_all ts caught \<longleftrightarrow> (\<forall>j<length ts. \<forall>e. ts ! j = Throw_error e \<longrightarrow> caught j)"

lemma threads_okD:
  assumes "threads_ok n ls g"
  shows "length ls = Suc n" "\<And>t. t < length ls \<Longrightarrow> thread_ok g t (ls ! t)" "ls ! 0 \<noteq> M_Terminated"
    "\<And>t. pool_mtx g = Some t \<Longrightarrow> t < length ls" "stops n (ls ! 0) \<le> n"
    "\<And>t. stop_requested g t \<longleftrightarrow> 0 < t \<and> t \<le> stops n (ls ! 0)" "\<And>t. 0 < t \<Longrightarrow> t \<le> joins n (ls ! 0) \<Longrightarrow> has_ended g t"
  using assms by (auto simp: threads_ok_def)

lemma thread_okD:
  assumes "thread_ok g t l"
  shows "is_main l \<longleftrightarrow> t = 0" "pool_mtx g = Some t \<longleftrightarrow> pool_locked l" "has_ended g t \<longleftrightarrow> l = K_Exit" "l = K_Exit \<Longrightarrow> stop_requested g t"
  using assms by (auto simp: thread_ok_def)

lemma tasks_okD:
  assumes "tasks_ok ts ls g"
  shows "mset (m_tasks g) + sum_list (map holding ls) + mset (ready_order g) = mset [0..<submitted ts (ls ! 0)]"
    "submitted ts (ls ! 0) \<le> length ts" "collected ts (ls ! 0) \<le> length ts"
    "\<And>j. futures g j = (if j \<in> set (ready_order g) then Some (result_of (ts ! j)) else None)"
    "\<And>j. j < collected ts (ls ! 0) \<Longrightarrow> j \<in> set (ready_order g)" "\<And>t. t < length ls \<Longrightarrow> front_ok (ls ! t) (m_tasks g)" "\<not> bad_front g"
  using assms unfolding tasks_ok_def by blast+

text \<open>The effects of an action, part by part.\<close>

lemmas pool_splits = if_splits option.splits task_result.splits list.splits task_body.splits

lemma pool_act_thread_ok:
  assumes "pool_act ts caught n t l g = Some (l', g')" "thread_ok g t l"
  shows "thread_ok g' t l'"
  using assms by (cases l) (auto simp: thread_ok_def is_main_def pool_locked_def run_body_def split: pool_splits)

lemma pool_act_others:
  assumes "pool_act ts caught n t l g = Some (l', g')" "thread_ok g t l" "u \<noteq> t"
  shows "pool_mtx g' = Some u \<longleftrightarrow> pool_mtx g = Some u" "has_ended g' u \<longleftrightarrow> has_ended g u" "stop_requested g u \<Longrightarrow> stop_requested g' u"
proof -
  show "pool_mtx g' = Some u \<longleftrightarrow> pool_mtx g = Some u"
    using assms by (cases l) (auto simp: thread_ok_def pool_locked_def run_body_def split: pool_splits)
  show "has_ended g' u \<longleftrightarrow> has_ended g u" "stop_requested g u \<Longrightarrow> stop_requested g' u"
    using assms(1,3) by (cases l; auto simp: run_body_def split: pool_splits)+
qed

lemma pool_act_stops:
  assumes "pool_act ts caught n t l g = Some (l', g')" "is_main l" "stops n l \<le> n"
    and "\<And>u. stop_requested g u \<longleftrightarrow> 0 < u \<and> u \<le> stops n l" "\<And>u. 0 < u \<Longrightarrow> u \<le> joins n l \<Longrightarrow> has_ended g u"
  shows "stops n l' \<le> n \<and> (\<forall>u. stop_requested g' u \<longleftrightarrow> 0 < u \<and> u \<le> stops n l') \<and> (\<forall>u. 0 < u \<and> u \<le> joins n l' \<longrightarrow> has_ended g' u)"
proof -
  consider (stop) k where "l = M_Stop k" "k < n" "l' = M_Join k" "g' = g\<lparr>stop_requested := (stop_requested g)(Suc k := True)\<rparr>"
    | (join) k where "l = M_Join k" "has_ended g (Suc k)" "l' = M_Stop (Suc k)" "g' = g"
    | (same) "stops n l' = stops n l" "joins n l' = joins n l" "stop_requested g' = stop_requested g" "has_ended g' = has_ended g"
    using assms(1-3) by (cases l) (auto simp: is_main_def stops_def joins_def split: pool_splits)
  then show ?thesis
  proof cases
    case stop
    with assms(4,5) show ?thesis by (simp add: stops_def joins_def le_Suc_eq)
  next
    case join
    with assms(3-5) show ?thesis by (simp add: stops_def joins_def le_Suc_eq) blast
  qed (use assms(3-5) in simp)
qed

lemma pool_act_worker:
  assumes "pool_act ts caught n t l g = Some (l', g')" "\<not> is_main l"
  shows "stop_requested g' = stop_requested g \<and> (has_ended g u \<longrightarrow> has_ended g' u)"
  using assms by (cases l) (auto simp: is_main_def run_body_def split: pool_splits)

lemma threads_ok_step:
  assumes ok: "threads_ok n ls g" and t: "t < length ls" and act: "pool_act ts caught n t (ls ! t) g = Some (l', g')"
    and l': "l' \<noteq> M_Terminated"
  shows "threads_ok n (ls[t := l']) g'"
proof -
  note D = threads_okD[OF ok]
  note other = pool_act_others[OF act D(2)[OF t]]
  have main: "is_main (ls ! t) \<longleftrightarrow> t = 0" using thread_okD(1)[OF D(2)[OF t]] .
  have zero: "ls[t := l'] ! 0 = (if t = 0 then l' else ls ! 0)" using t by (cases "t = 0") auto
  have "\<forall>u<length (ls[t := l']). thread_ok g' u (ls[t := l'] ! u)"
  proof (rule all_nth_update)
    fix u assume u: "u < length ls" "u \<noteq> t"
    show "thread_ok g' u (ls ! u)" using D(2)[OF u(1)] other[OF u(2)] by (auto simp: thread_ok_def)
  qed (rule pool_act_thread_ok[OF act D(2)[OF t]])
  moreover have "\<forall>u. pool_mtx g' = Some u \<longrightarrow> u < length (ls[t := l'])"
    using D(4) other(1) t by (metis length_list_update)
  moreover have "stops n (ls[t := l'] ! 0) \<le> n \<and> (\<forall>u. stop_requested g' u \<longleftrightarrow> 0 < u \<and> u \<le> stops n (ls[t := l'] ! 0)) \<and>
      (\<forall>u. 0 < u \<and> u \<le> joins n (ls[t := l'] ! 0) \<longrightarrow> has_ended g' u)"
  proof (cases "t = 0")
    case True
    with pool_act_stops[OF act] D(5-7) main zero show ?thesis by simp
  next
    case False
    with pool_act_worker[OF act] D(5-7) main zero show ?thesis by simp
  qed
  moreover have "ls[t := l'] ! 0 \<noteq> M_Terminated" using D(3) l' zero by auto
  ultimately show ?thesis unfolding threads_ok_def using D(1) by simp
qed

lemma front_ok_append: "front_ok l q \<Longrightarrow> front_ok l (q @ q')"
  by (cases l) (auto simp: front_ok_def)

lemma front_ok_unlocked: "\<not> pool_locked l \<Longrightarrow> front_ok l q"
  by (cases l) (auto simp: front_ok_def pool_locked_def)

lemma pool_act_queue:
  assumes "pool_act ts caught n t l g = Some (l', g')"
  shows "(\<exists>js. m_tasks g' = m_tasks g @ js) \<or> pool_locked l"
  using assms by (cases l)
    (auto simp: pool_locked_def run_body_def split: pool_splits)

lemma pool_act_front:
  assumes "pool_act ts caught n t l g = Some (l', g')" "front_ok l (m_tasks g)" "\<not> bad_front g"
  shows "front_ok l' (m_tasks g') \<and> \<not> bad_front g'"
  using assms by (cases l)
    (auto simp: front_ok_def run_body_def split: pool_splits)

lemma pool_act_mset:
  assumes "pool_act ts caught n t l g = Some (l', g')" "front_ok l (m_tasks g)" "is_main l \<Longrightarrow> submitted ts l \<le> length ts"
  shows "mset (m_tasks g') + holding l' + mset (ready_order g') + (if is_main l then mset [0..<submitted ts l] else {#})
    = mset (m_tasks g) + holding l + mset (ready_order g) + (if is_main l then mset [0..<submitted ts l'] else {#})"
proof (cases l)
  case (K_Pop j)
  with assms obtain q where "m_tasks g = j # q" by (cases "m_tasks g") (auto simp: front_ok_def)
  with assms K_Pop show ?thesis by (auto simp: holding_def is_main_def)
next
  case (M_Submit j)
  with assms show ?thesis by (auto simp: holding_def is_main_def submitted_def atLeast0_lessThan_Suc split: if_splits)
qed (use assms in \<open>auto simp: holding_def is_main_def submitted_def run_body_def split: pool_splits\<close>)

lemma pool_act_ready:
  assumes "pool_act ts caught n t l g = Some (l', g')"
    and "\<And>j. futures g j = (if j \<in> set (ready_order g) then Some (result_of (ts ! j)) else None)"
  shows "futures g' j = (if j \<in> set (ready_order g') then Some (result_of (ts ! j)) else None)"
    and "set (ready_order g) \<subseteq> set (ready_order g')"
    and "is_main l \<Longrightarrow> submitted ts l \<le> length ts \<Longrightarrow> submitted ts l' \<le> length ts"
    and "is_main l \<Longrightarrow> collected ts l \<le> length ts \<Longrightarrow> collected ts l' \<le> length ts"
    and "is_main l \<Longrightarrow> l' \<noteq> M_Terminated \<Longrightarrow> i < collected ts l' \<Longrightarrow> i < collected ts l \<or> i \<in> set (ready_order g')"
proof -
  have fut: "futures g j = Some r \<Longrightarrow> j \<in> set (ready_order g)" for j r using assms(2)[of j] by (simp split: if_splits)
  show "futures g' j = (if j \<in> set (ready_order g') then Some (result_of (ts ! j)) else None)"
    using assms by (cases l) (auto simp: run_body_def split: pool_splits)
  show "set (ready_order g) \<subseteq> set (ready_order g')"
    using assms(1) by (cases l) (auto simp: run_body_def split: pool_splits)
  show "is_main l \<Longrightarrow> submitted ts l \<le> length ts \<Longrightarrow> submitted ts l' \<le> length ts"
    using assms(1) by (cases l) (auto simp: is_main_def submitted_def split: pool_splits)
  show "is_main l \<Longrightarrow> collected ts l \<le> length ts \<Longrightarrow> collected ts l' \<le> length ts"
    using assms(1) by (cases l) (auto simp: is_main_def collected_def split: pool_splits)
  show "is_main l \<Longrightarrow> l' \<noteq> M_Terminated \<Longrightarrow> i < collected ts l' \<Longrightarrow> i < collected ts l \<or> i \<in> set (ready_order g')"
    using assms(1) fut by (cases l) (auto simp: is_main_def collected_def less_Suc_eq split: pool_splits)
qed

lemma tasks_ok_step:
  assumes ok: "tasks_ok ts ls g" and th: "threads_ok n ls g" and t: "t < length ls"
    and act: "pool_act ts caught n t (ls ! t) g = Some (l', g')" and l': "l' \<noteq> M_Terminated"
  shows "tasks_ok ts (ls[t := l']) g'"
proof -
  note D = tasks_okD[OF ok] and T = threads_okD[OF th]
  have main: "is_main (ls ! t) \<longleftrightarrow> t = 0" using thread_okD(1)[OF T(2)[OF t]] .
  have sub: "is_main (ls ! t) \<Longrightarrow> submitted ts (ls ! t) \<le> length ts" using D(2) main by simp
  note front = pool_act_front[OF act D(6)[OF t] D(7)]
  note ms = pool_act_mset[OF act D(6)[OF t] sub] sum_list_map_update[OF t, of holding l']
  note ready = pool_act_ready[OF act D(4)]
  have zero: "ls[t := l'] ! 0 = (if t = 0 then l' else ls ! 0)" using t by (cases "t = 0") auto
  have "mset (m_tasks g') + sum_list (map holding (ls[t := l'])) + mset (ready_order g') = mset [0..<submitted ts (ls[t := l'] ! 0)]"
  proof (cases "t = 0")
    case True
    with ms(1) main have "mset (m_tasks g') + holding l' + mset (ready_order g') + mset [0..<submitted ts (ls ! 0)]
        = mset (m_tasks g) + holding (ls ! t) + mset (ready_order g) + mset [0..<submitted ts l']" by simp
    from balance_step[OF this ms(2) D(1)] show ?thesis using True zero by simp
  next
    case False
    with ms(1) main have "mset (m_tasks g') + holding l' + mset (ready_order g') + mset [0..<submitted ts (ls ! 0)]
        = mset (m_tasks g) + holding (ls ! t) + mset (ready_order g) + mset [0..<submitted ts (ls ! 0)]" by simp
    from balance_step[OF this ms(2) D(1)] show ?thesis using False zero by simp
  qed
  moreover have "\<forall>u<length (ls[t := l']). front_ok (ls[t := l'] ! u) (m_tasks g')"
  proof (rule all_nth_update)
    fix u assume u: "u < length ls" "u \<noteq> t"
    from pool_act_queue[OF act] show "front_ok (ls ! u) (m_tasks g')"
    proof
      assume "pool_locked (ls ! t)"
      then have "\<not> pool_locked (ls ! u)" using thread_okD(2)[OF T(2)[OF t]] thread_okD(2)[OF T(2)[OF u(1)]] u(2) by auto
      then show ?thesis by (rule front_ok_unlocked)
    qed (use D(6)[OF u(1)] front_ok_append in auto)
  qed (use front in blast)
  moreover have "\<forall>j. futures g' j = (if j \<in> set (ready_order g') then Some (result_of (ts ! j)) else None)" using ready(1) by blast
  moreover have "submitted ts (ls[t := l'] ! 0) \<le> length ts" "collected ts (ls[t := l'] ! 0) \<le> length ts"
    using ready(3,4) main zero D(2,3) by auto
  moreover have "\<forall>j<collected ts (ls[t := l'] ! 0). j \<in> set (ready_order g')"
    proof (intro allI impI)
    fix j assume "j < collected ts (ls[t := l'] ! 0)"
    then have "j < collected ts (ls ! 0) \<or> j \<in> set (ready_order g')" using ready(5)[OF _ l', of j] main zero by (cases "t = 0") auto
    then show "j \<in> set (ready_order g')" using D(5) ready(2) by auto
  qed
  ultimately show ?thesis unfolding tasks_ok_def using front by blast
qed

lemma values_okD:
  assumes "values_ok ts ls g"
  shows "mset (ready_order g) + sum_list (map readying ls) + {#} = mset (run_order g)" "pool_value g = value_after ts (run_order g)"
    "length (filter (\<lambda>e. \<not> from_main e) (pool_log g)) = prints ts (run_order g)"
    "filter from_main (pool_log g) = thrown ts (collected ts (ls ! 0)) @ (if value_printed (ls ! 0) then [Value_is (pool_value g)] else [])"
  using assms unfolding values_ok_def by blast+

lemma held_by:
  assumes "j \<in># sum_list (map holding ls)"
  obtains t where "t < length ls" "j \<in># holding (ls ! t)"
proof -
  have "\<exists>t<length ls. j \<in># holding (ls ! t)" using assms
  proof (induction ls)
    case (Cons l ls)
    then consider "j \<in># holding l" | t where "t < length ls" "j \<in># holding (ls ! t)" by auto
    then show ?case
    proof cases
      case 2
      then show ?thesis by (intro exI[of _ "Suc t"]) simp
    qed (auto intro!: exI[of _ 0])
  qed simp
  then show thesis using that by blast
qed

text \<open>A task that a worker has is not done; once all futures were read, no worker has one.\<close>

lemma held_not_ready:
  assumes "tasks_ok ts ls g" "t < length ls" "j \<in># holding (ls ! t)"
  shows "j < submitted ts (ls ! 0)" "j \<notin> set (ready_order g)"
proof -
  have "sum_list (map holding (ls[t := K_Check])) + holding (ls ! t) = sum_list (map holding ls) + holding K_Check"
    by (rule sum_list_map_update[OF assms(2)])
  then have "sum_list (map holding ls) = sum_list (map holding (ls[t := K_Check])) + holding (ls ! t)" by (simp add: holding_def)
  with tasks_okD(1)[OF assms(1)] have "mset (m_tasks g) + (sum_list (map holding (ls[t := K_Check])) + holding (ls ! t)) + mset (ready_order g)
      = mset [0..<submitted ts (ls ! 0)]" by simp
  from arg_cong[OF this, of "\<lambda>m. count m j"] assms(3) have le: "count (holding (ls ! t)) j + count (mset (ready_order g)) j \<le> (if j < submitted ts (ls ! 0) then 1 else 0)"
    and pos: "0 < count (holding (ls ! t)) j" by (auto simp: count_mset_set)
  from le pos show "j < submitted ts (ls ! 0)" by (metis add_is_0 le_zero_eq less_numeral_extra(3))
  from le have "count (holding (ls ! t)) j + count (mset (ready_order g)) j \<le> 1" by (rule order_trans) simp
  with pos have "count (mset (ready_order g)) j = 0" by linarith
  then show "j \<notin> set (ready_order g)" by (simp only: count_mset_0_iff not_False_eq_True)
qed

lemma pool_act_log:
  assumes "pool_act ts caught n t l g = Some (l', g')" "is_main l" "l' \<noteq> M_Terminated" "collected ts l \<le> length ts"
    and "\<And>j. futures g j = (if j \<in> set (ready_order g) then Some (result_of (ts ! j)) else None)"
    and "filter from_main (pool_log g) = thrown ts (collected ts l) @ (if value_printed l then [Value_is (pool_value g)] else [])"
  shows "filter from_main (pool_log g') = thrown ts (collected ts l') @ (if value_printed l' then [Value_is (pool_value g')] else [])"
proof (cases l)
  case (M_Get j)
  have "thrown ts (Suc j) = thrown ts j @ (case ts ! j of Throw_error e \<Rightarrow> [Caught e] | _ \<Rightarrow> [])" if "j < length ts"
    using that by (simp add: thrown_def take_Suc_conv_app_nth split: task_body.splits)
  then show ?thesis using assms M_Get
    by (auto simp: collected_def value_printed_def from_main_def result_of_def split: pool_splits)
qed (use assms in \<open>auto simp: is_main_def collected_def value_printed_def from_main_def thrown_def split: pool_splits\<close>)

lemma pool_act_values:
  assumes "pool_act ts caught n t l g = Some (l', g')" "pool_value g = value_after ts (run_order g)"
    "length (filter (\<lambda>e. \<not> from_main e) (pool_log g)) = prints ts (run_order g)"
  shows "mset (ready_order g') + readying l' + {#} + mset (run_order g) = mset (ready_order g) + readying l + {#} + mset (run_order g')"
    "pool_value g' = value_after ts (run_order g')" "length (filter (\<lambda>e. \<not> from_main e) (pool_log g')) = prints ts (run_order g')"
    "\<not> is_main l \<Longrightarrow> filter from_main (pool_log g') = filter from_main (pool_log g)"
    "pool_value g' = pool_value g \<or> (\<exists>j. j \<in># holding l)"
proof -
  show "mset (ready_order g') + readying l' + {#} + mset (run_order g) = mset (ready_order g) + readying l + {#} + mset (run_order g')"
    using assms(1) by (cases l) (auto simp: readying_def run_body_def split: pool_splits)
  show "pool_value g' = value_after ts (run_order g')"
    using assms(1,2) by (cases l) (auto simp: value_after_def run_body_def split: pool_splits)
  show "length (filter (\<lambda>e. \<not> from_main e) (pool_log g')) = prints ts (run_order g')"
    using assms(1,3) by (cases l) (auto simp: prints_def from_main_def run_body_def split: pool_splits)
  show "\<not> is_main l \<Longrightarrow> filter from_main (pool_log g') = filter from_main (pool_log g)"
    using assms(1) by (cases l) (auto simp: is_main_def from_main_def run_body_def split: pool_splits)
  show "pool_value g' = pool_value g \<or> (\<exists>j. j \<in># holding l)"
    using assms(1) by (cases l) (auto simp: holding_def run_body_def split: pool_splits)
qed

lemma values_ok_step:
  assumes ok: "values_ok ts ls g" and tk: "tasks_ok ts ls g" and th: "threads_ok n ls g" and t: "t < length ls"
    and act: "pool_act ts caught n t (ls ! t) g = Some (l', g')" and l': "l' \<noteq> M_Terminated"
  shows "values_ok ts (ls[t := l']) g'"
proof -
  note D = values_okD[OF ok] and K = tasks_okD[OF tk]
  note val = pool_act_values[OF act D(2,3)]
  have main: "is_main (ls ! t) \<longleftrightarrow> t = 0" using thread_okD(1)[OF threads_okD(2)[OF th t]] .
  have "mset (ready_order g') + sum_list (map readying (ls[t := l'])) + {#} = mset (run_order g')"
    by (rule balance_step[OF val(1) sum_list_map_update[OF t, of readying l'] D(1)])
  moreover have "filter from_main (pool_log g') = thrown ts (collected ts (ls[t := l'] ! 0)) @
       (if value_printed (ls[t := l'] ! 0) then [Value_is (pool_value g')] else [])"
  proof (cases "t = 0")
    case True
    with pool_act_log[OF act _ l' _ K(4)] main K(3) D(4) t show ?thesis by simp
  next
    case False
    have "pool_value g' = pool_value g" if "value_printed (ls ! 0)"
    proof -
      have c: "collected ts (ls ! 0) = length ts" using that by (auto simp: value_printed_def collected_def split: pool_pc.splits)
      have "j \<notin># holding (ls ! t)" for j using held_not_ready[OF tk t, of j] K(2) K(5)[of j] c by auto
      with val(5) show ?thesis by blast
    qed
    with False val(4) main D(4) show ?thesis by auto
  qed
  ultimately show ?thesis unfolding values_ok_def using val(2,3) by blast
qed

lemma never_terminated:
  assumes "tasks_ok ts ls g" "catches_all ts caught" "pool_act ts caught n t l g = Some (l', g')"
  shows "l' \<noteq> M_Terminated"
proof
  assume "l' = M_Terminated"
  with assms(3) obtain j e where "l = M_Get j" "j < length ts" "futures g j = Some (Threw e)" "\<not> caught j"
    by (cases l) (auto split: pool_splits)
  with tasks_okD(4)[OF assms(1), of j] assms(2) show False
    by (auto simp: catches_all_def result_of_def split: if_splits task_body.splits)
qed

lemma pool_inv_step:
  assumes "pool_inv ts n s" "catches_all ts caught" "prog_step (pool_act ts caught n) s s'"
  shows "pool_inv ts n s'"
proof -
  obtain ls g where s: "s = (ls, g)" by (cases s)
  from assms(3)[unfolded s] obtain t l' g' where st: "t < length ls" "pool_act ts caught n t (ls ! t) g = Some (l', g')" "s' = (ls[t := l'], g')"
    by (rule prog_stepE)
  have inv: "threads_ok n ls g" "tasks_ok ts ls g" "values_ok ts ls g" using assms(1) s by (auto simp: pool_inv_def)
  note l' = never_terminated[OF inv(2) assms(2) st(2)]
  show ?thesis using threads_ok_step[OF inv(1) st(1,2) l'] tasks_ok_step[OF inv(2,1) st(1,2) l'] values_ok_step[OF inv(3,2,1) st(1,2) l']
    by (simp add: pool_inv_def st(3))
qed

lemma pool_inv_start: "pool_inv ts n (pool_start n)"
proof -
  have h: "sum_list (map holding (replicate n K_Check)) = {#}" "sum_list (map readying (replicate n K_Check)) = {#}"
    by (induction n) (auto simp: holding_def readying_def)
  have "thread_ok (snd (pool_start n)) t (fst (pool_start n) ! t)" if "t < Suc n" for t
    using that by (cases t) (auto simp: pool_start_def thread_ok_def is_main_def pool_locked_def)
  then have "threads_ok n (fst (pool_start n)) (snd (pool_start n))"
    by (auto simp: threads_ok_def pool_start_def stops_def joins_def)
  moreover have "front_ok (fst (pool_start n) ! t) []" if "t < Suc n" for t
    using that by (cases t) (auto simp: pool_start_def front_ok_def)
  then have "tasks_ok ts (fst (pool_start n)) (snd (pool_start n))"
    using h by (auto simp: tasks_ok_def pool_start_def submitted_def collected_def holding_def)
  moreover have "values_ok ts (fst (pool_start n)) (snd (pool_start n))"
    using h by (auto simp: values_ok_def pool_start_def value_after_def prints_def collected_def thrown_def value_printed_def readying_def)
  ultimately show ?thesis by (simp add: pool_inv_def)
qed

section \<open>The program can always be finished\<close>

definition main_left :: "task_body list \<Rightarrow> nat \<Rightarrow> pool_pc \<Rightarrow> nat" where
  "main_left ts n l = (case l of M_Submit j \<Rightarrow> 2 * length ts - j + 2 * n + 4 | M_Get j \<Rightarrow> length ts - j + 2 * n + 3
     | M_Value \<Rightarrow> 2 * n + 2 | M_Stop k \<Rightarrow> 2 * (n - k) + 1 | M_Join k \<Rightarrow> 2 * (n - k) | _ \<Rightarrow> 0)"

text \<open>How far a worker is from its next task, or from its end; \<open>e\<close> tells that the list is empty.\<close>

definition worker_left :: "bool \<Rightarrow> pool_pc \<Rightarrow> nat" where
  "worker_left e l = (case l of K_Sleep \<Rightarrow> 9 | K_Check \<Rightarrow> 8 | K_Lock \<Rightarrow> if e then 13 else 7 | K_Empty \<Rightarrow> if e then 12 else 6
     | K_Front \<Rightarrow> 5 | K_Pop _ \<Rightarrow> 4 | K_Unlock None \<Rightarrow> 10 | K_Unlock (Some _) \<Rightarrow> 23 | K_Run _ \<Rightarrow> 22 | K_Ready _ \<Rightarrow> 21 | _ \<Rightarrow> 0)"

definition pool_rank :: "task_body list \<Rightarrow> nat \<Rightarrow> pool_pc list \<times> pool_state \<Rightarrow> nat" where
  "pool_rank ts n s = main_left ts n (fst s ! 0) + 40 * Suc n * (length ts - submitted ts (fst s ! 0) + length (m_tasks (snd s))) +
     sum_list (map (worker_left (m_tasks (snd s) = [])) (fst s))"

lemma worker_left_emptied: "sum_list (map (worker_left e) ls) \<le> sum_list (map (worker_left e') ls) + 6 * length ls"
proof (induction ls)
  case (Cons l ls)
  have "worker_left e l \<le> worker_left e' l + 6" by (cases l) (auto simp: worker_left_def)
  with Cons show ?case by simp
qed simp

lemma worker_left_filled: "sum_list (map (worker_left False) ls) \<le> sum_list (map (worker_left e) ls)"
proof (induction ls)
  case (Cons l ls)
  have "worker_left False l \<le> worker_left e l" by (cases l) (auto simp: worker_left_def split: option.splits)
  with Cons show ?case by simp
qed simp

text \<open>Only a worker that finds nothing to do and goes round again does not get on.\<close>

lemma pool_act_left:
  assumes "pool_act ts caught n t l g = Some (l', g')" "l' \<noteq> M_Terminated" "l = K_Check \<Longrightarrow> stop_requested g t \<or> m_tasks g \<noteq> []"
    "front_ok l (m_tasks g)" "m_tasks g' = m_tasks g" "stops n l \<le> n" "submitted ts l \<le> length ts"
  shows "main_left ts n l' + worker_left (m_tasks g = []) l' < main_left ts n l + worker_left (m_tasks g = []) l"
proof (cases l)
  case (K_Pop j)
  with assms(4) obtain q where "m_tasks g = j # q" by (auto simp: front_ok_def neq_Nil_conv)
  with assms(1,5) K_Pop show ?thesis by auto
qed (use assms(1-4,6,7) assms(5)[symmetric] in \<open>auto simp: main_left_def worker_left_def front_ok_def submitted_def stops_def run_body_def split: pool_splits\<close>)

lemma pool_act_queue_change:
  assumes "pool_act ts caught n t l g = Some (l', g')" "front_ok l (m_tasks g)" "m_tasks g' \<noteq> m_tasks g"
  obtains (submit) j where "l = M_Submit j" "j < length ts" "l' = M_Submit (Suc j)" "m_tasks g' = m_tasks g @ [j]"
    | (pop) j q where "l = K_Pop j" "l' = K_Unlock (Some j)" "m_tasks g = j # q" "m_tasks g' = q"
  using assms by (cases l) (auto simp: front_ok_def run_body_def neq_Nil_conv split: pool_splits)

lemma pool_act_submitted:
  assumes "pool_act ts caught n t l g = Some (l', g')" "is_main l" "submitted ts l \<le> length ts" "m_tasks g' = m_tasks g"
  shows "submitted ts l' = submitted ts l"
proof (cases l)
  case (M_Submit j)
  with assms show ?thesis by (auto simp: submitted_def split: if_splits)
qed (use assms(1-3) in \<open>auto simp: is_main_def submitted_def split: pool_splits\<close>)

lemma main_counts:
  "is_main l \<Longrightarrow> worker_left e l = 0" "\<not> is_main l \<Longrightarrow> main_left ts n l = 0"
  "\<not> is_main l \<Longrightarrow> stops n l = 0" "\<not> is_main l \<Longrightarrow> submitted ts l = length ts"
  by (simp_all add: is_main_def worker_left_def main_left_def stops_def submitted_def split: pool_pc.splits)

lemma pool_rank_step:
  assumes inv: "threads_ok n ls g" "tasks_ok ts ls g" and t: "t < length ls"
    and act: "pool_act ts caught n t (ls ! t) g = Some (l', g')" "l' \<noteq> M_Terminated"
    and prod: "ls ! t = K_Check \<Longrightarrow> stop_requested g t \<or> m_tasks g \<noteq> []"
  shows "pool_rank ts n (ls[t := l'], g') < pool_rank ts n (ls, g)"
proof -
  note T = threads_okD[OF inv(1)] and K = tasks_okD[OF inv(2)]
  have zero: "ls[t := l'] ! 0 = (if t = 0 then l' else ls ! 0)" using t by (cases "t = 0") auto
  have main: "is_main (ls ! t) \<longleftrightarrow> t = 0" "is_main l' \<longleftrightarrow> t = 0"
    using thread_okD(1)[OF T(2)[OF t]] thread_okD(1)[OF pool_act_thread_ok[OF act(1) T(2)[OF t]]] .
  note upd = sum_list_map_update[OF t, of "worker_left (m_tasks g' = [])" l']
  show ?thesis
  proof (cases "m_tasks g' = m_tasks g")
    case True
    have "stops n (ls ! t) \<le> n" "submitted ts (ls ! t) \<le> length ts"
      using T(5) K(2) main_counts(3,4)[of "ls ! t"] main by (cases "t = 0"; simp)+
    note left = pool_act_left[OF act prod K(6)[OF t] True this]
    have "submitted ts (ls[t := l'] ! 0) = submitted ts (ls ! 0)"
      using pool_act_submitted[OF act(1) _ _ True] K(2) main zero by (cases "t = 0") auto
    moreover have "main_left ts n (ls[t := l'] ! 0) + sum_list (map (worker_left (m_tasks g = [])) (ls[t := l'])) <
        main_left ts n (ls ! 0) + sum_list (map (worker_left (m_tasks g = [])) ls)"
      using left upd True zero main_counts(1,2) main by (cases "t = 0") auto
    ultimately show ?thesis using True by (simp add: pool_rank_def)
  next
    case False
    from act(1) K(6)[OF t] this show ?thesis
    proof (cases rule: pool_act_queue_change)
      case (submit j)
      then have t0: "t = 0" using main by (simp add: is_main_def)
      have "sum_list (map (worker_left False) (ls[t := l'])) \<le> sum_list (map (worker_left (m_tasks g = [])) ls)"
        using upd worker_left_filled[of ls "m_tasks g = []"] submit main_counts(1) main t0 by simp
      moreover have "main_left ts n l' < main_left ts n (ls ! t)" using submit by (simp add: main_left_def)
      moreover have "length ts - submitted ts (ls[t := l'] ! 0) + length (m_tasks g') = length ts - submitted ts (ls ! 0) + length (m_tasks g)"
        using submit t0 zero by (simp add: submitted_def)
      moreover have "m_tasks g' \<noteq> []" using submit by simp
      ultimately show ?thesis using t0 zero by (simp add: pool_rank_def)
    next
      case (pop j q)
      then have "t \<noteq> 0" using main by (auto simp: is_main_def)
      have "sum_list (map (worker_left (q = [])) (ls[t := l'])) \<le> sum_list (map (worker_left (m_tasks g = [])) ls) + 6 * Suc n + 23"
        using upd worker_left_emptied[of "q = []" ls "m_tasks g = []"] pop T(1) by (simp add: worker_left_def)
      then show ?thesis using pop zero \<open>t \<noteq> 0\<close> by (simp add: pool_rank_def algebra_simps)
    qed
  qed
qed

lemma main_has_nothing: "is_main l \<Longrightarrow> \<not> pool_locked l \<and> holding l = {#}"
  by (simp add: is_main_def pool_locked_def holding_def split: pool_pc.splits)

lemma worker_moves:
  assumes "\<not> is_main l" "l \<noteq> K_Exit" "pool_mtx g = None \<or> l \<noteq> K_Lock"
  shows "pool_act ts caught n t l g \<noteq> None"
  using assms by (cases l) (auto simp: is_main_def split: list.splits)

lemma pool_productive:
  assumes inv: "threads_ok n ls g" "tasks_ok ts ls g" and n: "0 < n" and nd: "ls ! 0 \<noteq> M_Done"
  shows "\<exists>t<length ls. \<exists>l' g'. pool_act ts caught n t (ls ! t) g = Some (l', g') \<and>
    (ls ! t = K_Check \<longrightarrow> stop_requested g t \<or> m_tasks g \<noteq> [])"
proof -
  note T = threads_okD[OF inv(1)] and K = tasks_okD[OF inv(2)]
  have m: "0 < length ls" "is_main (ls ! 0)" using T(1) thread_okD(1)[OF T(2), of 0] by auto
  have go: ?thesis if t: "t < length ls" "t \<noteq> 0" "ls ! t \<noteq> K_Exit" "pool_mtx g = None \<or> ls ! t \<noteq> K_Lock"
    "ls ! t = K_Check \<longrightarrow> stop_requested g t \<or> m_tasks g \<noteq> []" for t
  proof -
    have "\<not> is_main (ls ! t)" using thread_okD(1)[OF T(2)[OF t(1)]] t(2) by simp
    from worker_moves[OF this t(3,4)] show ?thesis using t(1,5) by (auto intro!: exI[of _ t])
  qed
  show ?thesis
  proof (cases "pool_act ts caught n 0 (ls ! 0) g")
    case None
    show ?thesis
    proof (cases "pool_mtx g")
      case (Some h)
      then have "pool_locked (ls ! h)" "h < length ls" using T(4) thread_okD(2)[OF T(2)] by auto
      moreover from this main_has_nothing[OF m(2)] have "h \<noteq> 0" by metis
      ultimately show ?thesis by (intro go[of h]) (auto simp: pool_locked_def)
    next
      case free: None
      from None m(2) nd T(3) consider (get) j where "ls ! 0 = M_Get j" "j < length ts" "futures g j = None"
        | (join) k where "ls ! 0 = M_Join k" "\<not> has_ended g (Suc k)"
        by (cases "ls ! 0") (auto simp: is_main_def split: pool_splits)
      then show ?thesis
      proof cases
        case get
        from get K(4)[of j] have "j \<notin> set (ready_order g)" by (auto split: if_splits)
        moreover have "j \<in># mset [0..<submitted ts (ls ! 0)]" using get by (simp add: submitted_def)
        ultimately have "j \<in> set (m_tasks g) \<or> j \<in># sum_list (map holding ls)" unfolding K(1)[symmetric] by auto
        then show ?thesis
        proof
          assume "j \<in># sum_list (map holding ls)"
          then obtain t where t: "t < length ls" "j \<in># holding (ls ! t)" by (rule held_by)
          moreover from this main_has_nothing[OF m(2)] have "t \<noteq> 0" by (metis empty_iff set_mset_empty)
          ultimately show ?thesis by (intro go[of t]) (auto simp: holding_def)
        next
          assume "j \<in> set (m_tasks g)"
          then have "m_tasks g \<noteq> []" by auto
          moreover have "\<not> stop_requested g 1" using T(6) get by (simp add: stops_def)
          then have "ls ! 1 \<noteq> K_Exit" using thread_okD(4)[OF T(2), of 1] T(1) n by auto
          ultimately show ?thesis using T(1) n free by (intro go[of 1]) auto
        qed
      next
        case join
        then have "Suc k < length ls" "stop_requested g (Suc k)" using T(1,5) T(6)[of "Suc k"] by (auto simp: stops_def)
        moreover from this join have "ls ! Suc k \<noteq> K_Exit" using thread_okD(3)[OF T(2)] by auto
        ultimately show ?thesis using free by (intro go[of "Suc k"]) auto
      qed
    qed
  qed (use m nd in \<open>auto intro!: exI[of _ 0] simp: is_main_def\<close>)
qed

definition pool_done :: "pool_pc list \<times> pool_state \<Rightarrow> bool" where
  "pool_done s \<longleftrightarrow> fst s ! 0 = M_Done"

interpretation pool: finishing_steps "\<lambda>s. s = pool_start n \<and> catches_all ts caught \<and> 0 < n" "prog_step (pool_act ts caught n)"
  "\<lambda>s. pool_inv ts n s \<and> catches_all ts caught \<and> 0 < n" pool_done "pool_rank ts n" for ts caught n
proof unfold_locales
  fix s assume "pool_inv ts n s \<and> catches_all ts caught \<and> 0 < n" "\<not> pool_done s"
  then obtain ls g where s: "s = (ls, g)" and inv: "threads_ok n ls g" "tasks_ok ts ls g" and c: "catches_all ts caught" "0 < n"
    and nd: "ls ! 0 \<noteq> M_Done" by (cases s) (auto simp: pool_inv_def pool_done_def)
  from pool_productive[OF inv c(2) nd] obtain t l' g' where t: "t < length ls" "pool_act ts caught n t (ls ! t) g = Some (l', g')"
    "ls ! t = K_Check \<longrightarrow> stop_requested g t \<or> m_tasks g \<noteq> []" by blast
  have "prog_step (pool_act ts caught n) (ls, g) (ls[t := l'], g')" using t(1,2) by (rule prog_stepI)
  moreover have "pool_rank ts n (ls[t := l'], g') < pool_rank ts n (ls, g)"
    using pool_rank_step[OF inv t(1,2) never_terminated[OF inv(2) c(1) t(2)]] t(3) by blast
  ultimately show "\<exists>s'. prog_step (pool_act ts caught n) s s' \<and> pool_rank ts n s' < pool_rank ts n s" unfolding s by blast
qed (auto simp: pool_inv_start dest: pool_inv_step)

section \<open>What the program does\<close>

lemma run_within_submitted:
  assumes "tasks_ok ts ls g" "values_ok ts ls g"
  shows "mset (run_order g) \<subseteq># mset [0..<submitted ts (ls ! 0)]"
proof -
  have "sum_list (map readying ls) \<subseteq># sum_list (map holding ls)"
  proof (induction ls)
    case (Cons l ls)
    have "readying l \<subseteq># holding l" by (cases l) (auto simp: readying_def holding_def)
    with Cons show ?case by (simp add: subset_mset.add_mono)
  qed simp
  then have "mset (ready_order g) + sum_list (map readying ls) \<subseteq># mset (ready_order g) + sum_list (map holding ls)" by simp
  also have "\<dots> \<subseteq># mset (m_tasks g) + (mset (ready_order g) + sum_list (map holding ls))" by simp
  also have "\<dots> = mset [0..<submitted ts (ls ! 0)]" unfolding tasks_okD(1)[OF assms(1), symmetric] by (simp only: ac_simps)
  finally show ?thesis unfolding values_okD(1)[OF assms(2), symmetric] by (simp only: add_0_right)
qed

lemma run_orderD:
  assumes "pool_inv ts n s"
  shows "distinct (run_order (snd s))" "set (ready_order (snd s)) \<subseteq> set (run_order (snd s))" "set (run_order (snd s)) \<subseteq> {..<length ts}"
    "pool_done s \<Longrightarrow> mset (run_order (snd s)) = mset [0..<length ts]"
proof -
  obtain ls g where s: "s = (ls, g)" and inv: "tasks_ok ts ls g" "values_ok ts ls g" using assms by (cases s) (auto simp: pool_inv_def)
  note sub = run_within_submitted[OF inv]
  have "count (mset (run_order g)) j \<le> 1" for j
  proof (rule order_trans[OF mset_subset_eq_count[OF sub]])
    show "count (mset [0..<submitted ts (ls ! 0)]) j \<le> 1" by (simp add: count_mset_set')
  qed
  then have "count (mset (run_order g)) j = (if j \<in> set (run_order g) then 1 else 0)" for j
  proof (cases "j \<in> set (run_order g)")
    case True
    then have "0 < count (mset (run_order g)) j" by simp
    moreover have "count (mset (run_order g)) j \<le> 1" by fact
    ultimately have "count (mset (run_order g)) j = 1" by linarith
    with True show ?thesis by (simp only: if_True)
  qed (simp add: count_mset_0_iff)
  then show d: "distinct (run_order (snd s))" unfolding s distinct_count_atmost_1 by simp
  have r: "set (run_order g) \<subseteq> {..<length ts}"
  proof
    fix j assume "j \<in> set (run_order g)"
    then have "j \<in># mset [0..<submitted ts (ls ! 0)]" using mset_subset_eqD[OF sub] by simp
    then show "j \<in> {..<length ts}" using tasks_okD(2)[OF inv(1)] by simp
  qed
  have rd: "set (ready_order g) \<subseteq> set (run_order g)"
  proof -
    have "set_mset (mset (ready_order g)) \<subseteq> set_mset (mset (run_order g))"
      unfolding values_okD(1)[OF inv(2), symmetric] by (simp only: set_mset_union Un_upper1 add_0_right)
    then show ?thesis by simp
  qed
  show "set (run_order (snd s)) \<subseteq> {..<length ts}" "set (ready_order (snd s)) \<subseteq> set (run_order (snd s))"
    unfolding s snd_conv by (rule r, rule rd)
  assume "pool_done s"
  then have "collected ts (ls ! 0) = length ts" using s by (simp add: pool_done_def collected_def)
  then have "j \<in> set (run_order g)" if "j < length ts" for j using tasks_okD(5)[OF inv(1), of j] that subsetD[OF rd] by simp
  with r have "set (run_order g) = {..<length ts}" by blast
  then have "set (run_order g) = set [0..<length ts]" by (simp add: atLeast0LessThan)
  then show "mset (run_order (snd s)) = mset [0..<length ts]"
    using set_eq_iff_mset_eq_distinct[OF d distinct_upt] unfolding s snd_conv by (simp only:)
qed

lemma pool_doneD:
  assumes "pool_inv ts n s" "pool_done s"
  shows "filter from_main (pool_log (snd s)) = thrown ts (length ts) @ [Value_is (value_after ts (run_order (snd s)))]"
    "length (filter (\<lambda>e. \<not> from_main e) (pool_log (snd s))) = prints ts (run_order (snd s))"
    "fst s = M_Done # replicate n K_Exit"
proof -
  obtain ls g where s: "s = (ls, g)" by (cases s)
  with assms have m: "ls ! 0 = M_Done" and T: "threads_ok n ls g" and V: "values_ok ts ls g" by (auto simp: pool_inv_def pool_done_def)
  note T = threads_okD[OF T] and V = values_okD[OF V]
  show "filter from_main (pool_log (snd s)) = thrown ts (length ts) @ [Value_is (value_after ts (run_order (snd s)))]"
    using V(2,4) m s by (simp add: collected_def value_printed_def)
  show "length (filter (\<lambda>e. \<not> from_main e) (pool_log (snd s))) = prints ts (run_order (snd s))" using V(3) s by simp
  have "ls ! t = (M_Done # replicate n K_Exit) ! t" if t: "t < Suc n" for t
  proof (cases t)
    case (Suc k)
    with t T(7)[of t] m have "has_ended g t" by (simp add: joins_def)
    with thread_okD(3)[OF T(2)] T(1) t Suc show ?thesis by simp
  qed (use m in simp)
  then show "fst s = M_Done # replicate n K_Exit" unfolding s fst_conv by (intro nth_equalityI) (simp_all add: T(1))
qed


text \<open>One worker does all the tasks, then the pool is destroyed.\<close>

definition one_worker :: "nat list" where
  "one_worker = replicate 5 0 @ replicate 32 1 @ replicate 7 0 @ [1, 0, 0, 2, 0, 0, 3, 0, 0]"

lemma one_worker_run:
  "\<exists>s. run_schedule packaged_act one_worker (pool_start 3) = Some s \<and> pool_done s \<and> run_order (snd s) = [0, 1, 2, 3]"
proof -
  have "map_option (\<lambda>s. (pool_done s, run_order (snd s))) (run_schedule packaged_act one_worker (pool_start 3)) = Some (True, [0, 1, 2, 3])"
    by code_simp
  then show ?thesis by auto
qed


lemma value_after_unique:
  assumes "\<And>j w. j \<in> set js \<Longrightarrow> ts ! j = Set_value w \<Longrightarrow> w = v"
  shows "value_after ts js = (if \<exists>j\<in>set js. ts ! j = Set_value v then v else 0)"
  using assms
proof (induction js rule: rev_induct)
  case (snoc j js)
  have "value_after ts js = (if \<exists>j\<in>set js. ts ! j = Set_value v then v else 0)" by (rule snoc.IH) (use snoc.prems in auto)
  then show ?case using snoc.prems[of j] by (cases "ts ! j") (auto simp: value_after_def)
qed (simp add: value_after_def)

lemma prints_mset: "mset js = mset ks \<Longrightarrow> prints ts js = prints ts ks"
  unfolding prints_def by (simp only: size_mset[symmetric] mset_filter)

text \<open>
  What the program prints, whatever the scheduling: \<^verbatim>\<open>main\<close> prints the text of the exception of its third task
  and then 42, and the first two tasks print one line each.
\<close>

lemma packaged_task_prints:
  "outcomes (prog_step packaged_act) (pool_start 3) pool_done
     (\<lambda>s. (filter from_main (pool_log (snd s)), length (filter (\<lambda>e. \<not> from_main e) (pool_log (snd s)))))
   = {([Caught ''Exception in task!'', Value_is 42], 2)}"
proof (rule outcomes_unique)
  have c: "catches_all packaged_tasks (\<lambda>j. j = 2)"
    by (auto simp: catches_all_def packaged_tasks_def less_Suc_eq numeral_eq_Suc)
  then have init: "pool_start 3 = pool_start 3 \<and> catches_all packaged_tasks (\<lambda>j. j = 2) \<and> 0 < (3::nat)" by simp
  fix s assume r: "(prog_step packaged_act)\<^sup>*\<^sup>* (pool_start 3) s" and d: "pool_done s"
  have inv: "pool_inv packaged_tasks 3 s" using pool.inv_reachable[OF init r[unfolded packaged_act_def]] by simp
  have len: "[0..<length packaged_tasks] = [0, 1, 2, 3]" by (simp add: packaged_tasks_def upt_rec)
  have ms: "mset (run_order (snd s)) = mset [0, 1, 2, 3]" using run_orderD(4)[OF inv d] unfolding len .
  have set: "set (run_order (snd s)) = {0, 1, 2, 3}" using mset_eq_setD[OF ms] by simp
  have "value_after packaged_tasks (run_order (snd s)) = (if \<exists>j\<in>{0, 1, 2, 3}. packaged_tasks ! j = Set_value 42 then 42 else 0)"
    unfolding set[symmetric]
  proof (rule value_after_unique)
    fix j w assume "j \<in> set (run_order (snd s))" "packaged_tasks ! j = Set_value w"
    then show "w = 42" unfolding set by (elim insertE emptyE) (simp_all add: packaged_tasks_def)
  qed
  then have "value_after packaged_tasks (run_order (snd s)) = 42" by (simp add: packaged_tasks_def)
  moreover have "prints packaged_tasks (run_order (snd s)) = 2"
    unfolding prints_mset[OF ms] by (simp add: prints_def packaged_tasks_def numeral_eq_Suc)
  moreover have "thrown packaged_tasks (length packaged_tasks) = [Caught ''Exception in task!'']" by (simp add: thrown_def packaged_tasks_def)
  ultimately show "(filter from_main (pool_log (snd s)), length (filter (\<lambda>e. \<not> from_main e) (pool_log (snd s))))
      = ([Caught ''Exception in task!'', Value_is 42], 2)" using pool_doneD(1,2)[OF inv d] by simp
next
  from one_worker_run obtain s where "run_schedule packaged_act one_worker (pool_start 3) = Some s" "pool_done s" by blast
  then show "\<exists>s. (prog_step packaged_act)\<^sup>*\<^sup>* (pool_start 3) s \<and> pool_done s" using run_schedule_reachable by blast
qed

text \<open>
  \<^verbatim>\<open>Submit\<close> appends to the list without taking the mutex: \<^verbatim>\<open>main\<close> can be about to do so while a worker removes the first
  task. This is a data race, so the two lemmas above speak of executions in which the list survives it.
\<close>

lemma submit_races:
  "\<exists>s. (prog_step packaged_act)\<^sup>*\<^sup>* (pool_start 3) s \<and> fst s ! 0 = M_Submit 1 \<and> fst s ! 1 = K_Pop 0 \<and> pool_mtx (snd s) = Some 1"
proof -
  have "map_option (\<lambda>s. (fst s ! 0, fst s ! 1, pool_mtx (snd s))) (run_schedule packaged_act [0, 1, 1, 1, 1] (pool_start 3))
      = Some (M_Submit 1, K_Pop 0, Some 1)" by code_simp
  then show ?thesis using run_schedule_reachable by fastforce
qed

end
