(* ===== verification/Message_Queue.thy ===== *)
theory Message_Queue
  imports Prelude
begin

text \<open>
  \<^verbatim>\<open>ipc/mqueue.cpp\<close>: a parent sends the lines of its standard input to a child through a POSIX message
  queue of ten messages, then a message that stops the child. Both processes open the queue by
  its name and create it if the name does not exist, and the parent removes the name when it has
  sent everything. The lemmas show that ten or more lines always arrive complete and in order, and that with fewer
  lines the parent can remove the name before the child has opened the queue: the child
  then waits on a queue of its own, and the program blocks for ever.
\<close>

section \<open>The queue and the processes\<close>

datatype message_type = Default_message | Stop_message

record Message =
  messageType :: message_type
  msg_data :: "byte list"

definition Mq_BufferSize :: nat where
  "Mq_BufferSize = 1024"

definition Message_init :: Message where
  "Message_init = \<lparr>messageType = Default_message, msg_data = replicate Mq_BufferSize 0\<rparr>"

text \<open>\<^verbatim>\<open>sizeof(Message)\<close> and \<^verbatim>\<open>attr.mq_maxmsg\<close>.\<close>

definition sizeof_Message :: nat where
  "sizeof_Message = 4 + Mq_BufferSize"

definition mq_maxmsg :: nat where
  "mq_maxmsg = 10"

datatype mq_line =
    Mq_received nat "byte list"       \<comment> \<open>\<^verbatim>\<open>[CHILD]: received {} bytes: {}\<close>\<close>
  | Mq_child_exited
  | Mq_parent_exited

text \<open>A queue lives as long as a process has it open; the name only leads to it.\<close>

record mq_state =
  kafka :: "nat option"               \<comment> \<open>the queue the name \<^verbatim>\<open>/kafka\<close> leads to\<close>
  mq_queues :: "nat \<Rightarrow> Message list"
  mq_made :: nat                      \<comment> \<open>number of queues made so far\<close>
  mq_input :: "byte list list"        \<comment> \<open>lines not read yet\<close>
  mq_taken :: "Message list"          \<comment> \<open>all messages the child has received\<close>
  mq_log :: "mq_line list"
  mq_child_ended :: bool
  mq_overrun :: bool                  \<comment> \<open>memory outside a message was accessed\<close>

definition mq_open :: "mq_state \<Rightarrow> nat \<times> mq_state" where
  "mq_open g = (case kafka g of Some q \<Rightarrow> (q, g)
     | None \<Rightarrow> (mq_made g, g\<lparr>kafka := Some (mq_made g), mq_made := Suc (mq_made g)\<rparr>))"

definition mq_say :: "mq_line \<Rightarrow> mq_state \<Rightarrow> mq_state" where
  "mq_say e g = g\<lparr>mq_log := mq_log g @ [e]\<rparr>"

definition mq_put :: "nat \<Rightarrow> Message \<Rightarrow> mq_state \<Rightarrow> mq_state" where
  "mq_put q m g = g\<lparr>mq_queues := (mq_queues g)(q := mq_queues g q @ [m])\<rparr>"

text \<open>The parent's message before it is sent: \<^verbatim>\<open>memset\<close> and \<^verbatim>\<open>memcpy\<close>.\<close>

definition fill_data :: "byte list \<Rightarrow> byte list \<Rightarrow> byte list option" where
  "fill_data d input = Option.bind (memset d 0 Mq_BufferSize) (\<lambda>d'. memcpy d' input (min Mq_BufferSize (length input)))"

datatype mq_parent = MP_Open | MP_Getline nat Message | MP_Send nat Message | MP_Stop nat Message | MP_Close nat | MP_Unlink
  | MP_Wait | MP_Log | MP_Exited | MP_Failed

datatype mq_child = MC_Open | MC_Receive nat | MC_Print nat Message | MC_Close nat | MC_Log | MC_Exited | MC_Failed

text \<open>\<open>fails\<close> tells whether the system call of the action fails, which the code answers by \<^verbatim>\<open>exit(EXIT_FAILURE)\<close>.\<close>

fun mq_parent_act :: "bool \<Rightarrow> mq_parent \<Rightarrow> mq_state \<Rightarrow> (mq_parent \<times> mq_state) option" where
  "mq_parent_act fails MP_Open g =
     Some (if fails then (MP_Failed, g) else (MP_Getline (fst (mq_open g)) Message_init, snd (mq_open g)))"
| "mq_parent_act fails (MP_Getline q m) g =
     (case mq_input g of
        [] \<Rightarrow> (case memset (msg_data m) 0 Mq_BufferSize of None \<Rightarrow> Some (MP_Failed, g\<lparr>mq_overrun := True\<rparr>)
             | Some d \<Rightarrow> Some (MP_Stop q (m\<lparr>msg_data := d, messageType := Stop_message\<rparr>), g))
      | input # rest \<Rightarrow> (case fill_data (msg_data m) input of None \<Rightarrow> Some (MP_Failed, g\<lparr>mq_overrun := True\<rparr>)
             | Some d \<Rightarrow> Some (MP_Send q (m\<lparr>msg_data := d\<rparr>), g\<lparr>mq_input := rest\<rparr>)))"
| "mq_parent_act fails (MP_Send q m) g =
     (if fails then Some (MP_Failed, g)
      else if length (mq_queues g q) < mq_maxmsg then Some (MP_Getline q m, mq_put q m g) else None)"
| "mq_parent_act fails (MP_Stop q m) g =
     (if fails then Some (MP_Failed, g)
      else if length (mq_queues g q) < mq_maxmsg then Some (MP_Close q, mq_put q m g) else None)"
| "mq_parent_act fails (MP_Close q) g = Some (if fails then MP_Failed else MP_Unlink, g)"
| "mq_parent_act fails MP_Unlink g =
     Some (if fails \<or> kafka g = None then (MP_Failed, g) else (MP_Wait, g\<lparr>kafka := None\<rparr>))"
| "mq_parent_act fails MP_Wait g =
     (if fails then Some (MP_Failed, g) else if mq_child_ended g then Some (MP_Log, g) else None)"
| "mq_parent_act fails MP_Log g = Some (MP_Exited, mq_say Mq_parent_exited g)"
| "mq_parent_act fails MP_Exited g = None"
| "mq_parent_act fails MP_Failed g = None"

definition mq_child_fails :: "mq_state \<Rightarrow> mq_child \<times> mq_state" where
  "mq_child_fails g = (MC_Failed, g\<lparr>mq_child_ended := True\<rparr>)"

fun mq_child_act :: "bool \<Rightarrow> mq_child \<Rightarrow> mq_state \<Rightarrow> (mq_child \<times> mq_state) option" where
  "mq_child_act fails MC_Open g =
     Some (if fails then mq_child_fails g else (MC_Receive (fst (mq_open g)), snd (mq_open g)))"
| "mq_child_act fails (MC_Receive q) g =
     (if fails then Some (mq_child_fails g)
      else (case mq_queues g q of [] \<Rightarrow> None
        | m # ms \<Rightarrow> Some (if messageType m = Stop_message then MC_Close q else MC_Print q m,
            g\<lparr>mq_queues := (mq_queues g)(q := ms), mq_taken := mq_taken g @ [m]\<rparr>)))"
| "mq_child_act fails (MC_Print q m) g =
     Some (MC_Receive q, case c_string (msg_data m) of None \<Rightarrow> g\<lparr>mq_overrun := True\<rparr>
       | Some s \<Rightarrow> mq_say (Mq_received sizeof_Message s) g)"
| "mq_child_act fails (MC_Close q) g = Some (if fails then mq_child_fails g else (MC_Log, g))"
| "mq_child_act fails MC_Log g = Some (MC_Exited, (mq_say Mq_child_exited g)\<lparr>mq_child_ended := True\<rparr>)"
| "mq_child_act fails MC_Exited g = None"
| "mq_child_act fails MC_Failed g = None"

text \<open>The program up to \<^verbatim>\<open>fork\<close>: a name left by an earlier run is removed. \<open>None\<close> is \<^verbatim>\<open>exit(EXIT_FAILURE)\<close>.\<close>

definition mq_forked :: "byte list list \<Rightarrow> mq_parent \<times> mq_child \<times> mq_state" where
  "mq_forked lines = (MP_Open, MC_Open,
     \<lparr>kafka = None, mq_queues = (\<lambda>_. []), mq_made = 0, mq_input = lines, mq_taken = [], mq_log = [],
      mq_child_ended = False, mq_overrun = False\<rparr>)"

definition mqueue_main :: "bool \<Rightarrow> byte list list \<Rightarrow> (mq_parent \<times> mq_child \<times> mq_state) option" where
  "mqueue_main fork_fails lines = (if fork_fails then None else Some (mq_forked lines))"

text \<open>The steps when no call fails.\<close>

definition mq_step :: "mq_parent \<times> mq_child \<times> mq_state \<Rightarrow> mq_parent \<times> mq_child \<times> mq_state \<Rightarrow> bool" where
  "mq_step = pair_step (\<lambda>_ :: unit. mq_parent_act False) (\<lambda>_ :: unit. mq_child_act False)"

section \<open>The invariant\<close>

definition mq_fits :: "byte list \<Rightarrow> bool" where
  "mq_fits x \<longleftrightarrow> length x < Mq_BufferSize \<and> 0 \<notin> set x"

definition line_message :: "byte list \<Rightarrow> Message" where
  "line_message x = \<lparr>messageType = Default_message, msg_data = x @ replicate (Mq_BufferSize - length x) 0\<rparr>"

definition stop_message :: Message where
  "stop_message = \<lparr>messageType = Stop_message, msg_data = replicate Mq_BufferSize 0\<rparr>"

definition mq_messages :: "byte list list \<Rightarrow> Message list" where
  "mq_messages lines = map line_message lines @ [stop_message]"

text \<open>What the parent still has to send, what the child has printed.\<close>

definition mq_pending :: "mq_parent \<Rightarrow> mq_state \<Rightarrow> Message list" where
  "mq_pending p g = (case p of MP_Open \<Rightarrow> mq_messages (mq_input g) | MP_Getline _ _ \<Rightarrow> mq_messages (mq_input g)
     | MP_Send _ m \<Rightarrow> m # mq_messages (mq_input g) | MP_Stop _ m \<Rightarrow> [m] | _ \<Rightarrow> [])"

definition mq_printed :: "mq_state \<Rightarrow> byte list list" where
  "mq_printed g = map (\<lambda>e. case e of Mq_received n s \<Rightarrow> s | _ \<Rightarrow> []) (filter (\<lambda>e. case e of Mq_received n s \<Rightarrow> True | _ \<Rightarrow> False) (mq_log g))"

definition mq_parent_ok :: "mq_parent \<Rightarrow> mq_state \<Rightarrow> bool" where
  "mq_parent_ok p g = (case p of MP_Open \<Rightarrow> True
     | MP_Getline q m \<Rightarrow> q = 0 \<and> messageType m = Default_message \<and> length (msg_data m) = Mq_BufferSize
     | MP_Send q m \<Rightarrow> q = 0 \<and> messageType m = Default_message \<and> length (msg_data m) = Mq_BufferSize
     | MP_Stop q m \<Rightarrow> q = 0 \<and> m = stop_message | MP_Close q \<Rightarrow> q = 0
     | MP_Unlink \<Rightarrow> True | MP_Wait \<Rightarrow> True | MP_Log \<Rightarrow> mq_child_ended g | MP_Exited \<Rightarrow> mq_child_ended g | MP_Failed \<Rightarrow> False)"

definition mq_child_ok :: "mq_child \<Rightarrow> mq_state \<Rightarrow> bool" where
  "mq_child_ok c g = (case c of MC_Open \<Rightarrow> mq_taken g = [] \<and> mq_printed g = []
     | MC_Receive q \<Rightarrow> q = 0 \<and> mq_taken g = map line_message (mq_printed g)
     | MC_Print q m \<Rightarrow> q = 0 \<and> messageType m = Default_message \<and> mq_taken g = map line_message (mq_printed g) @ [m]
     | MC_Close q \<Rightarrow> q = 0 \<and> mq_taken g = map line_message (mq_printed g) @ [stop_message]
     | MC_Log \<Rightarrow> mq_taken g = map line_message (mq_printed g) @ [stop_message]
     | MC_Exited \<Rightarrow> mq_taken g = map line_message (mq_printed g) @ [stop_message] | MC_Failed \<Rightarrow> False)"

definition mq_unlinked :: "mq_parent \<Rightarrow> bool" where
  "mq_unlinked p \<longleftrightarrow> p = MP_Wait \<or> p = MP_Log \<or> p = MP_Exited"

definition mq_inv :: "byte list list \<Rightarrow> mq_parent \<times> mq_child \<times> mq_state \<Rightarrow> bool" where
  "mq_inv lines s \<longleftrightarrow> (\<exists>p c g. s = (p, c, g) \<and> mq_taken g @ mq_queues g 0 @ mq_pending p g = mq_messages lines \<and>
     mq_parent_ok p g \<and> mq_child_ok c g \<and> length (mq_queues g 0) \<le> mq_maxmsg \<and>
     kafka g = (if mq_unlinked p \<or> (p = MP_Open \<and> c = MC_Open) then None else Some 0) \<and>
     mq_made g = (if p = MP_Open \<and> c = MC_Open then 0 else 1) \<and> (mq_child_ended g \<longleftrightarrow> c = MC_Exited) \<and> \<not> mq_overrun g \<and>
     set (mq_input g) \<subseteq> set lines \<and> set (mq_printed g) \<subseteq> set lines)"

lemma mq_invI:
  assumes "mq_taken g @ mq_queues g 0 @ mq_pending p g = mq_messages lines" "mq_parent_ok p g" "mq_child_ok c g"
    "length (mq_queues g 0) \<le> mq_maxmsg" "kafka g = (if mq_unlinked p \<or> (p = MP_Open \<and> c = MC_Open) then None else Some 0)"
    "mq_made g = (if p = MP_Open \<and> c = MC_Open then 0 else 1)" "mq_child_ended g \<longleftrightarrow> c = MC_Exited" "\<not> mq_overrun g"
    "set (mq_input g) \<subseteq> set lines" "set (mq_printed g) \<subseteq> set lines"
  shows "mq_inv lines (p, c, g)"
  using assms unfolding mq_inv_def by blast

lemma mq_invD:
  assumes "mq_inv lines (p, c, g)"
  shows "mq_taken g @ mq_queues g 0 @ mq_pending p g = mq_messages lines" "mq_parent_ok p g" "mq_child_ok c g"
    "length (mq_queues g 0) \<le> mq_maxmsg" "kafka g = (if mq_unlinked p \<or> (p = MP_Open \<and> c = MC_Open) then None else Some 0)"
    "mq_made g = (if p = MP_Open \<and> c = MC_Open then 0 else 1)" "mq_child_ended g \<longleftrightarrow> c = MC_Exited" "\<not> mq_overrun g"
    "set (mq_input g) \<subseteq> set lines" "set (mq_printed g) \<subseteq> set lines"
  using assms unfolding mq_inv_def by blast+

lemma fill_data_fits:
  assumes "length d = Mq_BufferSize" "mq_fits x"
  shows "fill_data d x = Some (x @ replicate (Mq_BufferSize - length x) 0)"
  using assms by (simp add: fill_data_def mq_fits_def min_def)

lemma line_message_text: "mq_fits x \<Longrightarrow> c_string (msg_data (line_message x)) = Some x"
  by (cases "Mq_BufferSize - length x") (auto simp: mq_fits_def line_message_def)

lemma message_of_line:
  assumes "m \<in> set (mq_messages lines)"
  shows "messageType m = Default_message \<Longrightarrow> \<exists>x\<in>set lines. m = line_message x" "messageType m = Stop_message \<Longrightarrow> m = stop_message"
  using assms by (auto simp: mq_messages_def stop_message_def line_message_def)

lemma nothing_after_stop:
  assumes "xs @ stop_message # ys = mq_messages lines"
  shows "ys = []"
proof (rule ccontr)
  assume "ys \<noteq> []"
  then have "stop_message \<in> set (butlast (xs @ stop_message # ys))" by (simp add: butlast_append)
  then have "stop_message \<in> set (map line_message lines)" unfolding assms by (simp add: mq_messages_def)
  then show False by (auto simp: line_message_def stop_message_def)
qed

lemma mq_child_ok_cong: "mq_taken g' = mq_taken g \<Longrightarrow> mq_printed g' = mq_printed g \<Longrightarrow> mq_child_ok c g' = mq_child_ok c g"
  by (simp add: mq_child_ok_def split: mq_child.split)

lemma mq_parent_ok_cong: "mq_child_ended g' = mq_child_ended g \<Longrightarrow> mq_parent_ok p g' = mq_parent_ok p g"
  by (simp add: mq_parent_ok_def split: mq_parent.split)

lemma mq_pending_cong: "mq_input g' = mq_input g \<Longrightarrow> mq_pending p g' = mq_pending p g"
  by (simp add: mq_pending_def split: mq_parent.split)

lemmas mq_defs = mq_say_def mq_put_def mq_open_def mq_printed_def mq_pending_def mq_parent_ok_def mq_unlinked_def

lemma mq_parent_step:
  assumes inv: "mq_inv lines (p, c, g)" and fits: "\<forall>x\<in>set lines. mq_fits x" and act: "mq_parent_act False p g = Some (p', g')"
  shows "mq_inv lines (p', c, g')"
proof -
  note D = mq_invD[OF inv]
  have same: "mq_taken g' = mq_taken g" "mq_printed g' = mq_printed g" "mq_child_ended g' = mq_child_ended g"
    using act by (cases p; auto simp: mq_defs split: option.splits list.splits if_splits)+
  note ok = mq_child_ok_cong[OF same(1,2), of c]
  show ?thesis
  proof (cases p)
    case (MP_Getline q m)
    show ?thesis
    proof (cases "mq_input g")
      case Nil
      with MP_Getline act D(2) have "p' = MP_Stop q stop_message" "g' = g"
        by (auto simp: mq_parent_ok_def stop_message_def split: option.splits)
      with D MP_Getline Nil show ?thesis by (intro mq_invI) (auto simp: mq_defs mq_messages_def)
    next
      case (Cons x rest)
      with fits D(9) have "mq_fits x" by auto
      with MP_Getline Cons act D(2) fill_data_fits[of "msg_data m" x] have "p' = MP_Send q (line_message x)" "g' = g\<lparr>mq_input := rest\<rparr>"
        by (auto simp: mq_parent_ok_def line_message_def)
      with D MP_Getline Cons ok show ?thesis using \<open>mq_fits x\<close>
        by (intro mq_invI) (auto simp: mq_defs mq_messages_def line_message_def mq_fits_def)
    qed
  next
    case MP_Open
    have p': "p' = MP_Getline 0 Message_init" "g' = g\<lparr>kafka := Some 0, mq_made := 1\<rparr>"
      using act MP_Open D(5,6) by (auto simp: mq_open_def mq_unlinked_def split: if_splits)
    with MP_Open D ok show ?thesis by (intro mq_invI) (simp_all add: mq_defs Message_init_def)
  next
    case (MP_Send q m)
    with act have p': "p' = MP_Getline q m" "g' = mq_put q m g" "length (mq_queues g q) < mq_maxmsg" by (auto split: if_splits)
    with MP_Send D ok same show ?thesis by (intro mq_invI) (auto simp: mq_defs)
  next
    case (MP_Stop q m)
    with act have p': "p' = MP_Close q" "g' = mq_put q m g" "length (mq_queues g q) < mq_maxmsg" by (auto split: if_splits)
    with MP_Stop D ok same show ?thesis by (intro mq_invI) (auto simp: mq_defs)
  next
    case (MP_Close q)
    with act have p': "p' = MP_Unlink" "g' = g" by auto
    with MP_Close D show ?thesis by (intro mq_invI) (auto simp: mq_defs)
  next
    case MP_Unlink
    with act D(5) have p': "p' = MP_Wait" "g' = g\<lparr>kafka := None\<rparr>" by (auto simp: mq_unlinked_def)
    with MP_Unlink D ok show ?thesis by (intro mq_invI) (auto simp: mq_defs)
  next
    case MP_Wait
    with act have p': "p' = MP_Log" "g' = g" "mq_child_ended g" by (auto split: if_splits)
    with MP_Wait D show ?thesis by (intro mq_invI) (auto simp: mq_defs)
  next
    case MP_Log
    with act have p': "p' = MP_Exited" "g' = mq_say Mq_parent_exited g" by auto
    with MP_Log D ok show ?thesis by (intro mq_invI) (auto simp: mq_defs)
  qed (use act in auto)
qed

text \<open>The parent cannot have removed the name before the child came: the queue would be over-full.\<close>

lemma mq_child_step:
  assumes inv: "mq_inv lines (p, c, g)" and fits: "\<forall>x\<in>set lines. mq_fits x" and many: "mq_maxmsg \<le> length lines"
    and act: "mq_child_act False c g = Some (c', g')"
  shows "mq_inv lines (p, c', g')"
proof -
  note D = mq_invD[OF inv]
  show ?thesis
  proof (cases c)
    case MC_Open
    have "\<not> mq_unlinked p"
    proof
      assume "mq_unlinked p"
      then have "mq_pending p g = []" by (auto simp: mq_unlinked_def mq_pending_def)
      with D(1,3) MC_Open have "mq_queues g 0 = mq_messages lines" by (simp add: mq_child_ok_def)
      with D(4) many show False by (simp add: mq_messages_def)
    qed
    with act MC_Open D(5,6) have c': "c' = MC_Receive 0" "g' = g\<lparr>kafka := Some 0, mq_made := 1\<rparr>"
      by (auto simp: mq_open_def split: if_splits)
    have "mq_parent_ok p g'" "mq_pending p g' = mq_pending p g"
      using D(2) c' mq_parent_ok_cong[of g' g p] mq_pending_cong[of g' g p] by simp_all
    with D MC_Open \<open>\<not> mq_unlinked p\<close> c' show ?thesis by (intro mq_invI) (simp_all add: mq_child_ok_def mq_printed_def)
  next
    case (MC_Receive q)
    with act D(3) obtain m ms where q: "q = 0" "mq_queues g 0 = m # ms" "c' = (if messageType m = Stop_message then MC_Close 0 else MC_Print 0 m)"
      "g' = g\<lparr>mq_queues := (mq_queues g)(0 := ms), mq_taken := mq_taken g @ [m]\<rparr>"
      by (auto simp: mq_child_ok_def split: list.splits)
    have "m \<in> set (mq_messages lines)" using q(2) unfolding D(1)[symmetric] by simp
    then have m: "messageType m = Stop_message \<Longrightarrow> m = stop_message" by (rule message_of_line(2))
    have "mq_child_ok c' g'" using D(3) MC_Receive q m by (cases "messageType m") (simp_all add: mq_child_ok_def mq_printed_def)
    moreover have "mq_parent_ok p g'" "mq_pending p g' = mq_pending p g" "mq_printed g' = mq_printed g"
      using D(2) q(4) mq_parent_ok_cong[of g' g p] mq_pending_cong[of g' g p] by (simp_all add: mq_printed_def)
    ultimately show ?thesis using D MC_Receive q by (intro mq_invI) simp_all
  next
    case (MC_Print q m)
    with D(3) have q: "q = 0" "messageType m = Default_message" "mq_taken g = map line_message (mq_printed g) @ [m]"
      by (auto simp: mq_child_ok_def)
    then have "m \<in> set (mq_messages lines)" unfolding D(1)[symmetric] by simp
    with q(2) fits obtain x where x: "m = line_message x" "mq_fits x" and xl: "x \<in> set lines" using message_of_line(1) by blast
    with act MC_Print q have c': "c' = MC_Receive 0" "g' = mq_say (Mq_received sizeof_Message x) g" by (auto simp: line_message_text)
    have pr: "mq_printed g' = mq_printed g @ [x]" using c'(2) by (simp add: mq_printed_def mq_say_def)
    then have "mq_child_ok c' g'" using c' q x by (simp add: mq_child_ok_def mq_say_def)
    moreover have "mq_parent_ok p g'" "mq_pending p g' = mq_pending p g"
      using D(2) c' mq_parent_ok_cong[of g' g p] mq_pending_cong[of g' g p] by (simp_all add: mq_say_def)
    ultimately show ?thesis using D MC_Print c' xl pr by (intro mq_invI) (simp_all add: mq_say_def)
  next
    case (MC_Close q)
    with act have "c' = MC_Log" "g' = g" by auto
    with D MC_Close show ?thesis by (intro mq_invI) (simp_all add: mq_child_ok_def)
  next
    case MC_Log
    with act have c': "c' = MC_Exited" "g' = (mq_say Mq_child_exited g)\<lparr>mq_child_ended := True\<rparr>" by auto
    have "mq_parent_ok p g'" using D(2) c' by (auto simp: mq_parent_ok_def split: mq_parent.splits)
    moreover have "mq_child_ok c' g'" using D(3) MC_Log c' by (simp add: mq_child_ok_def mq_printed_def mq_say_def)
    moreover have "mq_printed g' = mq_printed g" "mq_pending p g' = mq_pending p g"
      using c' mq_pending_cong[of g' g p] by (simp_all add: mq_printed_def mq_say_def)
    ultimately show ?thesis using D MC_Log c' by (intro mq_invI) (simp_all add: mq_say_def)
  qed (use act in auto)
qed

section \<open>Termination\<close>

definition mq_parent_left :: "mq_parent \<Rightarrow> nat" where
  "mq_parent_left p = (case p of MP_Open \<Rightarrow> 11 | MP_Getline _ _ \<Rightarrow> 10 | MP_Send _ _ \<Rightarrow> 9 | MP_Stop _ _ \<Rightarrow> 8 | MP_Close _ \<Rightarrow> 7 | MP_Unlink \<Rightarrow> 6
     | MP_Wait \<Rightarrow> 5 | MP_Log \<Rightarrow> 4 | _ \<Rightarrow> 0)"

definition mq_child_left :: "mq_child \<Rightarrow> nat" where
  "mq_child_left c = (case c of MC_Open \<Rightarrow> 10 | MC_Receive _ \<Rightarrow> 9 | MC_Print _ _ \<Rightarrow> 10 | MC_Close _ \<Rightarrow> 8 | MC_Log \<Rightarrow> 7 | _ \<Rightarrow> 0)"

fun mq_rank :: "mq_parent \<times> mq_child \<times> mq_state \<Rightarrow> nat" where
  "mq_rank (p, c, g) = 5 * length (mq_pending p g) + 3 * length (mq_queues g 0) + mq_parent_left p + mq_child_left c"

fun mq_final :: "mq_parent \<times> mq_child \<times> mq_state \<Rightarrow> bool" where
  "mq_final (p, c, g) \<longleftrightarrow> p = MP_Exited \<and> c = MC_Exited"

lemma mq_parent_rank:
  assumes "mq_inv lines (p, c, g)" "mq_parent_act False p g = Some (p', g')"
  shows "mq_rank (p', c, g') < mq_rank (p, c, g)"
  using assms(2) mq_invD(2)[OF assms(1)]
  by (cases p) (auto simp: mq_parent_left_def mq_defs mq_messages_def split: if_splits option.splits list.splits)

lemma mq_child_rank:
  assumes "mq_inv lines (p, c, g)" "mq_child_act False c g = Some (c', g')"
  shows "mq_rank (p, c', g') < mq_rank (p, c, g)"
proof -
  have "mq_input g' = mq_input g" using assms(2) by (cases c) (auto simp: mq_defs split: option.splits list.splits)
  then have "mq_pending p g' = mq_pending p g" by (rule mq_pending_cong)
  then show ?thesis using assms(2) mq_invD(3)[OF assms(1)]
    by (cases c) (auto simp: mq_child_left_def mq_child_ok_def mq_open_def mq_say_def split: if_splits option.splits list.splits)
qed

lemma mq_all_taken:
  assumes "mq_inv lines (p, c, g)" "c = MC_Exited"
  shows "mq_taken g = map line_message (mq_printed g) @ [stop_message] \<and> mq_queues g 0 @ mq_pending p g = []"
proof -
  note D = mq_invD[OF assms(1)]
  have t: "mq_taken g = map line_message (mq_printed g) @ [stop_message]" using D(3) assms(2) by (simp add: mq_child_ok_def)
  have "map line_message (mq_printed g) @ stop_message # (mq_queues g 0 @ mq_pending p g) = mq_messages lines" using D(1) t by simp
  from nothing_after_stop[OF this] t show ?thesis by blast
qed

lemma mq_progress:
  assumes "mq_inv lines (p, c, g)" "\<not> mq_final (p, c, g)"
  shows "mq_parent_act False p g \<noteq> None \<or> mq_child_act False c g \<noteq> None"
proof (rule ccontr)
  assume "\<not> ?thesis"
  then have pn: "mq_parent_act False p g = None" and cn: "mq_child_act False c g = None" by (simp_all only: de_Morgan_disj not_not)
  note D = mq_invD[OF assms(1)]
  consider (exited) "c = MC_Exited" | (empty) "c = MC_Receive 0" "mq_queues g 0 = []"
    using cn D(3) by (cases c) (auto simp: mq_child_ok_def split: list.splits)
  then show False
  proof cases
    case exited
    with mq_all_taken[OF assms(1)] have "mq_queues g 0 @ mq_pending p g = []" by blast
    with pn assms(2) exited D(2,7) show False
      by (cases p) (auto simp: mq_defs mq_maxmsg_def split: list.splits option.splits if_splits)
  next
    case empty
    have "stop_message \<in> set (mq_messages lines)" by (simp add: mq_messages_def)
    moreover have "stop_message \<notin> set (mq_taken g)" using D(3) empty by (auto simp: mq_child_ok_def stop_message_def line_message_def)
    ultimately have "mq_pending p g \<noteq> []" using D(1) empty by (metis append_Nil append_Nil2)
    with pn empty D(2) show False
      by (cases p) (auto simp: mq_defs mq_maxmsg_def split: list.splits option.splits if_splits)
  qed
qed

interpretation mqueue: terminating_steps "\<lambda>s. s = mq_forked lines \<and> (\<forall>x\<in>set lines. mq_fits x) \<and> mq_maxmsg \<le> length lines" mq_step
  "\<lambda>s. mq_inv lines s \<and> (\<forall>x\<in>set lines. mq_fits x) \<and> mq_maxmsg \<le> length lines" mq_final mq_rank for lines
proof unfold_locales
  fix s assume "s = mq_forked lines \<and> (\<forall>x\<in>set lines. mq_fits x) \<and> mq_maxmsg \<le> length lines"
  then show "mq_inv lines s \<and> (\<forall>x\<in>set lines. mq_fits x) \<and> mq_maxmsg \<le> length lines"
    by (auto simp: mq_forked_def mq_defs mq_child_ok_def intro!: mq_invI)
next
  fix s t assume inv: "mq_inv lines s \<and> (\<forall>x\<in>set lines. mq_fits x) \<and> mq_maxmsg \<le> length lines" and st: "mq_step s t"
  obtain p c g where s: "s = (p, c, g)" by (cases s)
  from st[unfolded mq_step_def s] show "mq_inv lines t \<and> (\<forall>x\<in>set lines. mq_fits x) \<and> mq_maxmsg \<le> length lines"
    by (rule pair_stepE) (use inv s mq_parent_step mq_child_step in blast)+
next
  fix s t assume inv: "mq_inv lines s \<and> (\<forall>x\<in>set lines. mq_fits x) \<and> mq_maxmsg \<le> length lines" and st: "mq_step s t"
  obtain p c g where s: "s = (p, c, g)" by (cases s)
  from st[unfolded mq_step_def s] show "mq_rank t < mq_rank s"
    by (rule pair_stepE) (use inv s mq_parent_rank mq_child_rank in blast)+
next
  fix s assume inv: "mq_inv lines s \<and> (\<forall>x\<in>set lines. mq_fits x) \<and> mq_maxmsg \<le> length lines" and nf: "\<not> mq_final s"
  obtain p c g where s: "s = (p, c, g)" by (cases s)
  with inv nf mq_progress[of lines p c g] show "\<exists>t. mq_step s t"
    unfolding mq_step_def by (auto intro: pair_parent pair_child)
qed

section \<open>What the program does\<close>

lemma line_messages_inject:
  assumes "map line_message xs = map line_message ys" "\<forall>x\<in>set xs \<union> set ys. mq_fits x"
  shows "xs = ys"
proof (rule list.inj_map_strong[OF _ assms(1)])
  fix x y assume xy: "x \<in> set xs" "y \<in> set ys" "line_message x = line_message y"
  have "c_string (msg_data (line_message x)) = Some x" "c_string (msg_data (line_message y)) = Some y"
    using xy(1,2) assms(2) by (auto intro!: line_message_text)
  then show "x = y" unfolding xy(3) by (simp only: option.inject)
qed

lemma mq_printed_prefix:
  assumes inv: "mq_inv lines (p, c, g)" and fits: "\<forall>x\<in>set lines. mq_fits x"
  shows "mq_printed g = take (length (mq_printed g)) lines" "c = MC_Exited \<Longrightarrow> mq_printed g = lines"
proof -
  note D = mq_invD[OF inv]
  have ok: "\<forall>x\<in>set (mq_printed g). mq_fits x" using D(10) fits by blast
  have inj: "map line_message (mq_printed g) = map line_message (take n lines) \<Longrightarrow> mq_printed g = take n lines" for n
    using line_messages_inject[of "mq_printed g" "take n lines"] ok fits by (meson UnE in_set_takeD)
  obtain rest where r: "map line_message (mq_printed g) @ rest = map line_message lines @ [stop_message]"
    using D(1,3) by (cases c) (auto simp: mq_child_ok_def mq_messages_def)
  have ns: "stop_message \<notin> set (map line_message xs)" for xs by (auto simp: stop_message_def line_message_def)
  from r consider us where "map line_message (mq_printed g) = map line_message lines @ us" "us @ rest = [stop_message]"
    | us where "map line_message (mq_printed g) @ us = map line_message lines"
    by (auto simp: append_eq_append_conv2)
  then show "mq_printed g = take (length (mq_printed g)) lines"
  proof cases
    case 1
    with ns[of "mq_printed g"] have "us = []" by (cases us) auto
    with 1 inj[of "length lines"] have "mq_printed g = lines" by simp
    then show ?thesis by simp
  next
    case 2
    from arg_cong[OF this, of "take (length (mq_printed g))"] show ?thesis by (intro inj) (simp add: take_map)
  qed
  assume "c = MC_Exited"
  with mq_all_taken[OF inv] D(1) have "map line_message (mq_printed g) = map line_message lines" by (simp add: mq_messages_def)
  with inj[of "length lines"] show "mq_printed g = lines" by simp
qed

text \<open>
  C21. With ten or more lines of ordinary length (shorter than 1024 bytes, without a NUL) and no failing call, every run of the message
  queue program ends: no run is longer than a fixed bound, what is printed is at any time a beginning of the input, no
  message buffer is left, and a state without a next action is the one in which both processes have exited and the child has printed
  all lines in order. More than ten messages do not fit into the queue, so
  the parent cannot get to removing the name before the child has opened the queue.
\<close>

theorem mqueue_delivers_in_order:
  assumes "\<forall>x\<in>set lines. mq_fits x" "mq_maxmsg \<le> length lines" "mq_step\<^sup>*\<^sup>* (mq_forked lines) (p, c, g)"
  shows "(mq_printed g = take (length (mq_printed g)) lines \<and> \<not> mq_overrun g) \<and>
    (stuck mq_step (p, c, g) \<longrightarrow> p = MP_Exited \<and> c = MC_Exited \<and> mq_printed g = lines) \<and>
    ((mq_step ^^ n) (p, c, g) t \<longrightarrow> n \<le> mq_rank (p, c, g)) \<and> mq_rank (mq_forked lines) = 5 * length lines + 26"
proof -
  have init: "mq_forked lines = mq_forked lines \<and> (\<forall>x\<in>set lines. mq_fits x) \<and> mq_maxmsg \<le> length lines" using assms(1,2) by simp
  note inv = mqueue.inv_reachable[OF init assms(3)]
  then have i: "mq_inv lines (p, c, g)" by simp
  have printed: "mq_printed g = take (length (mq_printed g)) lines \<and> \<not> mq_overrun g"
    using mq_printed_prefix(1)[OF i assms(1)] mq_invD(8)[OF i] by blast
  have ends: "stuck mq_step (p, c, g) \<Longrightarrow> p = MP_Exited \<and> c = MC_Exited \<and> mq_printed g = lines"
    using mqueue.stuck_final[OF init assms(3)] mq_printed_prefix(2)[OF i assms(1)] by simp
  have bound: "(mq_step ^^ n) (p, c, g) t \<Longrightarrow> n \<le> mq_rank (p, c, g)" using mqueue.run_bounded[OF inv, of n t] by linarith
  have "mq_rank (mq_forked lines) = 5 * length lines + 26"
    by (simp add: mq_forked_def mq_pending_def mq_messages_def mq_parent_left_def mq_child_left_def)
  with printed ends bound show ?thesis by blast
qed

theorem mqueue_delivers_in_order_witness:
  "\<exists>p c g. mq_step\<^sup>*\<^sup>* (mq_forked (replicate 10 [72, 105])) (p, c, g) \<and> mq_printed g = take (length (mq_printed g)) (replicate 10 [72, 105]) \<and>
     \<not> mq_overrun g"
proof -
  have f: "\<forall>x\<in>set (replicate 10 [72, 105]). mq_fits x" by (simp add: mq_fits_def Mq_BufferSize_def)
  have m: "mq_maxmsg \<le> length (replicate 10 [72 :: byte, 105])" by (simp add: mq_maxmsg_def)
  obtain p c g where s: "mq_forked (replicate 10 [72, 105]) = (p, c, g)" by (cases "mq_forked (replicate 10 [72, 105])") auto
  then have "mq_step\<^sup>*\<^sup>* (mq_forked (replicate 10 [72, 105])) (p, c, g)" by simp
  with mqueue_delivers_in_order[OF f m this] show ?thesis by blast
qed

text \<open>The parent alone, up to the point where it waits for the child.\<close>

lemma mq_parent_moves: "mq_parent_act False p g = Some (p', g') \<Longrightarrow> mq_step (p, c, g) (p', c, g')"
  unfolding mq_step_def by (rule pair_parent)

definition mq_same_outside :: "mq_state \<Rightarrow> mq_state \<Rightarrow> bool" where
  "mq_same_outside g g' \<longleftrightarrow> mq_made g' = mq_made g \<and> mq_queues g' 1 = mq_queues g 1 \<and> mq_child_ended g' = mq_child_ended g \<and>
     mq_log g' = mq_log g"

lemma mq_parent_runs:
  assumes "length (mq_queues g 0) + length (mq_input g) < mq_maxmsg" "length (msg_data m) = Mq_BufferSize" "kafka g = Some 0"
  shows "\<exists>g'. mq_step\<^sup>*\<^sup>* (MP_Getline 0 m, c, g) (MP_Wait, c, g') \<and> kafka g' = None \<and> mq_same_outside g g'"
  using assms
proof (induction "mq_input g" arbitrary: g m)
  case Nil
  let ?m = "m\<lparr>msg_data := replicate Mq_BufferSize 0, messageType := Stop_message\<rparr>"
  have "mq_step (MP_Getline 0 m, c, g) (MP_Stop 0 ?m, c, g)"
    using Nil by (intro mq_parent_moves) (simp flip: Nil(1))
  moreover have "mq_step (MP_Stop 0 ?m, c, g) (MP_Close 0, c, mq_put 0 ?m g)"
    using Nil by (intro mq_parent_moves) simp
  moreover have "mq_step (MP_Close 0, c, mq_put 0 ?m g) (MP_Unlink, c, mq_put 0 ?m g)" by (intro mq_parent_moves) simp
  moreover have "mq_step (MP_Unlink, c, mq_put 0 ?m g) (MP_Wait, c, (mq_put 0 ?m g)\<lparr>kafka := None\<rparr>)"
    using Nil by (intro mq_parent_moves) (simp add: mq_put_def)
  ultimately have "mq_step\<^sup>*\<^sup>* (MP_Getline 0 m, c, g) (MP_Wait, c, (mq_put 0 ?m g)\<lparr>kafka := None\<rparr>)"
    by (meson converse_rtranclp_into_rtranclp rtranclp.rtrancl_refl)
  moreover have "kafka ((mq_put 0 ?m g)\<lparr>kafka := None\<rparr>) = None \<and> mq_same_outside g ((mq_put 0 ?m g)\<lparr>kafka := None\<rparr>)"
    by (simp add: mq_same_outside_def mq_put_def)
  ultimately show ?case by blast
next
  case (Cons x xs)
  obtain d where d: "fill_data (msg_data m) x = Some d" "length d = Mq_BufferSize"
    using Cons.prems(2) by (auto simp: fill_data_def min_def)
  let ?m = "m\<lparr>msg_data := d\<rparr>" and ?g = "g\<lparr>mq_input := xs\<rparr>"
  have "mq_step (MP_Getline 0 m, c, g) (MP_Send 0 ?m, c, ?g)"
    using d by (intro mq_parent_moves) (simp flip: Cons.hyps(2))
  moreover have "mq_step (MP_Send 0 ?m, c, ?g) (MP_Getline 0 ?m, c, mq_put 0 ?m ?g)"
    using Cons.prems(1) by (intro mq_parent_moves) (simp flip: Cons.hyps(2))
  ultimately have two: "mq_step\<^sup>*\<^sup>* (MP_Getline 0 m, c, g) (MP_Getline 0 ?m, c, mq_put 0 ?m ?g)"
    by (meson converse_rtranclp_into_rtranclp rtranclp.rtrancl_refl)
  have "\<exists>g'. mq_step\<^sup>*\<^sup>* (MP_Getline 0 ?m, c, mq_put 0 ?m ?g) (MP_Wait, c, g') \<and> kafka g' = None \<and> mq_same_outside (mq_put 0 ?m ?g) g'"
    using Cons.prems d by (intro Cons.hyps(1)) (simp_all add: mq_put_def flip: Cons.hyps(2))
  then obtain g' where "mq_step\<^sup>*\<^sup>* (MP_Getline 0 ?m, c, mq_put 0 ?m ?g) (MP_Wait, c, g')" "kafka g' = None" "mq_same_outside (mq_put 0 ?m ?g) g'"
    by blast
  with two show ?case by (intro exI[of _ g']) (auto simp: mq_same_outside_def mq_put_def)
qed

text \<open>
  With fewer than ten lines the program can block for ever, without any call failing and whatever the lines are. The parent sends everything,
  closes the queue and removes its name before the child has opened it. The child then creates a new, empty
  queue under that name and waits for a message nobody will send; the parent waits for the child. Nothing has been printed.
\<close>

lemma mqueue_unlink_race:
  assumes "length lines < mq_maxmsg"
  shows "\<exists>g. mq_step\<^sup>*\<^sup>* (mq_forked lines) (MP_Wait, MC_Receive 1, g) \<and> stuck mq_step (MP_Wait, MC_Receive 1, g) \<and> mq_log g = []"
proof -
  obtain g where g: "mq_forked lines = (MP_Open, MC_Open, g)" "kafka g = None" "mq_made g = 0" "mq_queues g = (\<lambda>_. [])" "mq_input g = lines"
    "\<not> mq_child_ended g" "mq_log g = []" by (auto simp: mq_forked_def)
  let ?g = "g\<lparr>kafka := Some 0, mq_made := 1\<rparr>"
  have "mq_step (MP_Open, MC_Open, g) (MP_Getline 0 Message_init, MC_Open, ?g)"
    using g by (intro mq_parent_moves) (simp add: mq_open_def)
  moreover obtain g' where g': "mq_step\<^sup>*\<^sup>* (MP_Getline 0 Message_init, MC_Open, ?g) (MP_Wait, MC_Open, g')" "kafka g' = None" "mq_same_outside ?g g'"
    using mq_parent_runs[of ?g Message_init MC_Open] g assms by (auto simp: Message_init_def)
  moreover have "mq_step (MP_Wait, MC_Open, g') (MP_Wait, MC_Receive 1, g'\<lparr>kafka := Some 1, mq_made := 2\<rparr>)"
    unfolding mq_step_def using g' by (intro pair_child) (simp add: mq_open_def mq_same_outside_def)
  ultimately have "mq_step\<^sup>*\<^sup>* (mq_forked lines) (MP_Wait, MC_Receive 1, g'\<lparr>kafka := Some 1, mq_made := 2\<rparr>)"
    unfolding g(1) by (meson converse_rtranclp_into_rtranclp rtranclp.rtrancl_into_rtrancl)
  moreover have "stuck mq_step (MP_Wait, MC_Receive 1, g'\<lparr>kafka := Some 1, mq_made := 2\<rparr>)"
    unfolding mq_step_def stuck_pair_step using g g'(3) by (simp add: mq_same_outside_def)
  moreover have "mq_log (g'\<lparr>kafka := Some 1, mq_made := 2\<rparr>) = []" using g g'(3) by (simp add: mq_same_outside_def)
  ultimately show ?thesis by blast
qed

lemma mqueue_unlink_race_witness:
  "\<exists>g. mq_step\<^sup>*\<^sup>* (mq_forked [[72, 105]]) (MP_Wait, MC_Receive 1, g) \<and> stuck mq_step (MP_Wait, MC_Receive 1, g) \<and> mq_log g = []"
  by (rule mqueue_unlink_race) (simp add: mq_maxmsg_def)

text \<open>A line that fills the buffer leaves no NUL for the child to stop at.\<close>

lemma full_message_has_no_end:
  assumes "Mq_BufferSize \<le> length x" "0 \<notin> set x" "length d = Mq_BufferSize" "fill_data d x = Some d'"
  shows "c_string d' = None"
proof -
  have "d' = take Mq_BufferSize x" using assms by (simp add: fill_data_def min_def)
  then show ?thesis using assms(2) by (auto simp: c_string_def dest: in_set_takeD)
qed

end
