(* ===== verification/Channels.thy ===== *)
theory Channels
  imports Prelude
begin

text \<open>
  The benchmarks of the channel exercises, \<^verbatim>\<open>tasks/synchronization_primitives/buffered_channel/benchmark.cpp\<close> and
  \<^verbatim>\<open>unbuffered_channel/benchmark.cpp\<close>, and the channels in the state in which the repository has them. Sender threads send the numbers
  below \<^verbatim>\<open>kCount\<close> through a channel, reader threads add up what they receive, and \<^verbatim>\<open>Run\<close> compares the sum. The
  channel is a parameter of the model. The lemmas show that the
  benchmark accepts every channel that does what \<^verbatim>\<open>task.md\<close> asks for, without deadlock, and that it rejects the empty
  implementations of the repository.
\<close>

section \<open>Channels\<close>

text \<open>
  The operations of a channel with state \<open>'c\<close>. \<open>None\<close>: the operation is blocked. \<^verbatim>\<open>Send\<close> is two actions, handing over the value and returning,
  since the sender of an unbuffered channel waits in between.
\<close>

record 'c channel =
  Send_value :: "nat \<Rightarrow> 'c \<Rightarrow> 'c option"
  Send_return :: "'c \<Rightarrow> 'c option"
  Recv :: "'c \<Rightarrow> (nat option \<times> 'c) option"
  Close :: "'c \<Rightarrow> 'c"

text \<open>The classes of the repository, whose operations are still to be written. They have no members.\<close>

definition BufferedChannel :: "unit channel" where
  "BufferedChannel = \<lparr>Send_value = (\<lambda>v c. Some c), Send_return = Some, Recv = (\<lambda>c. Some (None, c)), Close = (\<lambda>c. c)\<rparr>"

definition UnbufferedChannel :: "unit channel" where
  "UnbufferedChannel = \<lparr>Send_value = (\<lambda>v c. Some c), Send_return = Some, Recv = (\<lambda>c. Some (None, c)), Close = (\<lambda>c. c)\<rparr>"

section \<open>The benchmark\<close>

datatype chan_pc =
    Joining                     \<comment> \<open>the thread that runs \<^verbatim>\<open>Send\<close> waits for its threads\<close>
  | Closing
  | Sending nat                 \<comment> \<open>the loop of \<^verbatim>\<open>func\<close>, with its variable \<^verbatim>\<open>i\<close>\<close>
  | Returning nat
  | Receiving
  | Adding nat
  | Ended

record 'c chan_state =
  chan :: 'c
  senders_ended :: nat
  sum_value :: "64 word"              \<comment> \<open>\<^verbatim>\<open>std::atomic<int64_t> sum\<close>\<close>
  added :: "nat list"           \<comment> \<open>the values added to it\<close>

text \<open>\<open>K\<close> is \<^verbatim>\<open>kCount\<close>, \<open>T\<close> the number of sender threads.\<close>

fun chan_act :: "'c channel \<Rightarrow> nat \<Rightarrow> nat \<Rightarrow> nat \<Rightarrow> chan_pc \<Rightarrow> 'c chan_state \<Rightarrow> (chan_pc \<times> 'c chan_state) option" where
  "chan_act ch K T i Joining g = (if senders_ended g = T then Some (Closing, g) else None)"
| "chan_act ch K T i Closing g = Some (Ended, g\<lparr>chan := Close ch (chan g)\<rparr>)"
| "chan_act ch K T i (Sending j) g =
     (if j < K then map_option (\<lambda>c. (Returning j, g\<lparr>chan := c\<rparr>)) (Send_value ch j (chan g))
      else Some (Ended, g\<lparr>senders_ended := senders_ended g + 1\<rparr>))"
| "chan_act ch K T i (Returning j) g = map_option (\<lambda>c. (Sending (j + T), g\<lparr>chan := c\<rparr>)) (Send_return ch (chan g))"
| "chan_act ch K T i Receiving g =
     map_option (\<lambda>(r, c). (case r of None \<Rightarrow> Ended | Some v \<Rightarrow> Adding v, g\<lparr>chan := c\<rparr>)) (Recv ch (chan g))"
| "chan_act ch K T i (Adding v) g = Some (Receiving, g\<lparr>sum_value := sum_value g + of_nat v, added := added g @ [v]\<rparr>)"
| "chan_act ch K T i Ended g = None"

text \<open>\<^verbatim>\<open>CalcSum\<close> with \<open>T\<close> senders and \<open>R\<close> readers: the threads, and the sum once all of them have been joined.\<close>

definition CalcSum_start :: "'c \<Rightarrow> nat \<Rightarrow> nat \<Rightarrow> chan_pc list \<times> 'c chan_state" where
  "CalcSum_start c T R = (Joining # map Sending [0..<T] @ replicate R Receiving, \<lparr>chan = c, senders_ended = 0, sum_value = 0, added = []\<rparr>)"

definition all_joined :: "chan_pc list \<times> 'c chan_state \<Rightarrow> bool" where
  "all_joined s \<longleftrightarrow> list_all (\<lambda>l. l = Ended) (fst s)"

definition CalcSum :: "'c channel \<Rightarrow> 'c \<Rightarrow> nat \<Rightarrow> nat \<Rightarrow> nat \<Rightarrow> 64 word set" where
  "CalcSum ch c K T R = outcomes (prog_step (chan_act ch K T)) (CalcSum_start c T R) all_joined (\<lambda>s. sum_value (snd s))"

text \<open>The two constants, and one round of \<^verbatim>\<open>Run\<close>, which throws on a wrong sum.\<close>

definition kCount_buffered :: nat where
  "kCount_buffered = 500000"

definition kCount_unbuffered :: nat where
  "kCount_unbuffered = 100000"

definition ok_ans :: "nat \<Rightarrow> 64 word" where
  "ok_ans K = word_of_int (int K * (int K - 1) div 2)"

definition Run_round :: "nat \<Rightarrow> 64 word \<Rightarrow> string + unit" where
  "Run_round K s = (if ok_ans K \<noteq> s then Inl ''Wrong sum'' else Inr ())"

section \<open>What a channel has to do\<close>

text \<open>
  The contract of \<^verbatim>\<open>task.md\<close>. \<open>content c\<close> are the values handed over and not received yet, \<open>closed c\<close> tells that the channel was closed.
  A value is received once; \<^verbatim>\<open>Recv\<close> reports the end only when the channel is closed and empty; sending is blocked only by values that wait, and
  receiving only by an empty channel that is not closed.
\<close>

definition channel_ok :: "'c channel \<Rightarrow> ('c \<Rightarrow> nat multiset) \<Rightarrow> ('c \<Rightarrow> bool) \<Rightarrow> bool" where
  "channel_ok ch content closed \<longleftrightarrow>
     (\<forall>v c. \<not> closed c \<longrightarrow> (case Send_value ch v c of None \<Rightarrow> content c \<noteq> {#}
        | Some c' \<Rightarrow> content c' = add_mset v (content c) \<and> \<not> closed c')) \<and>
     (\<forall>c. case Send_return ch c of None \<Rightarrow> content c \<noteq> {#} | Some c' \<Rightarrow> content c' = content c \<and> closed c' = closed c) \<and>
     (\<forall>c. case Recv ch c of None \<Rightarrow> content c = {#} \<and> \<not> closed c
        | Some (None, c') \<Rightarrow> content c = {#} \<and> closed c \<and> content c' = {#} \<and> closed c'
        | Some (Some v, c') \<Rightarrow> content c = add_mset v (content c') \<and> closed c' = closed c) \<and>
     (\<forall>c. content (Close ch c) = content c \<and> closed (Close ch c))"

lemma channel_okD:
  assumes "channel_ok ch content closed"
  shows "\<not> closed c \<Longrightarrow> Send_value ch v c = None \<Longrightarrow> content c \<noteq> {#}"
    "\<not> closed c \<Longrightarrow> Send_value ch v c = Some c' \<Longrightarrow> content c' = add_mset v (content c) \<and> \<not> closed c'"
    "Send_return ch c = None \<Longrightarrow> content c \<noteq> {#}" "Send_return ch c = Some c' \<Longrightarrow> content c' = content c \<and> closed c' = closed c"
    "Recv ch c = None \<Longrightarrow> content c = {#} \<and> \<not> closed c"
    "Recv ch c = Some (None, c') \<Longrightarrow> content c = {#} \<and> closed c \<and> content c' = {#} \<and> closed c'"
    "Recv ch c = Some (Some v, c') \<Longrightarrow> content c = add_mset v (content c') \<and> closed c' = closed c"
    "content (Close ch c) = content c" "closed (Close ch c)"
  using assms unfolding channel_ok_def by (auto split: option.splits prod.splits) (metis option.distinct(1))+

section \<open>The numbers a sender sends\<close>

definition stripe :: "nat \<Rightarrow> nat \<Rightarrow> nat \<Rightarrow> nat set" where
  "stripe K T j = {v. j \<le> v \<and> v < K \<and> v mod T = j mod T}"

lemma finite_stripe [simp]: "finite (stripe K T j)"
  by (rule finite_subset[of _ "{..<K}"]) (auto simp: stripe_def)

lemma stripe_step:
  assumes "0 < T" "j < K"
  shows "mset_set (stripe K T j) = add_mset j (mset_set (stripe K T (j + T)))"
proof -
  have "v = j \<or> j + T \<le> v" if "j \<le> v" "v mod T = j mod T" for v
  proof (rule ccontr)
    assume "\<not> ?thesis"
    with that have "0 < v - j" "v - j < T" by auto
    moreover have "(v - j) mod T = 0" using that by (simp add: mod_eq_dvd_iff_nat)
    ultimately show False by simp
  qed
  with assms have "stripe K T j = insert j (stripe K T (j + T))" by (auto simp: stripe_def)
  moreover have "j \<notin> stripe K T (j + T)" using assms by (simp add: stripe_def)
  ultimately show ?thesis by simp
qed

lemma stripe_end [simp]: "\<not> j < K \<Longrightarrow> stripe K T j = {}"
  by (auto simp: stripe_def)

lemma stripes_cover:
  assumes "0 < T"
  shows "sum_list (map (\<lambda>j. mset_set (stripe K T j)) [0..<T]) = mset_set {..<K}"
proof (rule multiset_eqI)
  fix v
  have "count (sum_list (map (\<lambda>j. mset_set (stripe K T j)) [0..<T])) v = (\<Sum>j<T. count (mset_set (stripe K T j)) v)"
    by (simp add: sum_list_sum_nth count_sum atLeast0LessThan)
  also have "\<dots> = (\<Sum>j<T. if j = v mod T then of_bool (v < K) else 0)"
    by (rule sum.cong) (auto simp: stripe_def count_mset_set')
  also have "\<dots> = of_bool (v < K)" using assms by (simp add: sum.delta')
  also have "\<dots> = count (mset_set {..<K}) v" by (simp add: count_mset_set')
  finally show "count (sum_list (map (\<lambda>j. mset_set (stripe K T j)) [0..<T])) v = count (mset_set {..<K}) v" .
qed

section \<open>The invariant\<close>

definition rest :: "nat \<Rightarrow> nat \<Rightarrow> chan_pc \<Rightarrow> nat multiset" where
  "rest K T l = (case l of Sending j \<Rightarrow> mset_set (stripe K T j) | Returning j \<Rightarrow> mset_set (stripe K T (j + T)) | Adding v \<Rightarrow> {#v#} | _ \<Rightarrow> {#})"

definition sends :: "chan_pc \<Rightarrow> bool" where
  "sends l = (case l of Sending _ \<Rightarrow> True | Returning _ \<Rightarrow> True | _ \<Rightarrow> False)"

definition role_ok :: "nat \<Rightarrow> nat \<Rightarrow> chan_pc \<Rightarrow> bool" where
  "role_ok T i l = (case l of Joining \<Rightarrow> i = 0 | Closing \<Rightarrow> i = 0 | Sending _ \<Rightarrow> 0 < i \<and> i \<le> T | Returning _ \<Rightarrow> 0 < i \<and> i \<le> T
     | Receiving \<Rightarrow> T < i | Adding _ \<Rightarrow> T < i | Ended \<Rightarrow> True)"

lemma chan_act_role: "chan_act ch K T i l g = Some (l', g') \<Longrightarrow> role_ok T i l \<Longrightarrow> role_ok T i l'"
  by (cases l) (auto simp: role_ok_def split: if_splits option.splits)

lemma chan_act_values:
  assumes "channel_ok ch content closed" "0 < T" "chan_act ch K T i l g = Some (l', g')" "sends l \<Longrightarrow> \<not> closed (chan g)"
  shows "content (chan g') + rest K T l' + mset (added g') + z = content (chan g) + rest K T l + mset (added g) + z \<and>
    (closed (chan g') \<longleftrightarrow> closed (chan g) \<or> l = Closing)"
proof (cases l)
  case (Sending j)
  show ?thesis
  proof (cases "j < K")
    case True
    with Sending assms(3) obtain c where c: "Send_value ch j (chan g) = Some c" "l' = Returning j" "g' = g\<lparr>chan := c\<rparr>" by auto
    with channel_okD(2)[OF assms(1) _ c(1)] assms(4) Sending True stripe_step[OF assms(2) True] show ?thesis by (simp add: sends_def rest_def)
  next
    case False
    with Sending assms(3) show ?thesis by (auto simp: rest_def)
  qed
next
  case (Returning j)
  with assms(3) obtain c where c: "Send_return ch (chan g) = Some c" "l' = Sending (j + T)" "g' = g\<lparr>chan := c\<rparr>" by auto
  with channel_okD(4)[OF assms(1) c(1)] Returning show ?thesis by (simp add: rest_def)
next
  case Receiving
  with assms(3) obtain r c where c: "Recv ch (chan g) = Some (r, c)" "l' = (case r of None \<Rightarrow> Ended | Some v \<Rightarrow> Adding v)" "g' = g\<lparr>chan := c\<rparr>"
    by auto
  show ?thesis
  proof (cases r)
    case None
    with channel_okD(6)[OF assms(1), of "chan g" c] c Receiving show ?thesis by (simp add: rest_def)
  next
    case (Some v)
    with channel_okD(7)[OF assms(1), of "chan g" v c] c Receiving show ?thesis by (simp add: rest_def)
  qed
qed (use assms(3) channel_okD(8,9)[OF assms(1)] in \<open>auto simp: rest_def split: if_splits\<close>)

lemma chan_act_counts:
  assumes "chan_act ch K T i l g = Some (l', g')"
  shows "(sum_value g = of_nat (sum_list (added g)) \<longrightarrow> sum_value g' = of_nat (sum_list (added g'))) \<and>
    senders_ended g' + of_bool (sends l') = senders_ended g + of_bool (sends l)"
  using assms by (cases l) (auto simp: sends_def split: if_splits option.splits)

lemma chan_act_sends: "chan_act ch K T i l g = Some (l', g') \<Longrightarrow> sends l' \<Longrightarrow> sends l"
  by (cases l) (auto simp: sends_def split: if_splits option.splits)

text \<open>A channel that is closed and empty stays so, and a reader ends only then.\<close>

lemma chan_act_drained:
  assumes "channel_ok ch content closed" "chan_act ch K T i l g = Some (l', g')"
    and "closed (chan g) \<and> content (chan g) = {#} \<and> \<not> sends l \<or> l = Receiving \<and> l' = Ended"
  shows "closed (chan g') \<and> content (chan g') = {#}"
proof (cases l)
  case Receiving
  with assms(2) obtain r c where c: "Recv ch (chan g) = Some (r, c)" "l' = (case r of None \<Rightarrow> Ended | Some v \<Rightarrow> Adding v)" "g' = g\<lparr>chan := c\<rparr>"
    by auto
  show ?thesis
  proof (cases r)
    case None
    with channel_okD(6)[OF assms(1), of "chan g" c] c show ?thesis by simp
  next
    case (Some v)
    with channel_okD(7)[OF assms(1), of "chan g" v c] c assms(3) show ?thesis by auto
  qed
qed (use assms(2,3) channel_okD(8,9)[OF assms(1)] in \<open>auto simp: sends_def split: if_splits\<close>)

definition chan_inv :: "('c \<Rightarrow> nat multiset) \<Rightarrow> ('c \<Rightarrow> bool) \<Rightarrow> nat \<Rightarrow> nat \<Rightarrow> nat \<Rightarrow> chan_pc list \<times> 'c chan_state \<Rightarrow> bool" where
  "chan_inv content closed K T R s \<longleftrightarrow> (\<exists>ls g. s = (ls, g) \<and> length ls = Suc (T + R) \<and> (\<forall>i<length ls. role_ok T i (ls ! i)) \<and>
     content (chan g) + sum_list (map (rest K T) ls) + mset (added g) = mset_set {..<K} \<and> sum_value g = of_nat (sum_list (added g)) \<and>
     senders_ended g + length (filter sends ls) = T \<and> (closed (chan g) \<longleftrightarrow> ls ! 0 = Ended) \<and>
     (ls ! 0 \<noteq> Joining \<longrightarrow> senders_ended g = T) \<and>
     (\<forall>i<length ls. T < i \<and> ls ! i = Ended \<longrightarrow> closed (chan g) \<and> content (chan g) = {#}))"

lemma chan_invD:
  assumes "chan_inv content closed K T R (ls, g)"
  shows "length ls = Suc (T + R)" "\<And>i. i < length ls \<Longrightarrow> role_ok T i (ls ! i)"
    "content (chan g) + sum_list (map (rest K T) ls) + mset (added g) = mset_set {..<K}" "sum_value g = of_nat (sum_list (added g))"
    "senders_ended g + length (filter sends ls) = T" "closed (chan g) \<longleftrightarrow> ls ! 0 = Ended" "ls ! 0 \<noteq> Joining \<Longrightarrow> senders_ended g = T"
    "\<And>i. i < length ls \<Longrightarrow> T < i \<Longrightarrow> ls ! i = Ended \<Longrightarrow> closed (chan g) \<and> content (chan g) = {#}"
  using assms unfolding chan_inv_def by auto

text \<open>While somebody sends, the channel is open; it is only closed when all senders have ended.\<close>

lemma sender_open:
  assumes "chan_inv content closed K T R (ls, g)" "i < length ls" "sends (ls ! i)"
  shows "\<not> closed (chan g)" "senders_ended g \<noteq> T" "ls ! 0 = Joining"
proof -
  have "0 < length (filter sends ls)" using assms(2,3) by (auto simp: filter_empty_conv)
  then show n: "senders_ended g \<noteq> T" using chan_invD(5)[OF assms(1)] by linarith
  then show "ls ! 0 = Joining" using chan_invD(7)[OF assms(1)] by blast
  then show "\<not> closed (chan g)" using chan_invD(6)[OF assms(1)] by simp
qed

lemma chan_inv_step:
  assumes ok: "channel_ok ch content closed" and T: "0 < T" and inv: "chan_inv content closed K T R s"
    and st: "prog_step (chan_act ch K T) s t"
  shows "chan_inv content closed K T R t"
proof -
  obtain ls g where s: "s = (ls, g)" by (cases s)
  note D = chan_invD[OF inv[unfolded s]]
  from st[unfolded s] obtain i l' g' where i: "i < length ls" and act: "chan_act ch K T i (ls ! i) g = Some (l', g')"
    and t: "t = (ls[i := l'], g')" by (rule prog_stepE)
  note val = chan_act_values[OF ok T act, of "mset_set {..<K}"] sender_open(1)[OF inv[unfolded s] i]
  note cnt = chan_act_counts[OF act] and fil = length_filter_update[OF i, of sends l']
  have role: "role_ok T i (ls ! i)" "role_ok T i l'" using D(2)[OF i] chan_act_role[OF act] by blast+
  have zero: "ls[i := l'] ! 0 = (if i = 0 then l' else ls ! 0)" using i by (cases "i = 0") auto
  have "\<forall>j<length (ls[i := l']). role_ok T j (ls[i := l'] ! j)" using D(2) role by (intro all_nth_update) auto
  moreover have "content (chan g') + sum_list (map (rest K T) (ls[i := l'])) + mset (added g') = mset_set {..<K}"
    using val by (intro balance_step[OF _ sum_list_map_update[OF i, of "rest K T" l'] D(3)]) blast
  moreover have "sum_value g' = of_nat (sum_list (added g'))" using cnt D(4) by blast
  moreover have cnt': "senders_ended g' + length (filter sends (ls[i := l'])) = T" using cnt fil D(5) by linarith
  moreover have "closed (chan g') \<longleftrightarrow> ls[i := l'] ! 0 = Ended"
    using val D(6) zero role act by (cases "i = 0") (auto simp: role_ok_def split: chan_pc.splits if_splits)
  moreover have "ls[i := l'] ! 0 \<noteq> Joining \<longrightarrow> senders_ended g' = T"
  proof (cases "i = 0")
    case True
    with role(1) act D(7) show ?thesis unfolding zero by (cases "ls ! i") (auto simp: role_ok_def split: if_splits)
  next
    case False
    have "senders_ended g' = T" if j: "ls ! 0 \<noteq> Joining"
    proof -
      have "\<not> sends (ls ! i)" using sender_open(3)[OF inv[unfolded s] i] j by blast
      with chan_act_sends[OF act] have "\<not> sends l'" by blast
      with \<open>\<not> sends (ls ! i)\<close> cnt D(7)[OF j] show ?thesis by simp
    qed
    with False zero show ?thesis by simp
  qed
  moreover have "\<forall>j<length (ls[i := l']). T < j \<and> ls[i := l'] ! j = Ended \<longrightarrow> closed (chan g') \<and> content (chan g') = {#}"
  proof (rule all_nth_update)
    fix j assume j: "j < length ls" "j \<noteq> i"
    show "T < j \<and> ls ! j = Ended \<longrightarrow> closed (chan g') \<and> content (chan g') = {#}"
    proof
      assume "T < j \<and> ls ! j = Ended"
      with D(8)[OF j(1)] have "closed (chan g) \<and> content (chan g) = {#}" by blast
      with val(2) have "closed (chan g) \<and> content (chan g) = {#} \<and> \<not> sends (ls ! i)" by blast
      then show "closed (chan g') \<and> content (chan g') = {#}" using chan_act_drained[OF ok act] by blast
    qed
  next
    show "T < i \<and> l' = Ended \<longrightarrow> closed (chan g') \<and> content (chan g') = {#}"
    proof
      assume e: "T < i \<and> l' = Ended"
      with role(1) act have "ls ! i = Receiving" by (cases "ls ! i") (auto simp: role_ok_def)
      with e show "closed (chan g') \<and> content (chan g') = {#}" using chan_act_drained[OF ok act] by blast
    qed
  qed
  ultimately show ?thesis unfolding chan_inv_def t using D(1) by simp
qed

lemma chan_inv_start:
  assumes "content c = {#}" "\<not> closed c" "0 < T"
  shows "chan_inv content closed K T R (CalcSum_start c T R)"
proof -
  let ?ls = "Joining # map Sending [0..<T] @ replicate R Receiving"
  have "role_ok T i (?ls ! i) \<and> (T < i \<longrightarrow> ?ls ! i = Receiving)" if "i < Suc (T + R)" for i
    using that by (cases i) (auto simp: role_ok_def nth_append)
  moreover have "sum_list (map (rest K T) ?ls) = mset_set {..<K}"
    using stripes_cover[OF assms(3), of K] by (simp add: rest_def comp_def)
  moreover have "length (filter sends ?ls) = T" by (simp add: sends_def comp_def filter_map)
  ultimately show ?thesis unfolding CalcSum_start_def chan_inv_def using assms(1,2) by (auto simp: less_Suc_eq_le)
qed

section \<open>Termination\<close>

definition chan_left :: "nat \<Rightarrow> nat \<Rightarrow> chan_pc \<Rightarrow> nat" where
  "chan_left K T l = (case l of Joining \<Rightarrow> 2 | Closing \<Rightarrow> 1 | Sending j \<Rightarrow> 6 * card (stripe K T j) + 1
     | Returning j \<Rightarrow> 6 * card (stripe K T (j + T)) + 2 | Receiving \<Rightarrow> 1 | Adding _ \<Rightarrow> 2 | Ended \<Rightarrow> 0)"

definition chan_rank :: "('c \<Rightarrow> nat multiset) \<Rightarrow> nat \<Rightarrow> nat \<Rightarrow> chan_pc list \<times> 'c chan_state \<Rightarrow> nat" where
  "chan_rank content K T s = 3 * size (content (chan (snd s))) + sum_list (map (chan_left K T) (fst s))"

lemma stripe_card: "0 < T \<Longrightarrow> j < K \<Longrightarrow> card (stripe K T j) = Suc (card (stripe K T (j + T)))"
  using arg_cong[OF stripe_step, of T j K size] by simp

lemma chan_act_left:
  assumes "channel_ok ch content closed" "0 < T" "chan_act ch K T i l g = Some (l', g')" "sends l \<Longrightarrow> \<not> closed (chan g)"
  shows "3 * size (content (chan g')) + chan_left K T l' < 3 * size (content (chan g)) + chan_left K T l"
proof (cases l)
  case (Sending j)
  show ?thesis
  proof (cases "j < K")
    case True
    with Sending assms(3) obtain c where c: "Send_value ch j (chan g) = Some c" "l' = Returning j" "g' = g\<lparr>chan := c\<rparr>" by auto
    with channel_okD(2)[OF assms(1) _ c(1)] assms(4) Sending stripe_card[OF assms(2) True] show ?thesis by (simp add: sends_def chan_left_def)
  next
    case False
    with Sending assms(3) show ?thesis by (auto simp: chan_left_def)
  qed
next
  case (Returning j)
  with assms(3) obtain c where c: "Send_return ch (chan g) = Some c" "l' = Sending (j + T)" "g' = g\<lparr>chan := c\<rparr>" by auto
  with channel_okD(4)[OF assms(1) c(1)] Returning show ?thesis by (simp add: chan_left_def)
next
  case Receiving
  with assms(3) obtain r c where c: "Recv ch (chan g) = Some (r, c)" "l' = (case r of None \<Rightarrow> Ended | Some v \<Rightarrow> Adding v)" "g' = g\<lparr>chan := c\<rparr>"
    by auto
  show ?thesis
  proof (cases r)
    case None
    with channel_okD(6)[OF assms(1), of "chan g" c] c Receiving show ?thesis by (simp add: chan_left_def)
  next
    case (Some v)
    with channel_okD(7)[OF assms(1), of "chan g" v c] c Receiving show ?thesis by (simp add: chan_left_def)
  qed
qed (use assms(3) channel_okD(8,9)[OF assms(1)] in \<open>auto simp: chan_left_def split: if_splits\<close>)

lemma chan_progress:
  assumes ok: "channel_ok ch content closed" and inv: "chan_inv content closed K T R (ls, g)" and R: "0 < R"
    and nf: "\<not> all_joined (ls, g)"
  shows "\<exists>i<length ls. chan_act ch K T i (ls ! i) g \<noteq> None"
proof (rule ccontr)
  assume no: "\<not> ?thesis"
  then have blocked: "chan_act ch K T i (ls ! i) g = None" if "i < length ls" for i using that by blast
  note D = chan_invD[OF inv] and C = channel_okD[OF ok]
  have "content (chan g) = {#}"
  proof (rule ccontr)
    assume ne: "content (chan g) \<noteq> {#}"
    have r: "Suc T < length ls" using D(1) R by simp
    then have "ls ! Suc T \<noteq> Ended" using D(8)[of "Suc T"] ne by blast
    with D(2)[OF r] blocked[OF r] C(5)[of "chan g"] ne show False by (cases "ls ! Suc T") (auto simp: role_ok_def)
  qed
  then have ns: "\<not> sends (ls ! i)" if "i < length ls" for i
    using blocked[OF that] sender_open(1)[OF inv that] C(1)[of "chan g"] C(3)[of "chan g"]
    by (cases "ls ! i") (auto simp: sends_def split: if_splits)
  then have "senders_ended g = T" using D(5) length_filter_0[of sends ls] by simp
  moreover have z: "0 < length ls" using D(1) by simp
  ultimately have "ls ! 0 = Ended" using D(2)[OF z] blocked[OF z] by (cases "ls ! 0") (auto simp: role_ok_def)
  then have cl: "closed (chan g)" using D(6) by simp
  have "ls ! i = Ended" if "i < length ls" for i
    using blocked[OF that] ns[OF that] C(5)[of "chan g"] cl \<open>senders_ended g = T\<close> by (cases "ls ! i") (auto simp: sends_def)
  with nf show False by (simp add: all_joined_def list_all_length)
qed

interpretation bench: terminating_steps
  "\<lambda>s. \<exists>c. s = CalcSum_start c T R \<and> content c = {#} \<and> \<not> closed c \<and> channel_ok ch content closed \<and> 0 < T \<and> 0 < R" "prog_step (chan_act ch K T)"
  "\<lambda>s. chan_inv content closed K T R s \<and> channel_ok ch content closed \<and> 0 < T \<and> 0 < R" all_joined "chan_rank content K T"
  for ch content closed K T R
proof unfold_locales
  fix s t assume inv: "chan_inv content closed K T R s \<and> channel_ok ch content closed \<and> 0 < T \<and> 0 < R" and st: "prog_step (chan_act ch K T) s t"
  then show "chan_inv content closed K T R t \<and> channel_ok ch content closed \<and> 0 < T \<and> 0 < R" using chan_inv_step by blast
  obtain ls g where s: "s = (ls, g)" by (cases s)
  from st[unfolded s] obtain i l' g' where i: "i < length ls" and act: "chan_act ch K T i (ls ! i) g = Some (l', g')"
    and t: "t = (ls[i := l'], g')" by (rule prog_stepE)
  from inv s have i': "chan_inv content closed K T R (ls, g)" "channel_ok ch content closed" "0 < T" by auto
  have "3 * size (content (chan g')) + chan_left K T l' < 3 * size (content (chan g)) + chan_left K T (ls ! i)"
    using chan_act_left[OF i'(2,3) act] sender_open(1)[OF i'(1) i] by blast
  then show "chan_rank content K T t < chan_rank content K T s"
    using sum_list_map_update[OF i, of "chan_left K T" l'] by (simp add: chan_rank_def s t)
next
  fix s assume inv: "chan_inv content closed K T R s \<and> channel_ok ch content closed \<and> 0 < T \<and> 0 < R" and nf: "\<not> all_joined s"
  obtain ls g where s: "s = (ls, g)" by (cases s)
  with inv nf chan_progress[of ch content closed K T R ls g] obtain i where "i < length ls" "chan_act ch K T i (ls ! i) g \<noteq> None" by blast
  then obtain l' g' where "i < length ls" "chan_act ch K T i (ls ! i) g = Some (l', g')" by (cases "chan_act ch K T i (ls ! i) g") auto
  then have "prog_step (chan_act ch K T) s (ls[i := l'], g')" unfolding s by (rule prog_stepI)
  then show "\<exists>t. prog_step (chan_act ch K T) s t" by (rule exI)
next
  fix s assume "\<exists>c. s = CalcSum_start c T R \<and> content c = {#} \<and> \<not> closed c \<and> channel_ok ch content closed \<and> 0 < T \<and> 0 < R"
  then obtain c where "s = CalcSum_start c T R" "content c = {#}" "\<not> closed c" and ok: "channel_ok ch content closed" "0 < T" "0 < R" by blast
  with chan_inv_start[of content c closed T K R] show "chan_inv content closed K T R s \<and> channel_ok ch content closed \<and> 0 < T \<and> 0 < R" by simp
qed

section \<open>The result of the benchmark\<close>

lemma sum_below:
  assumes "mset xs = mset_set {..<n :: nat}"
  shows "sum_list xs = n * (n - 1) div 2"
proof -
  have "sum_list xs = \<Sum>\<^sub># (mset_set {..<n})" unfolding assms[symmetric] by (rule sum_mset_sum_list[symmetric])
  also have "\<dots> = \<Sum> {..<n}" by (simp add: sum_unfold_sum_mset)
  also have "\<dots> = n * (n - 1) div 2" using Sum_Ico_nat[of 0 n] by (simp add: atLeast0LessThan)
  finally show ?thesis .
qed

lemma ok_ans_nat: "ok_ans K = of_nat (K * (K - 1) div 2)"
proof -
  have "int K * (int K - 1) div 2 = int (K * (K - 1) div 2)"
    by (cases K) (simp_all add: zdiv_int algebra_simps)
  then show ?thesis by (simp add: ok_ans_def)
qed

lemma all_joined_sum:
  assumes "chan_inv content closed K T R s" "0 < R" "all_joined s"
  shows "sum_value (snd s) = ok_ans K" "mset (added (snd s)) = mset_set {..<K}"
proof -
  obtain ls g where s: "s = (ls, g)" by (cases s)
  note D = chan_invD[OF assms(1)[unfolded s]]
  have e: "ls ! i = Ended" if "i < length ls" for i using assms(3) that by (simp add: s all_joined_def list_all_length)
  have "content (chan g) = {#}" using D(8)[of "Suc T"] e D(1) assms(2) by simp
  moreover have "map (rest K T) ls = replicate (length ls) {#}" by (rule nth_equalityI) (simp_all add: e rest_def)
  ultimately have a: "mset (added g) = mset_set {..<K}" using D(3) by simp
  then show "mset (added (snd s)) = mset_set {..<K}" by (simp add: s)
  show "sum_value (snd s) = ok_ans K" using D(4) sum_below[OF a] by (simp add: s ok_ans_nat)
qed


text \<open>A channel that keeps the contract: a bounded queue with a flag.\<close>

definition fifo_channel :: "nat \<Rightarrow> (nat list \<times> bool) channel" where
  "fifo_channel cap = \<lparr>Send_value = (\<lambda>v (q, e). if length q < cap then Some (q @ [v], e) else None), Send_return = Some,
     Recv = (\<lambda>(q, e). case q of [] \<Rightarrow> if e then Some (None, (q, e)) else None | v # q' \<Rightarrow> Some (Some v, (q', e))),
     Close = (\<lambda>(q, e). (q, True))\<rparr>"

lemma fifo_channel_ok: "0 < cap \<Longrightarrow> channel_ok (fifo_channel cap) (\<lambda>(q, e). mset q) snd"
  by (auto simp: channel_ok_def fifo_channel_def split: list.splits)


section \<open>The empty implementations\<close>

definition stub_inv :: "nat \<Rightarrow> chan_pc list \<times> unit chan_state \<Rightarrow> bool" where
  "stub_inv T s \<longleftrightarrow> senders_ended (snd s) + length (filter sends (fst s)) = T \<and> sum_value (snd s) = 0 \<and> (\<forall>v. Adding v \<notin> set (fst s))"

lemma stub_act:
  assumes "chan_act BufferedChannel K T i l g = Some (l', g')" "\<forall>v. l \<noteq> Adding v" "0 < T"
  shows "sum_value g' = sum_value g \<and> (\<forall>v. l' \<noteq> Adding v) \<and> chan_left K T l' < chan_left K T l"
  using assms by (cases l) (auto simp: BufferedChannel_def chan_left_def stripe_card split: if_splits)

lemma stub_moves: "l \<noteq> Ended \<Longrightarrow> (l = Joining \<Longrightarrow> senders_ended g = T) \<Longrightarrow> chan_act BufferedChannel K T i l g \<noteq> None"
  by (cases l) (auto simp: BufferedChannel_def)

lemma stub_step:
  assumes inv: "stub_inv T s" and T: "0 < T" and st: "prog_step (chan_act BufferedChannel K T) s t"
  shows "stub_inv T t" "sum_list (map (chan_left K T) (fst t)) < sum_list (map (chan_left K T) (fst s))"
proof -
  obtain ls g where s: "s = (ls, g)" by (cases s)
  from st[unfolded s] obtain i l' g' where i: "i < length ls" and act: "chan_act BufferedChannel K T i (ls ! i) g = Some (l', g')"
    and t: "t = (ls[i := l'], g')" by (rule prog_stepE)
  have na: "\<forall>v. ls ! i \<noteq> Adding v" using inv nth_mem[OF i] by (metis stub_inv_def s fst_conv)
  note st = stub_act[OF act na T]
  have "set (ls[i := l']) \<subseteq> insert l' (set ls)" by (rule set_update_subset_insert)
  then have "Adding v \<notin> set (ls[i := l'])" for v using st inv by (auto simp: stub_inv_def s)
  moreover have "senders_ended g' + length (filter sends (ls[i := l'])) = T"
    using chan_act_counts[OF act] length_filter_update[OF i, of sends l'] inv by (simp add: stub_inv_def s)
  ultimately show "stub_inv T t" using st inv by (simp add: stub_inv_def s t)
  show "sum_list (map (chan_left K T) (fst t)) < sum_list (map (chan_left K T) (fst s))"
    using sum_list_map_update[OF i, of "chan_left K T" l'] st by (simp add: s t)
qed

interpretation stub: terminating_steps "\<lambda>s. s = CalcSum_start () T R \<and> 0 < T" "prog_step (chan_act BufferedChannel K T)" "\<lambda>s. stub_inv T s \<and> 0 < T"
  all_joined "\<lambda>s. sum_list (map (chan_left K T) (fst s))" for K T R
proof unfold_locales
  show "stub_inv T s \<and> 0 < T" if "s = CalcSum_start () T R \<and> 0 < T" for s
    using that by (auto simp: stub_inv_def CalcSum_start_def sends_def comp_def filter_map)
next
  fix s assume inv: "stub_inv T s \<and> 0 < T" and nf: "\<not> all_joined s"
  obtain ls g where s: "s = (ls, g)" by (cases s)
  have "\<exists>i<length ls. ls ! i \<noteq> Ended \<and> (ls ! i = Joining \<longrightarrow> senders_ended g = T)"
  proof (cases "filter sends ls")
    case Nil
    then have "senders_ended g = T" using inv by (simp add: stub_inv_def s)
    then show ?thesis using nf by (auto simp: all_joined_def s list_all_length)
  next
    case (Cons l xs)
    then have "l \<in> set (filter sends ls)" by simp
    then obtain i where "i < length ls" "sends (ls ! i)" by (auto simp: in_set_conv_nth)
    then show ?thesis by (intro exI[of _ i]) (auto simp: sends_def)
  qed
  then obtain i where i: "i < length ls" "ls ! i \<noteq> Ended" "ls ! i = Joining \<Longrightarrow> senders_ended g = T" by blast
  from stub_moves[OF i(2,3), of K i] obtain l' g' where "chan_act BufferedChannel K T i (ls ! i) g = Some (l', g')"
    by (cases "chan_act BufferedChannel K T i (ls ! i) g") auto
  from prog_stepI[of i ls "chan_act BufferedChannel K T", OF i(1) this] show "\<exists>t. prog_step (chan_act BufferedChannel K T) s t"
    unfolding s by (rule exI)
qed (use stub_step in blast)+

lemma CalcSum_stub: "0 < T \<Longrightarrow> CalcSum BufferedChannel () K T R = {0}"
  unfolding CalcSum_def
proof (rule outcomes_unique)
  assume T: "0 < T"
  then have init: "CalcSum_start () T R = CalcSum_start () T R \<and> 0 < T" by simp
  show "sum_value (snd t) = 0" if "(prog_step (chan_act BufferedChannel K T))\<^sup>*\<^sup>* (CalcSum_start () T R) t" for t
    using stub.inv_reachable[OF init that] by (simp add: stub_inv_def)
  show "\<exists>t. (prog_step (chan_act BufferedChannel K T))\<^sup>*\<^sup>* (CalcSum_start () T R) t \<and> all_joined t"
    by (rule stub.reaches_final[OF init rtranclp.rtrancl_refl])
qed

text \<open>
  With the channels as the repository has them, both benchmarks reject: whatever the numbers of senders and readers and the
  scheduling, \<^verbatim>\<open>CalcSum\<close> can return only 0, and \<^verbatim>\<open>Run\<close> throws.
\<close>

lemma benchmark_rejects_stubs:
  assumes "0 < T"
  shows "CalcSum BufferedChannel () kCount_buffered T R = {0} \<and> Run_round kCount_buffered 0 = Inl ''Wrong sum'' \<and>
    CalcSum UnbufferedChannel () kCount_unbuffered T R = {0} \<and> Run_round kCount_unbuffered 0 = Inl ''Wrong sum''"
proof -
  have "UnbufferedChannel = BufferedChannel" by (simp add: UnbufferedChannel_def BufferedChannel_def)
  with CalcSum_stub[OF assms] show ?thesis
    by (simp add: Run_round_def ok_ans_def kCount_buffered_def kCount_unbuffered_def)
qed

lemma benchmark_rejects_stubs_witness:
  "CalcSum BufferedChannel () kCount_buffered 2 6 = {0} \<and> Run_round kCount_buffered 0 = Inl ''Wrong sum''"
  using benchmark_rejects_stubs[of 2 6] by simp

end
