(* ===== verification/Barrier.thy ===== *)
theory Barrier
  imports Prelude
begin

text \<open>
  \<^verbatim>\<open>synchronization_primitives/barrier/barrier.cpp\<close>: workers that go through several rounds together, printing a line
  in each round and then waiting at a \<^verbatim>\<open>std::barrier\<close> whose completion function prints a line of its own. The lemmas show, for any
  number of workers and rounds, that every run ends and that the rounds do not overlap.
\<close>

section \<open>The barrier and the workers\<close>

datatype bar_line =
    Worker_line nat nat             \<comment> \<open>the round and the number of the worker\<close>
  | All_reached                     \<comment> \<open>\<^verbatim>\<open>All workers reached the barried\<close>\<close>

record bar_state =
  arrived :: nat
  bar_phase :: nat
  bar_log :: "bar_line list"

datatype bar_pc =
    Bar_Print nat                   \<comment> \<open>at the start of a round\<close>
  | Bar_Arrive nat                  \<comment> \<open>\<^verbatim>\<open>arrive_and_wait()\<close>\<close>
  | Bar_Wait nat nat                \<comment> \<open>waiting for the end of a phase\<close>
  | Bar_Complete nat                \<comment> \<open>the last to arrive, which runs the completion function\<close>

fun bar_act :: "nat \<Rightarrow> nat \<Rightarrow> nat \<Rightarrow> bar_pc \<Rightarrow> bar_state \<Rightarrow> (bar_pc \<times> bar_state) option" where
  "bar_act n R i (Bar_Print r) g =
     (if r < R then Some (Bar_Arrive r, g\<lparr>bar_log := bar_log g @ [Worker_line r (i + 1)]\<rparr>) else None)"
| "bar_act n R i (Bar_Arrive r) g =
     Some (if arrived g + 1 = n then Bar_Complete r else Bar_Wait r (bar_phase g), g\<lparr>arrived := arrived g + 1\<rparr>)"
| "bar_act n R i (Bar_Complete r) g =
     Some (Bar_Print (r + 1), g\<lparr>bar_log := bar_log g @ [All_reached], arrived := 0, bar_phase := bar_phase g + 1\<rparr>)"
| "bar_act n R i (Bar_Wait r p) g = (if bar_phase g \<noteq> p then Some (Bar_Print (r + 1), g) else None)"

definition bar_start :: "nat \<Rightarrow> bar_pc list \<times> bar_state" where
  "bar_start n = (replicate n (Bar_Print 0), \<lparr>arrived = 0, bar_phase = 0, bar_log = []\<rparr>)"

text \<open>The program: three workers, two rounds (work and clean-up).\<close>

definition WorkersCount :: nat where
  "WorkersCount = 3"

definition barrier_act :: "nat \<Rightarrow> bar_pc \<Rightarrow> bar_state \<Rightarrow> (bar_pc \<times> bar_state) option" where
  "barrier_act = bar_act WorkersCount 2"

section \<open>The invariant\<close>

text \<open>The output of \<open>p\<close> complete rounds: in each, every worker's line once, then that of the completion function.\<close>

fun rounds :: "nat \<Rightarrow> nat \<Rightarrow> bar_line list \<Rightarrow> bool" where
  "rounds n 0 out \<longleftrightarrow> out = []"
| "rounds n (Suc p) out \<longleftrightarrow> (\<exists>prev lines. out = prev @ lines @ [All_reached] \<and> rounds n p prev \<and>
     mset lines = mset (map (\<lambda>i. Worker_line p (i + 1)) [0..<n]))"

definition bar_ok :: "nat \<Rightarrow> nat \<Rightarrow> bar_pc \<Rightarrow> bool" where
  "bar_ok R p l = (case l of Bar_Print r \<Rightarrow> r = p | Bar_Arrive r \<Rightarrow> r = p \<and> r < R | Bar_Complete r \<Rightarrow> r = p \<and> r < R
     | Bar_Wait r q \<Rightarrow> q = r \<and> r < R \<and> (r = p \<or> Suc r = p))"

definition bar_arrived :: "nat \<Rightarrow> bar_pc \<Rightarrow> bool" where
  "bar_arrived p l \<longleftrightarrow> l = Bar_Wait p p \<or> l = Bar_Complete p"

definition bar_printed :: "nat \<Rightarrow> bar_pc \<Rightarrow> bool" where
  "bar_printed p l \<longleftrightarrow> l = Bar_Arrive p \<or> bar_arrived p l"

definition is_last :: "bar_pc \<Rightarrow> bool" where
  "is_last l = (case l of Bar_Complete _ \<Rightarrow> True | _ \<Rightarrow> False)"

text \<open>The lines of the current round.\<close>

definition current :: "nat \<Rightarrow> bar_pc list \<Rightarrow> bar_line multiset" where
  "current p ls = mset (map (\<lambda>i. Worker_line p (i + 1)) (filter (\<lambda>i. bar_printed p (ls ! i)) [0..<length ls]))"

definition bar_inv :: "nat \<Rightarrow> nat \<Rightarrow> bar_pc list \<times> bar_state \<Rightarrow> bool" where
  "bar_inv n R s \<longleftrightarrow> (\<exists>ls g. s = (ls, g) \<and> length ls = n \<and> 0 < n \<and> bar_phase g \<le> R \<and> (\<forall>i<length ls. bar_ok R (bar_phase g) (ls ! i)) \<and>
     arrived g = length (filter (bar_arrived (bar_phase g)) ls) \<and> length (filter is_last ls) = of_bool (arrived g = n) \<and>
     (\<exists>prev lines. bar_log g = prev @ lines \<and> rounds n (bar_phase g) prev \<and> mset lines = current (bar_phase g) ls))"

lemma bar_invD:
  assumes "bar_inv n R (ls, g)"
  shows "length ls = n" "0 < n" "bar_phase g \<le> R" "\<And>i. i < length ls \<Longrightarrow> bar_ok R (bar_phase g) (ls ! i)"
    "arrived g = length (filter (bar_arrived (bar_phase g)) ls)" "length (filter is_last ls) = of_bool (arrived g = n)"
    "\<exists>prev lines. bar_log g = prev @ lines \<and> rounds n (bar_phase g) prev \<and> mset lines = current (bar_phase g) ls"
  using assms unfolding bar_inv_def by auto

lemma bar_invI:
  assumes "length ls = n" "0 < n" "bar_phase g \<le> R" "\<forall>i<length ls. bar_ok R (bar_phase g) (ls ! i)"
    "arrived g = length (filter (bar_arrived (bar_phase g)) ls)" "length (filter is_last ls) = of_bool (arrived g = n)"
    "bar_log g = prev @ lines" "rounds n (bar_phase g) prev" "mset lines = current (bar_phase g) ls"
  shows "bar_inv n R (ls, g)"
  using assms unfolding bar_inv_def by blast

text \<open>A worker prints its line of the round; other actions do not change what has been printed.\<close>

lemma current_update:
  assumes "i < length ls"
  shows "current p (ls[i := l]) + (if bar_printed p (ls ! i) then {#Worker_line p (i + 1)#} else {#}) =
    current p ls + (if bar_printed p l then {#Worker_line p (i + 1)#} else {#})"
proof -
  have split: "[0..<length ls] = [0..<i] @ i # [Suc i..<length ls]"
    using assms upt_add_eq_append[of 0 i "length ls - i"] by (simp add: upt_conv_Cons)
  have lo: "filter (\<lambda>j. bar_printed p (ls[i := l] ! j)) [0..<i] = filter (\<lambda>j. bar_printed p (ls ! j)) [0..<i]"
    by (rule filter_cong) auto
  have hi: "filter (\<lambda>j. bar_printed p (ls[i := l] ! j)) [Suc i..<length ls] = filter (\<lambda>j. bar_printed p (ls ! j)) [Suc i..<length ls]"
    by (rule filter_cong) auto
  show ?thesis unfolding current_def length_list_update split using assms by (simp add: lo hi)
qed

lemma bar_inv_step:
  assumes inv: "bar_inv n R s" and st: "prog_step (bar_act n R) s t"
  shows "bar_inv n R t"
proof -
  obtain ls g where s: "s = (ls, g)" by (cases s)
  note D = bar_invD[OF inv[unfolded s]]
  from D(7) obtain prev lines where log: "bar_log g = prev @ lines" "rounds n (bar_phase g) prev" "mset lines = current (bar_phase g) ls" by blast
  from st[unfolded s] obtain i l' g' where i: "i < length ls" and act: "bar_act n R i (ls ! i) g = Some (l', g')"
    and t: "t = (ls[i := l'], g')" by (rule prog_stepE)
  note ok = D(4)[OF i] and arr = length_filter_update[OF i, of "bar_arrived (bar_phase g)" l']
    and lst = length_filter_update[OF i, of is_last l'] and cur = current_update[OF i, of "bar_phase g" l']
  have others: "\<forall>j<length (ls[i := l']). bar_ok R (bar_phase g) (ls[i := l'] ! j)" if "bar_ok R (bar_phase g) l'"
    using D(4) that by (intro all_nth_update) auto
  note defs = bar_ok_def bar_arrived_def bar_printed_def is_last_def
  show ?thesis
  proof (cases "ls ! i")
    case (Bar_Print r)
    then have l': "l' = Bar_Arrive (bar_phase g)" "bar_phase g < R" "g' = g\<lparr>bar_log := bar_log g @ [Worker_line (bar_phase g) (i + 1)]\<rparr>"
      using act ok by (auto simp: bar_ok_def split: if_splits)
    show ?thesis unfolding t
    proof (rule bar_invI)
      show "bar_log g' = prev @ (lines @ [Worker_line (bar_phase g) (i + 1)])" using l' log by simp
    qed (use D others l' arr lst cur log Bar_Print in \<open>simp_all add: defs\<close>)
  next
    case (Bar_Arrive r)
    then have r: "r = bar_phase g" "r < R" using ok by (auto simp: bar_ok_def)
    have lt: "arrived g < n" unfolding D(5) D(1)[symmetric]
      by (rule length_filter_less[of "ls ! i"]) (use nth_mem[OF i] Bar_Arrive in \<open>simp_all add: bar_arrived_def\<close>)
    have l': "l' = (if arrived g + 1 = n then Bar_Complete r else Bar_Wait r r)" "g' = g\<lparr>arrived := arrived g + 1\<rparr>"
      using act Bar_Arrive r by auto
    show ?thesis unfolding t
      by (rule bar_invI[where prev = prev and lines = lines])
        (use D others l' arr lst cur log Bar_Arrive r lt in \<open>auto simp: defs split: if_splits\<close>)
  next
    case (Bar_Wait r q)
    then have l': "l' = Bar_Print (bar_phase g)" "g' = g" "r \<noteq> bar_phase g" using act ok by (auto simp: bar_ok_def split: if_splits)
    show ?thesis unfolding t
      by (rule bar_invI[where prev = prev and lines = lines])
        (use D others l' arr lst cur log Bar_Wait ok in \<open>simp_all add: defs\<close>)
  next
    case (Bar_Complete r)
    then have l': "l' = Bar_Print (Suc (bar_phase g))" "bar_phase g < R"
      "g' = g\<lparr>bar_log := bar_log g @ [All_reached], arrived := 0, bar_phase := bar_phase g + 1\<rparr>"
      using act ok by (auto simp: bar_ok_def)
    have "filter is_last ls \<noteq> []" using nth_mem[OF i] Bar_Complete by (auto simp: filter_empty_conv is_last_def intro!: bexI[of _ "ls ! i"])
    then have an: "arrived g = n" using D(6) by (cases "arrived g = n") auto
    have all: "bar_arrived (bar_phase g) (ls ! j)" if "j < length ls" for j
      using an D(1,5) that length_filter_less[of "ls ! j" ls "bar_arrived (bar_phase g)"] by force
    have "current (bar_phase g) ls = mset (map (\<lambda>i. Worker_line (bar_phase g) (i + 1)) [0..<n])"
      unfolding current_def using all D(1) by (simp add: bar_printed_def cong: filter_cong)
    with log have "rounds n (Suc (bar_phase g)) (prev @ lines @ [All_reached])" by auto
    moreover have new: "bar_ok R (Suc (bar_phase g)) (ls[i := l'] ! j) \<and> \<not> bar_printed (Suc (bar_phase g)) (ls[i := l'] ! j) \<and> \<not> is_last (ls[i := l'] ! j)"
      if j: "j < length ls" for j
    proof -
      have "length (filter is_last (ls[i := l'])) = 0" using lst D(6) an Bar_Complete l' by (simp add: is_last_def)
      then have "\<not> is_last (ls[i := l'] ! j)" using length_filter_0[of is_last "ls[i := l']"] j by simp
      then show ?thesis using all[OF j] D(4)[OF j] l' i by (cases "j = i") (auto simp: defs split: bar_pc.splits)
    qed
    moreover have "length (filter (bar_arrived (Suc (bar_phase g))) (ls[i := l'])) = 0" "length (filter is_last (ls[i := l'])) = 0"
      unfolding length_filter_0 using new by (simp_all add: bar_printed_def)
    moreover have "current (Suc (bar_phase g)) (ls[i := l']) = {#}" using new by (simp add: current_def filter_empty_conv)
    ultimately show ?thesis unfolding t
      by (intro bar_invI[where prev = "prev @ lines @ [All_reached]" and lines = "[]"]) (use D(1,2) l' log(1) in simp_all)
  qed
qed

section \<open>Termination\<close>

definition bar_left :: "nat \<Rightarrow> bar_pc \<Rightarrow> nat" where
  "bar_left R l = (case l of Bar_Print r \<Rightarrow> 4 * (R - r) | Bar_Arrive r \<Rightarrow> 4 * (R - r) - 1 | Bar_Wait r _ \<Rightarrow> 4 * (R - r) - 2
     | Bar_Complete r \<Rightarrow> 4 * (R - r) - 2)"

definition bar_final :: "nat \<Rightarrow> bar_pc list \<times> bar_state \<Rightarrow> bool" where
  "bar_final R s \<longleftrightarrow> list_all (\<lambda>l. l = Bar_Print R) (fst s)"

interpretation barrier: terminating_steps "\<lambda>s. s = bar_start n \<and> 0 < n" "prog_step (bar_act n R)" "bar_inv n R" "bar_final R"
  "\<lambda>s. sum_list (map (bar_left R) (fst s))" for n R
proof unfold_locales
  fix s assume "s = bar_start n \<and> 0 < n"
  then show "bar_inv n R s"
    by (auto simp: bar_start_def bar_ok_def bar_arrived_def bar_printed_def is_last_def current_def intro!: bar_invI)
next
  fix s t assume inv: "bar_inv n R s" and st: "prog_step (bar_act n R) s t"
  then show "bar_inv n R t" by (rule bar_inv_step)
  obtain ls g where s: "s = (ls, g)" by (cases s)
  from st[unfolded s] obtain i l' g' where i: "i < length ls" and act: "bar_act n R i (ls ! i) g = Some (l', g')"
    and t: "t = (ls[i := l'], g')" by (rule prog_stepE)
  have "bar_left R l' < bar_left R (ls ! i)"
    using bar_invD(4)[OF inv[unfolded s] i] act by (cases "ls ! i") (auto simp: bar_left_def bar_ok_def split: if_splits)
  then show "sum_list (map (bar_left R) (fst t)) < sum_list (map (bar_left R) (fst s))"
    using sum_list_map_update[OF i, of "bar_left R" l'] by (simp add: s t)
next
  fix s assume inv: "bar_inv n R s" and nf: "\<not> bar_final R s"
  obtain ls g where s: "s = (ls, g)" by (cases s)
  note D = bar_invD[OF inv[unfolded s]]
  have "\<exists>i<length ls. bar_act n R i (ls ! i) g \<noteq> None"
  proof (rule ccontr)
    assume no: "\<not> ?thesis"
    have blocked: "ls ! i = Bar_Wait (bar_phase g) (bar_phase g) \<and> bar_phase g < R \<or> ls ! i = Bar_Print R \<and> bar_phase g = R"
      if "i < length ls" for i
    proof -
      have "bar_act n R i (ls ! i) g = None" using no that by blast
      with D(3) D(4)[OF that] show ?thesis by (cases "ls ! i") (auto simp: bar_ok_def split: if_splits)
    qed
    with nf have "bar_phase g < R" by (auto simp: bar_final_def s list_all_length)
    with blocked have w: "ls ! i = Bar_Wait (bar_phase g) (bar_phase g)" if "i < length ls" for i using that by auto
    then have "filter (bar_arrived (bar_phase g)) ls = ls" "filter is_last ls = []"
      by (auto simp: filter_id_conv filter_empty_conv in_set_conv_nth bar_arrived_def is_last_def)
    with D(1,5,6) show False by simp
  qed
  then obtain i l' g' where "i < length ls" "bar_act n R i (ls ! i) g = Some (l', g')" by auto
  then have "prog_step (bar_act n R) s (ls[i := l'], g')" unfolding s by (rule prog_stepI)
  then show "\<exists>t. prog_step (bar_act n R) s t" by (rule exI)
qed

lemma rounds_final:
  assumes "bar_inv n R s" "bar_final R s"
  shows "rounds n R (bar_log (snd s))"
proof -
  obtain ls g where s: "s = (ls, g)" by (cases s)
  note D = bar_invD[OF assms(1)[unfolded s]]
  have e: "ls ! i = Bar_Print R" if "i < length ls" for i using assms(2) that by (simp add: bar_final_def s list_all_length)
  with D(4)[of 0] D(1,2) have "bar_phase g = R" by (simp add: bar_ok_def)
  moreover have "current R ls = {#}" using e by (auto simp: current_def bar_printed_def bar_arrived_def filter_empty_conv)
  ultimately show ?thesis using D(7) by (auto simp: s)
qed

text \<open>
  C31. The barrier, for any number of workers and rounds and every scheduling: every run ends, a state without a next action is the one in which all workers
  are through, and the output then consists of complete rounds one after another. In each
  round every worker's line is printed exactly once and before the line of the completion function, which is printed once, and no line of the next round
  is printed earlier. The program itself, with three workers and a round of work and one of clean-up, is an instance.
\<close>

theorem barrier_separates_rounds:
  assumes "0 < n" "(prog_step (bar_act n R))\<^sup>*\<^sup>* (bar_start n) s"
  shows "(stuck (prog_step (bar_act n R)) s \<longrightarrow> bar_final R s) \<and> (bar_final R s \<longrightarrow> rounds n R (bar_log (snd s))) \<and>
    ((prog_step (bar_act n R) ^^ k) (bar_start n) s \<longrightarrow> k \<le> 4 * R * n)"
proof -
  have init: "bar_start n = bar_start n \<and> 0 < n" using assms(1) by simp
  have inv0: "bar_inv n R (bar_start n)" using init by (rule barrier.inv_init)
  have rounds: "bar_final R s \<Longrightarrow> rounds n R (bar_log (snd s))" by (rule rounds_final[OF barrier.inv_reachable[OF init assms(2)]])
  have "sum_list (map (bar_left R) (fst (bar_start n))) = 4 * R * n" by (simp add: bar_start_def bar_left_def sum_list_replicate)
  then have "(prog_step (bar_act n R) ^^ k) (bar_start n) s \<Longrightarrow> k \<le> 4 * R * n"
    using barrier.run_bounded[OF inv0, of k s] by linarith
  with rounds barrier.stuck_final[OF init assms(2)] show ?thesis by blast
qed

theorem barrier_separates_rounds_witness:
  "\<exists>s. (prog_step barrier_act)\<^sup>*\<^sup>* (bar_start WorkersCount) s \<and> rounds WorkersCount 2 (bar_log (snd s))"
proof -
  have n: "0 < WorkersCount" by (simp add: WorkersCount_def)
  have "map_option (bar_final 2) (run_schedule barrier_act ([0, 1, 2, 2, 1, 0, 0, 1, 2] @ [0, 1, 2, 0, 1, 2, 2, 1, 0]) (bar_start WorkersCount)) = Some True"
    by code_simp
  then obtain s where s: "run_schedule barrier_act ([0, 1, 2, 2, 1, 0, 0, 1, 2] @ [0, 1, 2, 0, 1, 2, 2, 1, 0]) (bar_start WorkersCount) = Some s" "bar_final 2 s"
    by auto
  note r = run_schedule_reachable[OF s(1)]
  from barrier_separates_rounds[OF n, of 2 s] r s(2) show ?thesis unfolding barrier_act_def by blast
qed

end
