(* ===== verification/Std_Latch.thy ===== *)
theory Std_Latch
  imports Prelude
begin

text \<open>
  The programs with a \<^verbatim>\<open>std::latch\<close>: \<^verbatim>\<open>synchronization_primitives/barrier/latch.cpp\<close>, in which \<^verbatim>\<open>main\<close> waits until all workers have counted down, and
  \<^verbatim>\<open>cache/false_sharing.cpp\<close>, in which three threads wait for each other and then each increment a member of a shared structure. Both are threads that run
  a list of instructions. The lemmas show that threads that do not count down after waiting never block for ever, what the first program prints and
  what the second one leaves in its structure.
\<close>

section \<open>Threads with a latch\<close>

datatype latch_line = Worker_finished nat | All_workers_finished

datatype latch_instr =
    Say latch_line
  | Count_down                  \<comment> \<open>\<^verbatim>\<open>count_down()\<close>, also the first half of \<^verbatim>\<open>arrive_and_wait()\<close>\<close>
  | Latch_wait                  \<comment> \<open>\<^verbatim>\<open>wait()\<close>, also the second half\<close>
  | Increments nat nat          \<comment> \<open>a loop of \<^verbatim>\<open>++value\<close>: which member, how many rounds are left\<close>

record latch_world =
  latch_count :: nat
  latch_log :: "latch_line list"
  members :: "nat \<Rightarrow> int"      \<comment> \<open>\<^verbatim>\<open>SharedState\<close>: its members \<^verbatim>\<open>a\<close>, \<^verbatim>\<open>b\<close>, \<^verbatim>\<open>c\<close>\<close>
  latch_ub :: bool              \<comment> \<open>the counter of the latch became negative or an \<^verbatim>\<open>int\<close> overflowed\<close>

definition int_max :: int where
  "int_max = 2 ^ 31 - 1"

fun std_latch_act :: "nat \<Rightarrow> latch_instr list \<Rightarrow> latch_world \<Rightarrow> (latch_instr list \<times> latch_world) option" where
  "std_latch_act i [] g = None"
| "std_latch_act i (Say e # p) g = Some (p, g\<lparr>latch_log := latch_log g @ [e]\<rparr>)"
| "std_latch_act i (Count_down # p) g =
     Some (p, if latch_count g = 0 then g\<lparr>latch_ub := True\<rparr> else g\<lparr>latch_count := latch_count g - 1\<rparr>)"
| "std_latch_act i (Latch_wait # p) g = (if latch_count g = 0 then Some (p, g) else None)"
| "std_latch_act i (Increments v k # p) g =
     (case k of 0 \<Rightarrow> Some (p, g)
      | Suc k' \<Rightarrow> Some (Increments v k' # p, if members g v = int_max then g\<lparr>latch_ub := True\<rparr>
          else g\<lparr>members := (members g)(v := members g v + 1)\<rparr>))"

definition latch_world_init :: "nat \<Rightarrow> latch_world" where
  "latch_world_init n = \<lparr>latch_count = n, latch_log = [], members = (\<lambda>_. 0), latch_ub = False\<rparr>"

text \<open>\<^verbatim>\<open>latch.cpp\<close> with \<open>n\<close> workers: thread 0 is \<^verbatim>\<open>main\<close>.\<close>

definition latch_worker :: "nat \<Rightarrow> latch_instr list" where
  "latch_worker w = [Say (Worker_finished (w + 1)), Count_down]"

definition latch_program :: "nat \<Rightarrow> latch_instr list list \<times> latch_world" where
  "latch_program n = ([Latch_wait, Say All_workers_finished] # map latch_worker [0..<n], latch_world_init n)"

text \<open>\<^verbatim>\<open>false_sharing.cpp\<close> with \<open>n\<close> threads and \<open>N\<close> increments.\<close>

definition threadFunc :: "nat \<Rightarrow> nat \<Rightarrow> latch_instr list" where
  "threadFunc N v = [Count_down, Latch_wait, Increments v N]"

definition false_sharing_program :: "nat \<Rightarrow> nat \<Rightarrow> latch_instr list list \<times> latch_world" where
  "false_sharing_program n N = (map (threadFunc N) [0..<n], latch_world_init n)"

section \<open>The invariant\<close>

definition downs :: "latch_instr list \<Rightarrow> nat" where
  "downs p = length (filter (\<lambda>x. x = Count_down) p)"

fun no_down_after_wait :: "latch_instr list \<Rightarrow> bool" where
  "no_down_after_wait [] = True"
| "no_down_after_wait (Latch_wait # p) \<longleftrightarrow> Count_down \<notin> set p \<and> no_down_after_wait p"
| "no_down_after_wait (x # p) = no_down_after_wait p"

fun says :: "latch_instr list \<Rightarrow> latch_line multiset" where
  "says [] = {#}"
| "says (Say e # p) = add_mset e (says p)"
| "says (_ # p) = says p"

fun incs :: "nat \<Rightarrow> latch_instr list \<Rightarrow> nat" where
  "incs v [] = 0"
| "incs v (Increments u k # p) = (if u = v then k else 0) + incs v p"
| "incs v (_ # p) = incs v p"

fun latch_left :: "latch_instr list \<Rightarrow> nat" where
  "latch_left [] = 0"
| "latch_left (Increments u k # p) = k + 1 + latch_left p"
| "latch_left (_ # p) = 1 + latch_left p"

text \<open>\<open>ps\<close> are the programs the threads started with.\<close>

definition latch_ok :: "latch_instr list list \<Rightarrow> bool" where
  "latch_ok ps \<longleftrightarrow> list_all no_down_after_wait ps \<and> (\<forall>v. int (sum_list (map (incs v) ps)) \<le> int_max)"

definition std_latch_inv :: "latch_instr list list \<Rightarrow> latch_instr list list \<times> latch_world \<Rightarrow> bool" where
  "std_latch_inv ps s \<longleftrightarrow> latch_ok ps \<and> list_all no_down_after_wait (fst s) \<and> latch_count (snd s) = sum_list (map downs (fst s)) \<and>
     mset (latch_log (snd s)) + sum_list (map says (fst s)) = sum_list (map says ps) \<and>
     (\<forall>v. members (snd s) v + int (sum_list (map (incs v) (fst s))) = int (sum_list (map (incs v) ps)) \<and> 0 \<le> members (snd s) v) \<and>
     \<not> latch_ub (snd s)"

lemma latch_act_effect:
  assumes "std_latch_act i p g = Some (p', g')"
  shows "no_down_after_wait p \<longrightarrow> no_down_after_wait p'" "downs p \<le> latch_count g \<longrightarrow> latch_count g' + downs p = latch_count g + downs p'"
    "mset (latch_log g') + says p' = mset (latch_log g) + says p" "latch_left p' < latch_left p"
    "(\<forall>v. 0 < incs v p \<longrightarrow> members g v < int_max) \<longrightarrow> (\<forall>v. members g' v + int (incs v p') = members g v + int (incs v p))"
    "(\<forall>v. 0 < incs v p \<longrightarrow> members g v < int_max) \<and> downs p \<le> latch_count g \<and> \<not> latch_ub g \<longrightarrow> \<not> latch_ub g'"
    "\<forall>v. members g v \<le> members g' v"
  using assms by (cases "(i, p, g)" rule: std_latch_act.cases; auto simp: downs_def split: if_splits nat.splits)+

lemma std_latch_inv_step:
  assumes inv: "std_latch_inv ps s" and st: "prog_step std_latch_act s t"
  shows "std_latch_inv ps t" "sum_list (map latch_left (fst t)) < sum_list (map latch_left (fst s))"
proof -
  obtain ls g where s: "s = (ls, g)" by (cases s)
  have D: "latch_ok ps" "list_all no_down_after_wait ls" "latch_count g = sum_list (map downs ls)"
    "mset (latch_log g) + sum_list (map says ls) = sum_list (map says ps)" "\<not> latch_ub g"
    and inc: "\<And>v. members g v + int (sum_list (map (incs v) ls)) = int (sum_list (map (incs v) ps))" and nn: "\<And>v. 0 \<le> members g v"
    using inv unfolding std_latch_inv_def s by auto
  from st[unfolded s] obtain i l' g' where i: "i < length ls" and act: "std_latch_act i (ls ! i) g = Some (l', g')"
    and t: "t = (ls[i := l'], g')" by (rule prog_stepE)
  note E = latch_act_effect[OF act]
  have dn: "downs (ls ! i) \<le> latch_count g" unfolding D(3) using elem_le_sum_list[of i "map downs ls"] i by simp
  have lt: "\<forall>v. 0 < incs v (ls ! i) \<longrightarrow> members g v < int_max"
  proof (intro allI impI)
    fix v assume "0 < incs v (ls ! i)"
    then have "0 < sum_list (map (incs v) ls)" using elem_le_sum_list[of i "map (incs v) ls"] i by simp
    with inc[of v] D(1) show "members g v < int_max" unfolding latch_ok_def by (smt (verit) of_nat_0_less_iff)
  qed
  have "list_all no_down_after_wait (ls[i := l'])" using D(2) E(1) i by (auto simp: list_all_length nth_list_update)
  moreover have "latch_count g' = sum_list (map downs (ls[i := l']))"
    using E(2) dn D(3) sum_list_map_update[OF i, of downs l'] by simp
  moreover have "mset (latch_log g') + sum_list (map says (ls[i := l'])) + {#} = sum_list (map says ps)"
    by (rule balance_step[OF _ sum_list_map_update[OF i, of says l']]) (use E(3) D(4) in simp_all)
  moreover have "members g' v + int (sum_list (map (incs v) (ls[i := l']))) = int (sum_list (map (incs v) ps))" for v
    using E(5) lt inc[of v] sum_list_map_update[OF i, of "incs v" l'] by (smt (verit) of_nat_add)
  moreover have "0 \<le> members g' v" for v using E(7) nn[of v] order_trans by blast
  moreover have "\<not> latch_ub g'" using E(6) lt dn D(5) by blast
  ultimately show "std_latch_inv ps t" using D(1) by (simp add: std_latch_inv_def t)
  show "sum_list (map latch_left (fst t)) < sum_list (map latch_left (fst s))"
    using sum_list_map_update[OF i, of latch_left l'] E(4) by (simp add: s t)
qed

definition latch_final :: "latch_instr list list \<times> latch_world \<Rightarrow> bool" where
  "latch_final s \<longleftrightarrow> list_all (\<lambda>p. p = []) (fst s)"

interpretation std_latch: terminating_steps "\<lambda>s. s = (ps, latch_world_init (sum_list (map downs ps))) \<and> latch_ok ps" "prog_step std_latch_act"
  "std_latch_inv ps" latch_final "\<lambda>s. sum_list (map latch_left (fst s))" for ps
proof unfold_locales
  show "std_latch_inv ps s" if "s = (ps, latch_world_init (sum_list (map downs ps))) \<and> latch_ok ps" for s
    using that by (simp add: std_latch_inv_def latch_ok_def latch_world_init_def)
next
  fix s assume inv: "std_latch_inv ps s" and nf: "\<not> latch_final s"
  obtain ls g where s: "s = (ls, g)" by (cases s)
  have D: "list_all no_down_after_wait ls" "latch_count g = sum_list (map downs ls)" using inv unfolding std_latch_inv_def s by auto
  have "\<exists>i<length ls. std_latch_act i (ls ! i) g \<noteq> None"
  proof (rule ccontr)
    assume no: "\<not> ?thesis"
    have blocked: "ls ! i = [] \<or> (\<exists>p. ls ! i = Latch_wait # p \<and> 0 < latch_count g)" if "i < length ls" for i
    proof -
      have "std_latch_act i (ls ! i) g = None" using no that by blast
      then show ?thesis by (cases "(i, ls ! i, g)" rule: std_latch_act.cases) (auto split: if_splits nat.splits)
    qed
    then have "downs (ls ! i) = 0" if "i < length ls" for i
      using that D(1) by (fastforce simp: downs_def list_all_length filter_empty_conv)
    then have "latch_count g = 0" unfolding D(2) by (auto simp: in_set_conv_nth)
    with blocked nf show False by (auto simp: latch_final_def s list_all_length)
  qed
  then obtain i p' g' where "i < length ls" "std_latch_act i (ls ! i) g = Some (p', g')" by auto
  then have "prog_step std_latch_act s (ls[i := p'], g')" unfolding s by (rule prog_stepI)
  then show "\<exists>t. prog_step std_latch_act s t" by (rule exI)
qed (rule std_latch_inv_step; assumption)+

section \<open>The programs\<close>

lemma latch_program_starts:
  "fst (latch_program n) = [Latch_wait, Say All_workers_finished] # map latch_worker [0..<n]"
  "latch_program n = (fst (latch_program n), latch_world_init (sum_list (map downs (fst (latch_program n)))))" "latch_ok (fst (latch_program n))"
proof -
  show "fst (latch_program n) = [Latch_wait, Say All_workers_finished] # map latch_worker [0..<n]" by (simp add: latch_program_def)
  have "sum_list (map (downs \<circ> latch_worker) [0..<n]) = n" by (simp add: comp_def downs_def latch_worker_def sum_list_triv)
  then show "latch_program n = (fst (latch_program n), latch_world_init (sum_list (map downs (fst (latch_program n)))))"
    by (simp add: latch_program_def downs_def)
  show "latch_ok (fst (latch_program n))"
    by (simp add: latch_program_def latch_ok_def list_all_iff latch_worker_def int_max_def comp_def)
qed

lemma false_sharing_starts:
  assumes "int N \<le> int_max"
  shows "false_sharing_program n N = (fst (false_sharing_program n N), latch_world_init (sum_list (map downs (fst (false_sharing_program n N)))))"
    "latch_ok (fst (false_sharing_program n N))" "sum_list (map (incs v) (fst (false_sharing_program n N))) = (if v < n then N else 0)"
proof -
  have inc: "sum_list (map (incs v \<circ> threadFunc N) [0..<n]) = (if v < n then N else 0)" for v
    by (induction n) (auto simp: comp_def threadFunc_def)
  then show "sum_list (map (incs v) (fst (false_sharing_program n N))) = (if v < n then N else 0)" by (simp add: false_sharing_program_def)
  have "sum_list (map (downs \<circ> threadFunc N) [0..<n]) = n" by (simp add: comp_def downs_def threadFunc_def sum_list_triv)
  then show "false_sharing_program n N = (fst (false_sharing_program n N), latch_world_init (sum_list (map downs (fst (false_sharing_program n N)))))"
    by (simp add: false_sharing_program_def)
  show "latch_ok (fst (false_sharing_program n N))"
    using inc assms by (simp add: false_sharing_program_def latch_ok_def list_all_iff threadFunc_def int_max_def)
qed

text \<open>The threads of \<^verbatim>\<open>latch.cpp\<close>: once \<^verbatim>\<open>main\<close> is past the latch, no worker has anything left to do.\<close>

definition latch_threads :: "nat \<Rightarrow> latch_instr list list \<times> latch_world \<Rightarrow> bool" where
  "latch_threads n s \<longleftrightarrow> (\<exists>m ws g. s = (m # ws, g) \<and> length ws = n \<and> m \<in> {[Latch_wait, Say All_workers_finished], [Say All_workers_finished], []} \<and>
     (\<forall>w<n. ws ! w \<in> {latch_worker w, [Count_down], []}) \<and> (latch_count g = 0 \<or> m = [Latch_wait, Say All_workers_finished]) \<and>
     (\<exists>xs. latch_log g = xs @ (if m = [] then [All_workers_finished] else []) \<and> All_workers_finished \<notin> set xs))"

lemma latch_threads_step:
  assumes inv: "std_latch_inv (fst (latch_program n)) s" and th: "latch_threads n s" and st: "prog_step std_latch_act s t"
  shows "latch_threads n t"
proof -
  from th obtain m ws g xs where s: "s = (m # ws, g)" and ws: "length ws = n" "\<And>w. w < n \<Longrightarrow> ws ! w \<in> {latch_worker w, [Count_down], []}"
    and m: "m \<in> {[Latch_wait, Say All_workers_finished], [Say All_workers_finished], []}" "latch_count g = 0 \<or> m = [Latch_wait, Say All_workers_finished]"
    and xs: "latch_log g = xs @ (if m = [] then [All_workers_finished] else [])" "All_workers_finished \<notin> set xs"
    unfolding latch_threads_def by blast
  from st[unfolded s] obtain i l' g' where i: "i < length (m # ws)" and act: "std_latch_act i ((m # ws) ! i) g = Some (l', g')"
    and t: "t = ((m # ws)[i := l'], g')" by (rule prog_stepE)
  show ?thesis
  proof (cases i)
    case 0
    with act m have "l' = [Say All_workers_finished] \<and> g' = g \<and> latch_count g = 0 \<and> m \<noteq> [] \<or>
        l' = [] \<and> g' = g\<lparr>latch_log := latch_log g @ [All_workers_finished]\<rparr> \<and> latch_count g = 0 \<and> m \<noteq> []" by (auto split: if_splits)
    then show ?thesis unfolding latch_threads_def t using 0 ws xs by auto
  next
    case (Suc w)
    with i ws have w: "w < n" by simp
    have c: "0 < latch_count g"
    proof (rule ccontr)
      assume "\<not> 0 < latch_count g"
      then have "downs (ws ! w) = 0" using inv w ws(1) by (auto simp: std_latch_inv_def s)
      with ws(2)[OF w] have "ws ! w = []" by (auto simp: downs_def latch_worker_def)
      with act Suc show False by simp
    qed
    with m have m': "m = [Latch_wait, Say All_workers_finished]" by simp
    have "l' \<in> {[Count_down], []}" using ws(2)[OF w] act Suc by (auto simp: latch_worker_def)
    then have "(ws[w := l']) ! u \<in> {latch_worker u, [Count_down], []}" if "u < n" for u
      using ws(2)[OF that] ws(1) that by (cases "u = w") auto
    moreover have "\<exists>ys. latch_log g' = ys \<and> All_workers_finished \<notin> set ys"
      using act Suc ws(2)[OF w] xs m' by (auto simp: latch_worker_def split: if_splits)
    ultimately show ?thesis unfolding latch_threads_def t Suc using ws(1) m' by simp
  qed
qed

interpretation latch_main: step_invariant "\<lambda>s. s = latch_program n" "prog_step std_latch_act"
  "\<lambda>s. std_latch_inv (fst (latch_program n)) s \<and> latch_threads n s" for n
proof unfold_locales
  show "std_latch_inv (fst (latch_program n)) s \<and> latch_threads n s" if "s = latch_program n" for s
    using std_latch.inv_init[of s "fst (latch_program n)"] latch_program_starts that
    by (auto simp: latch_threads_def latch_program_def latch_world_init_def)
qed (use std_latch_inv_step(1) latch_threads_step in blast)

text \<open>
  \<^verbatim>\<open>latch.cpp\<close>, for any number of workers and every scheduling: every run ends, a state without a next action is the one in which all threads are through, and then
  every worker's line has been printed exactly once, and after all of them that of \<^verbatim>\<open>main\<close>.
\<close>

lemma latch_program_prints:
  assumes "(prog_step std_latch_act)\<^sup>*\<^sup>* (latch_program n) s"
  shows "(stuck (prog_step std_latch_act) s \<longrightarrow> latch_final s) \<and>
    (latch_final s \<longrightarrow> (\<exists>xs. latch_log (snd s) = xs @ [All_workers_finished] \<and> mset xs = mset (map (\<lambda>w. Worker_finished (w + 1)) [0..<n]))) \<and>
    ((prog_step std_latch_act ^^ k) (latch_program n) s \<longrightarrow> k \<le> 2 * n + 2)"
proof -
  have init: "latch_program n = (fst (latch_program n), latch_world_init (sum_list (map downs (fst (latch_program n))))) \<and> latch_ok (fst (latch_program n))"
    using latch_program_starts by blast
  have inv: "std_latch_inv (fst (latch_program n)) s" "latch_threads n s" using latch_main.inv_reachable[OF refl assms] by auto
  have stuck: "stuck (prog_step std_latch_act) s \<Longrightarrow> latch_final s" by (rule std_latch.stuck_final[OF init assms])
  have "sum_list (map (latch_left \<circ> latch_worker) [0..<n]) = 2 * n" by (simp add: comp_def latch_worker_def sum_list_triv)
  then have bound: "(prog_step std_latch_act ^^ k) (latch_program n) s \<Longrightarrow> k \<le> 2 * n + 2"
    using std_latch.run_bounded[OF std_latch.inv_init[OF init], of k s] by (simp add: latch_program_starts(1))
  have says: "sum_list (map (says \<circ> latch_worker) [0..<n]) = mset (map (\<lambda>w. Worker_finished (w + 1)) [0..<n])"
    by (induction n) (auto simp: latch_worker_def)
  have "\<exists>xs. latch_log (snd s) = xs @ [All_workers_finished] \<and> mset xs = mset (map (\<lambda>w. Worker_finished (w + 1)) [0..<n])" if f: "latch_final s"
  proof -
    from inv(2) f obtain xs where xs: "latch_log (snd s) = xs @ [All_workers_finished]" by (auto simp: latch_threads_def latch_final_def)
    have "map says (fst s) = replicate (length (fst s)) {#}"
      by (rule nth_equalityI) (use f in \<open>simp_all add: latch_final_def list_all_length\<close>)
    then have "mset (latch_log (snd s)) = sum_list (map says (fst (latch_program n)))" using inv(1) by (simp add: std_latch_inv_def)
    with xs says have "mset xs = mset (map (\<lambda>w. Worker_finished (w + 1)) [0..<n])" by (simp add: latch_program_starts(1))
    with xs show ?thesis by blast
  qed
  with stuck bound show ?thesis by blast
qed

lemma latch_program_prints_witness:
  "\<exists>s xs. (prog_step std_latch_act)\<^sup>*\<^sup>* (latch_program 3) s \<and> latch_log (snd s) = xs @ [All_workers_finished]"
proof -
  have "map_option latch_final (run_schedule std_latch_act [2, 1, 3, 3, 2, 1, 0, 0] (latch_program 3)) = Some True" by code_simp
  then obtain s where s: "run_schedule std_latch_act [2, 1, 3, 3, 2, 1, 0, 0] (latch_program 3) = Some s" "latch_final s" by auto
  note r = run_schedule_reachable[OF s(1)]
  from latch_program_prints[OF r] s(2) r show ?thesis by blast
qed

text \<open>The threads of \<^verbatim>\<open>false_sharing.cpp\<close>: nobody is past the latch before all have arrived.\<close>

definition sharing_threads :: "nat \<Rightarrow> latch_instr list list \<times> latch_world \<Rightarrow> bool" where
  "sharing_threads N s \<longleftrightarrow> latch_count (snd s) = 0 \<or>
     (\<forall>w<length (fst s). fst s ! w \<in> {threadFunc N w, tl (threadFunc N w)}) \<and> (\<forall>v. members (snd s) v = 0)"

lemma sharing_threads_step:
  assumes th: "sharing_threads N s" and st: "prog_step std_latch_act s t"
  shows "sharing_threads N t"
proof -
  obtain ls g where s: "s = (ls, g)" by (cases s)
  from st[unfolded s] obtain i l' g' where i: "i < length ls" and act: "std_latch_act i (ls ! i) g = Some (l', g')"
    and t: "t = (ls[i := l'], g')" by (rule prog_stepE)
  show ?thesis
  proof (cases "latch_count g = 0")
    case True
    with act have "latch_count g' = 0" by (cases "(i, ls ! i, g)" rule: std_latch_act.cases) (auto split: if_splits nat.splits)
    then show ?thesis by (simp add: sharing_threads_def t)
  next
    case False
    with th have all: "\<And>w. w < length ls \<Longrightarrow> ls ! w \<in> {threadFunc N w, tl (threadFunc N w)}" and z: "\<forall>v. members g v = 0"
      by (auto simp: sharing_threads_def s)
    have l': "l' = tl (threadFunc N i)" "members g' = members g" using all[OF i] act False by (auto simp: threadFunc_def)
    then have "ls[i := l'] ! w \<in> {threadFunc N w, tl (threadFunc N w)}" if "w < length ls" for w
      using all[OF that] that by (cases "w = i") auto
    then show ?thesis using z l'(2) by (simp add: sharing_threads_def t)
  qed
qed

interpretation sharing: step_invariant "\<lambda>s. s = false_sharing_program n N \<and> int N \<le> int_max" "prog_step std_latch_act"
  "\<lambda>s. std_latch_inv (fst (false_sharing_program n N)) s \<and> sharing_threads N s" for n N
proof unfold_locales
  show "std_latch_inv (fst (false_sharing_program n N)) s \<and> sharing_threads N s" if "s = false_sharing_program n N \<and> int N \<le> int_max" for s
    using std_latch.inv_init[of s "fst (false_sharing_program n N)"] false_sharing_starts[of N n] that
    by (auto simp: sharing_threads_def false_sharing_program_def latch_world_init_def)
qed (use std_latch_inv_step(1) sharing_threads_step in blast)

text \<open>
  C32. \<^verbatim>\<open>false_sharing.cpp\<close>, for any number of threads and any number \<open>N\<close> of increments that an \<^verbatim>\<open>int\<close> can hold, in particular for the three threads and 500000000 increments of the code: at any
  time the members lie between 0 and \<open>N\<close>, no \<^verbatim>\<open>int\<close> overflows and the latch is not counted down too often; no thread increments before all have
  arrived; every run ends, and then each member is exactly \<open>N\<close>.
\<close>

theorem false_sharing_counts:
  assumes "int N \<le> int_max" "(prog_step std_latch_act)\<^sup>*\<^sup>* (false_sharing_program n N) s"
  shows "(\<not> latch_ub (snd s) \<and> members (snd s) v \<in> {0..int N}) \<and> (members (snd s) v \<noteq> 0 \<longrightarrow> latch_count (snd s) = 0) \<and>
    (stuck (prog_step std_latch_act) s \<longrightarrow> latch_final s) \<and> (latch_final s \<and> v < n \<longrightarrow> members (snd s) v = int N) \<and>
    ((prog_step std_latch_act ^^ k) (false_sharing_program n N) s \<longrightarrow> k \<le> n * (N + 3))"
proof -
  let ?ps = "fst (false_sharing_program n N)"
  have init: "false_sharing_program n N = (?ps, latch_world_init (sum_list (map downs ?ps))) \<and> latch_ok ?ps"
    using false_sharing_starts[OF assms(1)] by blast
  have inv: "std_latch_inv ?ps s" "sharing_threads N s" using sharing.inv_reachable[of _ n N s] assms by auto
  note inc = false_sharing_starts(3)[OF assms(1), of _ n]
  have mem: "members (snd s) v + int (sum_list (map (incs v) (fst s))) = int (if v < n then N else 0)" for v
    using inv(1) inc[of v] by (simp add: std_latch_inv_def)
  have nn: "0 \<le> members (snd s) v" and ub: "\<not> latch_ub (snd s)" for v using inv(1) by (auto simp: std_latch_inv_def)
  have "int (if v < n then N else 0) \<le> int N" by simp
  then have range: "\<not> latch_ub (snd s) \<and> members (snd s) v \<in> {0..int N}" using mem[of v] nn[of v] ub
    by (metis add_increasing2 atLeastAtMost_iff le_add_same_cancel1 of_nat_0_le_iff order_trans)
  have arrived: "members (snd s) v \<noteq> 0 \<Longrightarrow> latch_count (snd s) = 0" using inv(2) by (auto simp: sharing_threads_def)
  have total: "members (snd s) v = int N" if f: "latch_final s" and v: "v < n"
  proof -
    have "map (incs v) (fst s) = replicate (length (fst s)) 0"
      by (rule nth_equalityI) (use f in \<open>simp_all add: latch_final_def list_all_length\<close>)
    with mem[of v] v show ?thesis by simp
  qed
  have "sum_list (map (latch_left \<circ> threadFunc N) [0..<n]) = n * (N + 3)" by (simp add: comp_def threadFunc_def sum_list_triv algebra_simps)
  then have "(prog_step std_latch_act ^^ k) (false_sharing_program n N) s \<Longrightarrow> k \<le> n * (N + 3)"
    using std_latch.run_bounded[OF std_latch.inv_init[OF init], of k s] by (simp add: false_sharing_program_def)
  with range arrived total std_latch.stuck_final[OF init assms(2)] show ?thesis by blast
qed

theorem false_sharing_counts_witness:
  "\<exists>s. (prog_step std_latch_act)\<^sup>*\<^sup>* (false_sharing_program 3 500000000) s \<and> latch_final s \<and> members (snd s) 2 = 500000000"
proof -
  have N: "int 500000000 \<le> int_max" by (simp add: int_max_def)
  have init: "false_sharing_program 3 500000000 = (fst (false_sharing_program 3 500000000),
      latch_world_init (sum_list (map downs (fst (false_sharing_program 3 500000000))))) \<and> latch_ok (fst (false_sharing_program 3 500000000))"
    using false_sharing_starts[OF N] by blast
  from std_latch.reaches_final[OF init rtranclp.rtrancl_refl] obtain s where
    s: "(prog_step std_latch_act)\<^sup>*\<^sup>* (false_sharing_program 3 500000000) s" "latch_final s" by blast
  have "members (snd s) 2 = 500000000" using false_sharing_counts[OF N s(1), of 2] s(2) by simp
  with s show ?thesis by blast
qed

end
