(* ===== verification/Task_Worker.thy ===== *)
theory Task_Worker
  imports Prelude "HOL-Library.Sublist"
begin

text \<open>
  \<^verbatim>\<open>synchronization_primitives/condition_variable/condition_variable_any.cpp\<close>: a worker thread that waits on a condition variable for tasks, and a \<^verbatim>\<open>main\<close> that
  adds some tasks and destroys the worker. The lemmas show that tasks are executed once and in order, also with spurious wake-ups, and that the
  destructor can wait for ever: it requests a stop, but nothing wakes a worker that waits for a task.
\<close>

section \<open>The worker and its owner\<close>

datatype worker_user = By_main | By_worker

record worker_state =
  w_mtx :: "worker_user option"
  w_tasks :: "int list"             \<comment> \<open>\<^verbatim>\<open>m_tasks\<close>\<close>
  w_asleep :: bool                  \<comment> \<open>the worker waits on \<^verbatim>\<open>m_newTaskAdded\<close> and was not notified\<close>
  w_stop :: bool                    \<comment> \<open>stop was requested\<close>
  w_ended :: bool
  w_executed :: "int list"          \<comment> \<open>the lines \<^verbatim>\<open>Executing task #{}\<close>\<close>

text \<open>\<open>main\<close>, with the tasks that are still to be added.\<close>

datatype owner_pc =
    O_Lock "int list"               \<comment> \<open>\<^verbatim>\<open>AddTask\<close>: \<^verbatim>\<open>std::lock_guard guard{m_mtx}\<close>\<close>
  | O_Push "int list"
  | O_Unlock "int list"
  | O_Notify "int list"             \<comment> \<open>\<^verbatim>\<open>m_newTaskAdded.notify_one()\<close>\<close>
  | O_Stop                          \<comment> \<open>\<^verbatim>\<open>~jthread\<close>: \<^verbatim>\<open>request_stop()\<close>\<close>
  | O_Join
  | O_Done

datatype worker_pc =
    K_Stopped                       \<comment> \<open>\<^verbatim>\<open>!stopToken.stop_requested()\<close>\<close>
  | K_Acquire                       \<comment> \<open>\<^verbatim>\<open>std::unique_lock lock{m_mtx}\<close>\<close>
  | K_Test                          \<comment> \<open>\<^verbatim>\<open>!m_tasks.empty()\<close> in \<^verbatim>\<open>wait\<close>\<close>
  | K_Waiting                       \<comment> \<open>asleep in \<^verbatim>\<open>wait\<close>\<close>
  | K_Reacquire
  | K_Swap                          \<comment> \<open>\<^verbatim>\<open>std::swap(m_tasks, tasks)\<close>\<close>
  | K_Release "int list"
  | K_Execute "int list"
  | K_Ended

fun owner_act :: "owner_pc \<Rightarrow> worker_state \<Rightarrow> (owner_pc \<times> worker_state) option" where
  "owner_act (O_Lock ts) g =
     (case ts of [] \<Rightarrow> Some (O_Stop, g)
      | _ # _ \<Rightarrow> if w_mtx g = None then Some (O_Push ts, g\<lparr>w_mtx := Some By_main\<rparr>) else None)"
| "owner_act (O_Push ts) g =
     (case ts of [] \<Rightarrow> None | t # ts' \<Rightarrow> Some (O_Unlock ts', g\<lparr>w_tasks := w_tasks g @ [t]\<rparr>))"
| "owner_act (O_Unlock ts) g = Some (O_Notify ts, g\<lparr>w_mtx := None\<rparr>)"
| "owner_act (O_Notify ts) g = Some (O_Lock ts, g\<lparr>w_asleep := False\<rparr>)"
| "owner_act O_Stop g = Some (O_Join, g\<lparr>w_stop := True\<rparr>)"
| "owner_act O_Join g = (if w_ended g then Some (O_Done, g) else None)"
| "owner_act O_Done g = None"

text \<open>\<open>spurious\<close>: the wait returns although nobody has notified.\<close>

fun task_worker_act :: "bool \<Rightarrow> worker_pc \<Rightarrow> worker_state \<Rightarrow> (worker_pc \<times> worker_state) option" where
  "task_worker_act spurious K_Stopped g = Some (if w_stop g then (K_Ended, g\<lparr>w_ended := True\<rparr>) else (K_Acquire, g))"
| "task_worker_act spurious K_Acquire g =
     (if w_mtx g = None then Some (K_Test, g\<lparr>w_mtx := Some By_worker\<rparr>) else None)"
| "task_worker_act spurious K_Test g =
     Some (if w_tasks g = [] then (K_Waiting, g\<lparr>w_mtx := None, w_asleep := True\<rparr>) else (K_Swap, g))"
| "task_worker_act spurious K_Waiting g =
     (if w_asleep g \<and> \<not> spurious then None else Some (K_Reacquire, g\<lparr>w_asleep := False\<rparr>))"
| "task_worker_act spurious K_Reacquire g =
     (if w_mtx g = None then Some (K_Test, g\<lparr>w_mtx := Some By_worker\<rparr>) else None)"
| "task_worker_act spurious K_Swap g = Some (K_Release (w_tasks g), g\<lparr>w_tasks := []\<rparr>)"
| "task_worker_act spurious (K_Release ts) g = Some (K_Execute ts, g\<lparr>w_mtx := None\<rparr>)"
| "task_worker_act spurious (K_Execute ts) g =
     (case ts of [] \<Rightarrow> Some (K_Stopped, g) | t # ts' \<Rightarrow> Some (K_Execute ts', g\<lparr>w_executed := w_executed g @ [t]\<rparr>))"
| "task_worker_act spurious K_Ended g = None"

definition worker_start :: "int list \<Rightarrow> owner_pc \<times> worker_pc \<times> worker_state" where
  "worker_start ts = (O_Lock ts, K_Stopped,
     \<lparr>w_mtx = None, w_tasks = [], w_asleep = False, w_stop = False, w_ended = False, w_executed = []\<rparr>)"

definition worker_main :: "owner_pc \<times> worker_pc \<times> worker_state" where
  "worker_main = worker_start [10, 4, 5]"

text \<open>The steps with spurious wake-ups, and without.\<close>

definition worker_step_spurious :: "owner_pc \<times> worker_pc \<times> worker_state \<Rightarrow> owner_pc \<times> worker_pc \<times> worker_state \<Rightarrow> bool" where
  "worker_step_spurious = pair_step (\<lambda>_ :: bool. owner_act) task_worker_act"

definition worker_step :: "owner_pc \<times> worker_pc \<times> worker_state \<Rightarrow> owner_pc \<times> worker_pc \<times> worker_state \<Rightarrow> bool" where
  "worker_step = pair_step (\<lambda>_ :: unit. owner_act) (\<lambda>_ :: unit. task_worker_act False)"

section \<open>The invariant\<close>

definition to_add :: "owner_pc \<Rightarrow> int list" where
  "to_add p = (case p of O_Lock ts \<Rightarrow> ts | O_Push ts \<Rightarrow> ts | O_Unlock ts \<Rightarrow> ts | O_Notify ts \<Rightarrow> ts | _ \<Rightarrow> [])"

definition to_execute :: "worker_pc \<Rightarrow> int list" where
  "to_execute c = (case c of K_Release ts \<Rightarrow> ts | K_Execute ts \<Rightarrow> ts | _ \<Rightarrow> [])"

definition owner_has :: "owner_pc \<Rightarrow> bool" where
  "owner_has p = (case p of O_Push _ \<Rightarrow> True | O_Unlock _ \<Rightarrow> True | _ \<Rightarrow> False)"

definition worker_has :: "worker_pc \<Rightarrow> bool" where
  "worker_has c = (case c of K_Test \<Rightarrow> True | K_Swap \<Rightarrow> True | K_Release _ \<Rightarrow> True | _ \<Rightarrow> False)"

definition about_to_notify :: "owner_pc \<Rightarrow> bool" where
  "about_to_notify p = (case p of O_Unlock _ \<Rightarrow> True | O_Notify _ \<Rightarrow> True | _ \<Rightarrow> False)"

text \<open>The tasks are executed, taken, waiting or still to be added, in their order; the mutex; who sleeps and who will be woken.\<close>

definition worker_order :: "int list \<Rightarrow> owner_pc \<Rightarrow> worker_pc \<Rightarrow> worker_state \<Rightarrow> bool" where
  "worker_order ts p c g \<longleftrightarrow> ts = w_executed g @ to_execute c @ w_tasks g @ to_add p"

definition worker_mutex :: "owner_pc \<Rightarrow> worker_pc \<Rightarrow> worker_state \<Rightarrow> bool" where
  "worker_mutex p c g \<longleftrightarrow> (owner_has p \<longleftrightarrow> w_mtx g = Some By_main) \<and> (worker_has c \<longleftrightarrow> w_mtx g = Some By_worker)"

definition worker_sleep :: "owner_pc \<Rightarrow> worker_pc \<Rightarrow> worker_state \<Rightarrow> bool" where
  "worker_sleep p c g \<longleftrightarrow> (w_asleep g \<longrightarrow> c = K_Waiting) \<and> (w_asleep g \<and> w_tasks g \<noteq> [] \<longrightarrow> about_to_notify p) \<and>
     (c = K_Swap \<longrightarrow> w_tasks g \<noteq> []) \<and> p \<noteq> O_Push []"

definition worker_end :: "owner_pc \<Rightarrow> worker_pc \<Rightarrow> worker_state \<Rightarrow> bool" where
  "worker_end p c g \<longleftrightarrow> (w_stop g \<longleftrightarrow> p = O_Join \<or> p = O_Done) \<and> (w_ended g \<longleftrightarrow> c = K_Ended) \<and> (p = O_Done \<longrightarrow> w_ended g)"

fun worker_inv :: "int list \<Rightarrow> owner_pc \<times> worker_pc \<times> worker_state \<Rightarrow> bool" where
  "worker_inv ts (p, c, g) \<longleftrightarrow> worker_order ts p c g \<and> worker_mutex p c g \<and> worker_sleep p c g \<and> worker_end p c g"

lemmas worker_defs = worker_order_def worker_mutex_def worker_sleep_def worker_end_def to_add_def to_execute_def owner_has_def worker_has_def
  about_to_notify_def

lemma owner_inv_step:
  assumes "worker_inv ts (p, c, g)" "owner_act p g = Some (p', g')"
  shows "worker_inv ts (p', c, g')"
proof -
  have "worker_order ts p' c g'" using assms
    by (cases p) (auto simp: worker_order_def to_add_def split: if_splits list.splits)
  moreover have "worker_mutex p' c g'" using assms
    by (cases p) (auto simp: worker_mutex_def owner_has_def split: if_splits list.splits)
  moreover have "worker_sleep p' c g'" using assms
    by (cases p) (auto simp: worker_sleep_def about_to_notify_def split: if_splits list.splits)
  moreover have "worker_end p' c g'" using assms
    by (cases p) (auto simp: worker_end_def split: if_splits list.splits)
  ultimately show ?thesis by simp
qed

lemma worker_inv_step:
  assumes "worker_inv ts (p, c, g)" "task_worker_act sp c g = Some (c', g')"
  shows "worker_inv ts (p, c', g')"
proof -
  have "worker_order ts p c' g'" using assms
    by (cases c) (auto simp: worker_order_def to_execute_def split: if_splits list.splits)
  moreover have "worker_mutex p c' g'" using assms
    by (cases c) (auto simp: worker_mutex_def worker_has_def split: if_splits list.splits)
  moreover have "worker_sleep p c' g'" using assms
    by (cases c) (auto simp: worker_sleep_def split: if_splits list.splits)
  moreover have "worker_end p c' g'" using assms
    by (cases c) (auto simp: worker_end_def split: if_splits list.splits)
  ultimately show ?thesis by simp
qed

lemma worker_inv_start: "worker_inv ts (worker_start ts)"
  by (simp add: worker_start_def worker_defs)

interpretation worker_spurious: step_invariant "\<lambda>s. s = worker_start ts" worker_step_spurious "worker_inv ts" for ts
proof unfold_locales
  fix s t assume inv: "worker_inv ts s" and st: "worker_step_spurious s t"
  obtain p c g where s: "s = (p, c, g)" by (cases s)
  from st[unfolded worker_step_spurious_def s] show "worker_inv ts t"
    by (rule pair_step_keeps) (rule owner_inv_step[OF inv[unfolded s]] worker_inv_step[OF inv[unfolded s]]; assumption)+
qed (simp add: worker_inv_start)

section \<open>Termination\<close>

definition owner_left :: "owner_pc \<Rightarrow> nat" where
  "owner_left p = (case p of O_Lock ts \<Rightarrow> 80 * length ts + 60 | O_Push ts \<Rightarrow> 80 * length ts + 40 | O_Unlock ts \<Rightarrow> 80 * length ts + 100
     | O_Notify ts \<Rightarrow> 80 * length ts + 80 | O_Stop \<Rightarrow> 40 | O_Join \<Rightarrow> 20 | O_Done \<Rightarrow> 0)"

definition task_worker_left :: "bool \<Rightarrow> worker_pc \<Rightarrow> nat" where
  "task_worker_left asleep c = (case c of K_Stopped \<Rightarrow> 6 | K_Acquire \<Rightarrow> 5 | K_Test \<Rightarrow> 4 | K_Waiting \<Rightarrow> if asleep then 0 else 6 | K_Reacquire \<Rightarrow> 5
     | K_Swap \<Rightarrow> 3 | K_Release ts \<Rightarrow> length ts + 8 | K_Execute ts \<Rightarrow> length ts + 7 | K_Ended \<Rightarrow> 0)"

fun worker_rank :: "owner_pc \<times> worker_pc \<times> worker_state \<Rightarrow> nat" where
  "worker_rank (p, c, g) = owner_left p + 10 * length (w_tasks g) + task_worker_left (w_asleep g) c"

lemma owner_rank:
  assumes "worker_inv ts (p, c, g)" "owner_act p g = Some (p', g')"
  shows "worker_rank (p', c, g') < worker_rank (p, c, g)"
proof -
  have "task_worker_left b c \<le> task_worker_left b' c + 6" for b b' by (cases c) (auto simp: task_worker_left_def)
  from this[of "w_asleep g'" "w_asleep g"] show ?thesis
    using assms(2) by (cases p) (auto simp: owner_left_def split: if_splits list.splits)
qed

lemma task_worker_rank:
  assumes "worker_inv ts (p, c, g)" "task_worker_act False c g = Some (c', g')"
  shows "worker_rank (p, c', g') < worker_rank (p, c, g)"
proof -
  have "\<exists>x xs. w_tasks g = x # xs" if "c = K_Swap" using assms(1) that by (cases "w_tasks g") (auto simp: worker_sleep_def)
  then show ?thesis using assms(2) by (cases c) (auto simp: task_worker_left_def split: if_splits list.splits)
qed

text \<open>The program has ended, or the owner waits for a worker that nobody will wake.\<close>

fun worker_over :: "owner_pc \<times> worker_pc \<times> worker_state \<Rightarrow> bool" where
  "worker_over (p, c, g) \<longleftrightarrow> p = O_Done \<and> c = K_Ended \<or> p = O_Join \<and> c = K_Waiting \<and> w_asleep g \<and> w_tasks g = []"

lemma worker_user_free: "m \<noteq> Some By_main \<Longrightarrow> m \<noteq> Some By_worker \<Longrightarrow> m = None"
  by (cases m; cases "the m") auto

lemma worker_mutex_free: "worker_mutex p c g \<Longrightarrow> \<not> owner_has p \<Longrightarrow> \<not> worker_has c \<Longrightarrow> w_mtx g = None"
  by (rule worker_user_free) (auto simp: worker_mutex_def)

lemma worker_has_moves: "worker_has c \<Longrightarrow> task_worker_act sp c g \<noteq> None"
  by (cases c) (auto simp: worker_has_def)

lemma worker_free_moves:
  "\<not> worker_has c \<Longrightarrow> w_mtx g = None \<Longrightarrow> c \<noteq> K_Ended \<Longrightarrow> \<not> (c = K_Waiting \<and> w_asleep g) \<Longrightarrow> task_worker_act sp c g \<noteq> None"
  by (cases c) (auto simp: worker_has_def split: list.splits)

lemma worker_progress:
  assumes "worker_inv ts (p, c, g)" "\<not> worker_over (p, c, g)"
  shows "owner_act p g \<noteq> None \<or> task_worker_act False c g \<noteq> None"
proof (rule disjCI)
  assume n: "\<not> task_worker_act False c g \<noteq> None"
  have mx: "worker_mutex p c g" and sl: "worker_sleep p c g" and en: "worker_end p c g" using assms(1) by simp_all
  from n have nw: "\<not> worker_has c" using worker_has_moves by blast
  show "owner_act p g \<noteq> None"
  proof (cases p)
    case (O_Lock us)
    then have "w_mtx g = None" using worker_mutex_free[OF mx _ nw] by (simp add: owner_has_def)
    then show ?thesis using O_Lock by (cases us) auto
  next
    case (O_Push us)
    then show ?thesis using sl by (cases us) (auto simp: worker_sleep_def)
  next
    case O_Join
    then have "w_mtx g = None" using worker_mutex_free[OF mx _ nw] by (simp add: owner_has_def)
    then have "c = K_Ended \<or> c = K_Waiting \<and> w_asleep g" using worker_free_moves[OF nw] n by blast
    then show ?thesis using O_Join assms(2) sl en by (auto simp: worker_sleep_def about_to_notify_def worker_end_def)
  next
    case O_Done
    then show ?thesis using assms(2) en by (auto simp: worker_end_def)
  qed auto
qed

interpretation worker: terminating_steps "\<lambda>s. s = worker_start ts" worker_step "worker_inv ts" worker_over worker_rank for ts
proof unfold_locales
  fix s t assume inv: "worker_inv ts s" and st: "worker_step s t"
  obtain p c g where s: "s = (p, c, g)" by (cases s)
  from st[unfolded worker_step_def s] show "worker_inv ts t"
    by (rule pair_step_keeps) (rule owner_inv_step[OF inv[unfolded s]] worker_inv_step[OF inv[unfolded s]]; assumption)+
  from st[unfolded worker_step_def s] show "worker_rank t < worker_rank s" unfolding s
    by (rule pair_step_keeps) (rule owner_rank[OF inv[unfolded s]] task_worker_rank[OF inv[unfolded s]]; assumption)+
next
  fix s assume inv: "worker_inv ts s" and nf: "\<not> worker_over s"
  obtain p c g where s: "s = (p, c, g)" by (cases s)
  from worker_progress[OF inv[unfolded s] nf[unfolded s]] show "\<exists>t. worker_step s t" unfolding s worker_step_def
    by (auto intro: pair_parent pair_child)
qed (simp add: worker_inv_start)

section \<open>What the program does\<close>

text \<open>
  C18. The worker with any list of tasks. Also with spurious wake-ups the tasks executed so far are always a beginning of the tasks added, in their order and each
  once, and the mutex is never held by both threads. Without
  spurious wake-ups no run is longer than the measure of its start, and it ends in one of two ways: either both threads are through, possibly with
  tasks left that will not be executed, or all tasks have been executed and \<^verbatim>\<open>main\<close> waits for ever, in the destructor,
  for a worker that is asleep on the condition variable.
\<close>

theorem worker_tasks_in_order:
  shows "(worker_step_spurious\<^sup>*\<^sup>* (worker_start ts) (p, c, g) \<longrightarrow> prefix (w_executed g) ts \<and> \<not> (owner_has p \<and> worker_has c)) \<and>
    (worker_step\<^sup>*\<^sup>* (worker_start ts) (p, c, g) \<and> stuck worker_step (p, c, g) \<longrightarrow>
      p = O_Done \<and> c = K_Ended \<or> p = O_Join \<and> c = K_Waiting \<and> w_executed g = ts) \<and>
    ((worker_step ^^ n) (worker_start ts) t \<longrightarrow> n \<le> 80 * length ts + 66)"
proof (intro conjI impI)
  assume "worker_step_spurious\<^sup>*\<^sup>* (worker_start ts) (p, c, g)"
  then have inv: "worker_inv ts (p, c, g)" by (rule worker_spurious.inv_reachable[OF refl])
  then show "prefix (w_executed g) ts" by (simp add: worker_order_def)
  show "\<not> (owner_has p \<and> worker_has c)" using inv by (auto simp: worker_mutex_def)
next
  assume r: "worker_step\<^sup>*\<^sup>* (worker_start ts) (p, c, g) \<and> stuck worker_step (p, c, g)"
  then have "worker_inv ts (p, c, g)" and "worker_over (p, c, g)"
    using worker.inv_reachable[OF refl] worker.stuck_final[OF refl] by blast+
  then show "p = O_Done \<and> c = K_Ended \<or> p = O_Join \<and> c = K_Waiting \<and> w_executed g = ts"
    by (auto simp: worker_order_def to_add_def to_execute_def)
next
  assume "(worker_step ^^ n) (worker_start ts) t"
  from worker.run_bounded[OF worker_inv_start this] show "n \<le> 80 * length ts + 66"
    by (simp add: worker_start_def owner_left_def task_worker_left_def)
qed

text \<open>The program as it is: the worker is faster than \<^verbatim>\<open>main\<close>, which sleeps between its calls.\<close>

definition fast_worker :: "(bool \<times> unit) list" where
  "fast_worker = map (\<lambda>b. (b, ())) (replicate 3 False @ replicate 4 True @ replicate 10 False @ replicate 8 True @ replicate 11 False @ [True, True])"

theorem worker_tasks_in_order_witness:
  "\<exists>g. worker_step\<^sup>*\<^sup>* worker_main (O_Join, K_Waiting, g) \<and> stuck worker_step (O_Join, K_Waiting, g) \<and> w_executed g = [10, 4, 5]"
proof -
  have "map_option (\<lambda>(p, c, g). (p, c, w_asleep g, w_ended g)) (run_pair (\<lambda>_ :: unit. owner_act) (\<lambda>_ :: unit. task_worker_act False) fast_worker worker_main)
    = Some (O_Join, K_Waiting, True, False)" by code_simp
  then obtain g where g: "run_pair (\<lambda>_ :: unit. owner_act) (\<lambda>_ :: unit. task_worker_act False) fast_worker worker_main = Some (O_Join, K_Waiting, g)"
    "w_asleep g" "\<not> w_ended g" by auto
  have r: "worker_step\<^sup>*\<^sup>* worker_main (O_Join, K_Waiting, g)" unfolding worker_step_def by (rule run_pair_reachable[OF g(1)])
  have st: "stuck worker_step (O_Join, K_Waiting, g)" using g by (simp add: worker_step_def stuck_pair_step)
  with r worker_tasks_in_order[of "[10, 4, 5]" O_Join K_Waiting g] show ?thesis unfolding worker_main_def by blast
qed

end
