(* ===== verification/Processes.thy ===== *)
theory Processes
  imports Prelude
begin

text \<open>
  The programs of \<^verbatim>\<open>processes_and_threads/fork\<close> and the error check of \<^verbatim>\<open>include/utils/error.hpp\<close>, and a small language for them and for the programs of
  \<^verbatim>\<open>Threads_Intro\<close> and \<^verbatim>\<open>Signals_Sema\<close>: processes and threads that are straight-line scripts of actions on a common state and run in any interleaving. The lemmas
  give all outputs the programs can have, found by exploring every schedule.
\<close>

section \<open>The error check\<close>

record source_location =
  function_name :: string
  file_name :: string
  loc_line :: nat

definition LogSystemError :: "(nat \<Rightarrow> string) \<Rightarrow> nat \<Rightarrow> source_location \<Rightarrow> string list" where
  "LogSystemError strerror errno loc =
     [''Error in '' @ function_name loc,
      ''  File: '' @ file_name loc @ '':'' @ decimal (loc_line loc),
      ''  Reason: '' @ strerror errno @ '' (errno: '' @ decimal errno @ '')'']"

text \<open>\<open>Inl\<close>: the lines on the standard error and the exit status.\<close>

definition CHECK_ERROR :: "(nat \<Rightarrow> string) \<Rightarrow> nat \<Rightarrow> source_location \<Rightarrow> int \<Rightarrow> (string list \<times> nat) + unit" where
  "CHECK_ERROR strerror errno loc res = (if res = -1 then Inl (LogSystemError strerror errno loc, 1) else Inr ())"

section \<open>Scripts\<close>

datatype 'g effect = Blocked | Go_on 'g | Exits nat 'g | Undefined 'g

type_synonym 'g script = "('g \<Rightarrow> 'g effect) list"

text \<open>An action that exits ends its script; \<open>on_exit\<close> records the exit status of script \<open>i\<close>. After undefined behaviour the script is not followed further.\<close>

definition script_act :: "(nat \<Rightarrow> nat \<Rightarrow> 'g \<Rightarrow> 'g) \<Rightarrow> nat \<Rightarrow> 'g script \<Rightarrow> 'g \<Rightarrow> ('g script \<times> 'g) option" where
  "script_act on_exit i l g = (case l of [] \<Rightarrow> None
     | a # l' \<Rightarrow> (case a g of Blocked \<Rightarrow> None | Go_on g' \<Rightarrow> Some (l', g') | Exits st g' \<Rightarrow> Some ([], on_exit i st g')
       | Undefined g' \<Rightarrow> Some ([], g')))"

section \<open>fork\<close>

datatype fork_line =
    Fork_return_value int                 \<comment> \<open>\<^verbatim>\<open>Fork return value is {}\<close>\<close>
  | Child_pid_is int                      \<comment> \<open>\<^verbatim>\<open>Child pid is {}\<close>\<close>
  | Wait_return_value int nat             \<comment> \<open>\<^verbatim>\<open>wait return value: {}, child's exit status: {}\<close>\<close>
  | Addresses bool nat nat                \<comment> \<open>\<^verbatim>\<open>[PARENT]: stackVar address: {}, heapVar address: {}\<close>, or with \<^verbatim>\<open>[CHILD]\<close>\<close>
  | Values bool int int                   \<comment> \<open>\<^verbatim>\<open>[PARENT]: stackVar value: {}, heapVar value: {}\<close>\<close>

text \<open>
  The two processes after \<^verbatim>\<open>fork\<close>. The variables of each are its own; the open file description, with its position, is
  shared.
\<close>

record fork_state =
  fork_out :: "fork_line list"
  statuses :: "nat \<Rightarrow> nat option"         \<comment> \<open>exit status of the parent (0) and of the child (1)\<close>
  childStatus :: nat
  exitedProcessPid :: int
  stackVar :: "nat \<Rightarrow> int"
  heapVar :: "nat \<Rightarrow> int"
  file_content :: string
  file_pos :: nat
  fd_open :: "nat \<Rightarrow> bool"

definition record_exit :: "nat \<Rightarrow> nat \<Rightarrow> fork_state \<Rightarrow> fork_state" where
  "record_exit i st g = g\<lparr>statuses := (statuses g)(i := Some (st mod 256)), fd_open := (fd_open g)(i := False)\<rparr>"

definition fork_say :: "(fork_state \<Rightarrow> fork_line) \<Rightarrow> fork_state \<Rightarrow> fork_state effect" where
  "fork_say e g = Go_on (g\<lparr>fork_out := fork_out g @ [e g]\<rparr>)"

definition exit_with :: "nat \<Rightarrow> fork_state \<Rightarrow> fork_state effect" where
  "exit_with st g = Exits st g"

text \<open>\<^verbatim>\<open>wait\<close> in the parent: blocks until the child has ended.\<close>

definition wait_child :: "int \<Rightarrow> fork_state \<Rightarrow> fork_state effect" where
  "wait_child pid g = (case statuses g 1 of None \<Rightarrow> Blocked | Some st \<Rightarrow> Go_on (g\<lparr>childStatus := st, exitedProcessPid := pid\<rparr>))"

text \<open>\<^verbatim>\<open>write\<close> at the shared position; a closed descriptor is an error.\<close>

definition write_fd :: "nat \<Rightarrow> string \<Rightarrow> fork_state \<Rightarrow> fork_state effect" where
  "write_fd i s g = (if fd_open g i
     then Go_on (g\<lparr>file_content := take (file_pos g) (file_content g) @ s @ drop (file_pos g + length s) (file_content g), file_pos := file_pos g + length s\<rparr>)
     else Exits 1 g)"

definition close_fd :: "nat \<Rightarrow> fork_state \<Rightarrow> fork_state effect" where
  "close_fd i g = (if fd_open g i then Go_on (g\<lparr>fd_open := (fd_open g)(i := False)\<rparr>) else Exits 1 g)"

text \<open>The state at \<^verbatim>\<open>fork\<close>: the child gets copies of the variables and of the descriptor.\<close>

definition fork_start :: "fork_line list \<Rightarrow> int \<Rightarrow> int \<Rightarrow> string \<Rightarrow> fork_state" where
  "fork_start out stack heap content = \<lparr>fork_out = out, statuses = (\<lambda>_. None), childStatus = 0, exitedProcessPid = 0,
     stackVar = (\<lambda>_. stack), heapVar = (\<lambda>_. heap), file_content = content, file_pos = 0, fd_open = (\<lambda>_. True)\<rparr>"

subsection \<open>fork_intro.cpp\<close>

definition fork_intro_parent :: "int \<Rightarrow> fork_state script" where
  "fork_intro_parent childPid =
     [fork_say (\<lambda>g. Fork_return_value childPid), wait_child childPid,
      fork_say (\<lambda>g. Wait_return_value (exitedProcessPid g) (childStatus g)), exit_with 0]"

definition fork_intro_child :: "int \<Rightarrow> fork_state script" where
  "fork_intro_child pid = [fork_say (\<lambda>g. Child_pid_is pid), exit_with 123]"

definition fork_intro_main :: "int \<Rightarrow> fork_state script list \<times> fork_state" where
  "fork_intro_main pid = ([fork_intro_parent pid, fork_intro_child pid], fork_start [] 0 0 [])"

subsection \<open>fork_cow.cpp\<close>

definition fork_cow_parent :: "fork_state script" where
  "fork_cow_parent = [fork_say (\<lambda>g. Values True (stackVar g 0) (heapVar g 0)), exit_with 0]"

definition fork_cow_child :: "nat \<Rightarrow> nat \<Rightarrow> fork_state script" where
  "fork_cow_child stack_at heap_at =
     [fork_say (\<lambda>g. Addresses False stack_at heap_at),
      fork_say (\<lambda>g. Values False (stackVar g 1) (heapVar g 1)),
      (\<lambda>g. Go_on (g\<lparr>stackVar := (stackVar g)(1 := stackVar g 1 + 1)\<rparr>)),
      (\<lambda>g. Go_on (g\<lparr>heapVar := (heapVar g)(1 := 322)\<rparr>)),
      fork_say (\<lambda>g. Addresses False stack_at heap_at),
      fork_say (\<lambda>g. Values False (stackVar g 1) (heapVar g 1)),
      exit_with 0]"

definition fork_cow_main :: "nat \<Rightarrow> nat \<Rightarrow> fork_state script list \<times> fork_state" where
  "fork_cow_main stack_at heap_at =
     ([fork_cow_parent, fork_cow_child stack_at heap_at], fork_start [Addresses True stack_at heap_at] 42 1337 [])"

subsection \<open>fork_fd.cpp\<close>

text \<open>\<^verbatim>\<open>open\<close> has truncated the file.\<close>

definition fork_fd_process :: "nat \<Rightarrow> string \<Rightarrow> fork_state script" where
  "fork_fd_process i messageToFile = [write_fd i messageToFile, close_fd i, exit_with 0]"

definition fork_fd_main :: "fork_state script list \<times> fork_state" where
  "fork_fd_main = ([fork_fd_process 0 (''Hello from parent'' @ [CHR 10]), fork_fd_process 1 (''Hello from child'' @ [CHR 10])], fork_start [] 0 0 [])"

text \<open>A failing \<^verbatim>\<open>fork\<close> ends the program before there is a child.\<close>

definition fork_main :: "(nat \<Rightarrow> string) \<Rightarrow> nat \<Rightarrow> source_location \<Rightarrow> int \<Rightarrow> 's \<Rightarrow> (string list \<times> nat) + 's" where
  "fork_main strerror errno loc childPid s = (case CHECK_ERROR strerror errno loc childPid of Inl e \<Rightarrow> Inl e | Inr _ \<Rightarrow> Inr s)"

section \<open>What the programs print\<close>

abbreviation fork_step :: "fork_state script list \<times> fork_state \<Rightarrow> fork_state script list \<times> fork_state \<Rightarrow> bool" where
  "fork_step \<equiv> prog_step (script_act record_exit)"

definition fork_results :: "fork_state script list \<times> fork_state \<Rightarrow> (fork_state \<Rightarrow> 'r) \<Rightarrow> 'r set" where
  "fork_results s f = outcomes fork_step s (stuck fork_step) (\<lambda>t. f (snd t))"

lemma fork_resultsI:
  assumes "map_option (\<lambda>ts. remdups (map (\<lambda>t. f (snd t)) ts)) (explore n (script_act record_exit) s) = Some rs"
  shows "fork_results s f = set rs"
  unfolding fork_results_def by (rule explore_outcomes[OF assms])

definition of_parent :: "fork_line \<Rightarrow> bool" where
  "of_parent e = (case e of Addresses b _ _ \<Rightarrow> b | Values b _ _ \<Rightarrow> b | Fork_return_value _ \<Rightarrow> True | Wait_return_value _ _ \<Rightarrow> True | Child_pid_is _ \<Rightarrow> False)"

definition run_lengths :: "fork_state script list \<times> fork_state \<Rightarrow> nat set" where
  "run_lengths s = {k. \<exists>t. (fork_step ^^ k) s t}"

lemma run_lengths_bound: "explore n (script_act record_exit) s \<noteq> None \<Longrightarrow> run_lengths s \<subseteq> {..n}"
  unfolding run_lengths_def using explore_bounded by fastforce

lemma fork_intro_results:
  "fork_results (fork_intro_main pid) (\<lambda>g. (fork_out g, statuses g 0, statuses g 1)) =
     {([Fork_return_value pid, Child_pid_is pid, Wait_return_value pid 123], Some 0, Some 123),
      ([Child_pid_is pid, Fork_return_value pid, Wait_return_value pid 123], Some 0, Some 123)}"
proof -
  have "map_option (\<lambda>ts. remdups (map (\<lambda>t. (\<lambda>g. (fork_out g, statuses g 0, statuses g 1)) (snd t)) ts)) (explore 6 (script_act record_exit) (fork_intro_main pid)) =
    Some [([Fork_return_value pid, Child_pid_is pid, Wait_return_value pid 123], Some 0, Some 123),
      ([Child_pid_is pid, Fork_return_value pid, Wait_return_value pid 123], Some 0, Some 123)]" by code_simp
  from fork_resultsI[OF this] show ?thesis by simp
qed

lemma fork_cow_results:
  "fork_results (fork_cow_main stack_at heap_at) (\<lambda>g. (filter of_parent (fork_out g), filter (\<lambda>e. \<not> of_parent e) (fork_out g))) =
     {([Addresses True stack_at heap_at, Values True 42 1337],
       [Addresses False stack_at heap_at, Values False 42 1337, Addresses False stack_at heap_at, Values False 43 322])}"
proof -
  have "map_option (\<lambda>ts. remdups (map (\<lambda>t. (\<lambda>g. (filter of_parent (fork_out g), filter (\<lambda>e. \<not> of_parent e) (fork_out g))) (snd t)) ts))
     (explore 9 (script_act record_exit) (fork_cow_main stack_at heap_at)) =
    Some [([Addresses True stack_at heap_at, Values True 42 1337],
       [Addresses False stack_at heap_at, Values False 42 1337, Addresses False stack_at heap_at, Values False 43 322])]" by code_simp
  from fork_resultsI[OF this] show ?thesis by simp
qed

lemma fork_fd_results:
  "fork_results fork_fd_main (\<lambda>g. (file_content g, statuses g 0, statuses g 1)) =
     {(''Hello from parent'' @ [CHR 10] @ ''Hello from child'' @ [CHR 10], Some 0, Some 0),
      (''Hello from child'' @ [CHR 10] @ ''Hello from parent'' @ [CHR 10], Some 0, Some 0)}"
proof -
  have "map_option (\<lambda>ts. remdups (map (\<lambda>t. (\<lambda>g. (file_content g, statuses g 0, statuses g 1)) (snd t)) ts)) (explore 6 (script_act record_exit) fork_fd_main) =
    Some [(''Hello from parent'' @ [CHR 10] @ ''Hello from child'' @ [CHR 10], Some 0, Some 0),
      (''Hello from child'' @ [CHR 10] @ ''Hello from parent'' @ [CHR 10], Some 0, Some 0)]" by code_simp
  from fork_resultsI[OF this] show ?thesis by simp
qed


end
