(* ===== verification/Threads_Intro.thy ===== *)
theory Threads_Intro
  imports Processes
begin

text \<open>
  The programs on threads, \<^verbatim>\<open>processes_and_threads/pthread/pthread_intro.cpp\<close>, \<^verbatim>\<open>stl/stl_intro.cpp\<close> and \<^verbatim>\<open>stl/jthread.cpp\<close>. The lemmas give their outputs for all schedules, and show that the error check
  around \<^verbatim>\<open>pthread_create\<close> does not notice its errors.
\<close>

section \<open>pthread_intro.cpp and stl_intro.cpp\<close>

datatype thread_line =
    Context_addresses bool nat nat         \<comment> \<open>\<^verbatim>\<open>[PARENT]: context->a address: {}, context->b address: {}\<close>, or with \<^verbatim>\<open>[CHILD]\<close>\<close>
  | Context_values bool int int            \<comment> \<open>\<^verbatim>\<open>[PARENT]: context->a value: {}, context->b value: {}\<close>\<close>
  | Argument_value int                     \<comment> \<open>\<^verbatim>\<open>[CHILD]: argument value: {}\<close>\<close>
  | Value_after nat int                    \<comment> \<open>\<^verbatim>\<open>[CHILD]: argument value after thread{}: {}\<close>\<close>

record thread_state =
  thread_out :: "thread_line list"
  started :: "nat \<Rightarrow> bool"
  ended :: "nat \<Rightarrow> bool"
  ctx_a :: int
  ctx_b :: int
  arg_value :: int                         \<comment> \<open>\<^verbatim>\<open>value\<close> of \<^verbatim>\<open>stl_intro\<close>\<close>
  joined_nothing :: bool                   \<comment> \<open>a thread that does not exist was joined: undefined behaviour\<close>
  main_status :: "nat option"

definition note_exit :: "nat \<Rightarrow> nat \<Rightarrow> thread_state \<Rightarrow> thread_state" where
  "note_exit i st g = (if i = 0 then g\<lparr>main_status := Some st\<rparr> else g\<lparr>ended := (ended g)(i := True)\<rparr>)"

definition line :: "(thread_state \<Rightarrow> thread_line) \<Rightarrow> thread_state \<Rightarrow> thread_state effect" where
  "line e g = Go_on (g\<lparr>thread_out := thread_out g @ [e g]\<rparr>)"

definition starts :: "nat \<Rightarrow> thread_state \<Rightarrow> thread_state effect" where
  "starts i g = Go_on (g\<lparr>started := (started g)(i := True)\<rparr>)"

definition await_start :: "nat \<Rightarrow> thread_state \<Rightarrow> thread_state effect" where
  "await_start i g = (if started g i then Go_on g else Blocked)"

definition join :: "nat \<Rightarrow> thread_state \<Rightarrow> thread_state effect" where
  "join i g = (if \<not> started g i then Undefined (g\<lparr>joined_nothing := True\<rparr>) else if ended g i then Go_on g else Blocked)"

text \<open>
  \<^verbatim>\<open>pthread_create\<close> and \<^verbatim>\<open>pthread_join\<close> return an error number, 0 for success. \<open>rc\<close> is what \<^verbatim>\<open>pthread_create\<close> returns. The lines of the error check go to the standard error.
\<close>

definition pthread_create :: "int \<Rightarrow> nat \<Rightarrow> thread_state \<Rightarrow> thread_state effect" where
  "pthread_create rc i g =
     (case CHECK_ERROR (\<lambda>_. []) 0 \<lparr>function_name = ''main'', file_name = ''pthread_intro.cpp'', loc_line = 42\<rparr> rc of Inl (_, st) \<Rightarrow> Exits st g
      | Inr _ \<Rightarrow> if rc = 0 then starts i g else Go_on g)"

definition ThreadFunction :: "nat \<Rightarrow> nat \<Rightarrow> thread_state script" where
  "ThreadFunction a_at b_at =
     [await_start 1, line (\<lambda>g. Context_addresses False a_at b_at), (\<lambda>g. Go_on (g\<lparr>ctx_a := ctx_a g + 10\<rparr>)),
      line (\<lambda>g. Context_values False (ctx_a g) (ctx_b g)), Exits 0]"

definition threads_init :: "int \<Rightarrow> int \<Rightarrow> int \<Rightarrow> thread_state" where
  "threads_init a b v = \<lparr>thread_out = [], started = (\<lambda>_. False), ended = (\<lambda>_. False), ctx_a = a, ctx_b = b, arg_value = v, joined_nothing = False, main_status = None\<rparr>"

definition pthread_intro_main :: "int \<Rightarrow> nat \<Rightarrow> nat \<Rightarrow> thread_state script list \<times> thread_state" where
  "pthread_intro_main rc a_at b_at =
     ([[line (\<lambda>g. Context_addresses True a_at b_at), pthread_create rc 1, join 1, line (\<lambda>g. Context_values True (ctx_a g) (ctx_b g)), Exits 0],
       ThreadFunction a_at b_at], threads_init 228 322 0)"

definition stl_thread :: "nat \<Rightarrow> int \<Rightarrow> thread_state script" where
  "stl_thread i v = [await_start i, line (\<lambda>g. Argument_value (arg_value g)), (\<lambda>g. Go_on (g\<lparr>arg_value := v\<rparr>)), Exits 0]"

definition stl_intro_main :: "thread_state script list \<times> thread_state" where
  "stl_intro_main =
     ([[starts 1, join 1, line (\<lambda>g. Value_after 1 (arg_value g)), starts 2, join 2, line (\<lambda>g. Value_after 2 (arg_value g)), Exits 0],
       stl_thread 1 322, stl_thread 2 1337], threads_init 0 0 42)"

definition thread_results :: "thread_state script list \<times> thread_state \<Rightarrow> (thread_line list \<times> bool \<times> nat option) set" where
  "thread_results s = outcomes (prog_step (script_act note_exit)) s (stuck (prog_step (script_act note_exit)))
     (\<lambda>t. (thread_out (snd t), joined_nothing (snd t), main_status (snd t)))"

lemma thread_resultsI:
  assumes "map_option (\<lambda>ts. remdups (map (\<lambda>t. (thread_out (snd t), joined_nothing (snd t), main_status (snd t))) ts)) (explore n (script_act note_exit) s) = Some rs"
  shows "thread_results s = set rs"
  unfolding thread_results_def by (rule explore_outcomes[OF assms])

lemma pthread_intro_created:
  "thread_results (pthread_intro_main 0 a_at b_at) =
     {([Context_addresses True a_at b_at, Context_addresses False a_at b_at, Context_values False 238 322, Context_values True 238 322], False, Some 0)}"
proof -
  have "map_option (\<lambda>ts. remdups (map (\<lambda>t. (thread_out (snd t), joined_nothing (snd t), main_status (snd t))) ts))
      (explore 10 (script_act note_exit) (pthread_intro_main 0 a_at b_at)) =
    Some [([Context_addresses True a_at b_at, Context_addresses False a_at b_at, Context_values False 238 322, Context_values True 238 322], False, Some 0)]"
    by code_simp
  from thread_resultsI[OF this] show ?thesis by simp
qed

lemma stl_intro_results:
  "thread_results stl_intro_main = {([Argument_value 42, Value_after 1 322, Argument_value 322, Value_after 2 1337], False, Some 0)}"
proof -
  have "map_option (\<lambda>ts. remdups (map (\<lambda>t. (thread_out (snd t), joined_nothing (snd t), main_status (snd t))) ts)) (explore 15 (script_act note_exit) stl_intro_main) =
    Some [([Argument_value 42, Value_after 1 322, Argument_value 322, Value_after 2 1337], False, Some 0)]"
    by code_simp
  from thread_resultsI[OF this] show ?thesis by simp
qed

lemma pthread_create_failed: "rc \<noteq> -1 \<Longrightarrow> rc \<noteq> 0 \<Longrightarrow> pthread_create rc i g = Go_on g"
  by (simp add: pthread_create_def CHECK_ERROR_def)

text \<open>
  The thread is not created and the error check does not notice it: the only result has \<^verbatim>\<open>main\<close> join a thread that does not exist.
\<close>

lemma pthread_intro_not_created:
  assumes "0 < rc"
  shows "thread_results (pthread_intro_main rc a_at b_at) = {([Context_addresses True a_at b_at], True, None)}"
proof -
  have "pthread_create rc 1 = Go_on" using assms by (intro ext pthread_create_failed) simp_all
  then have main: "pthread_intro_main rc a_at b_at =
     ([[line (\<lambda>g. Context_addresses True a_at b_at), Go_on, join 1, line (\<lambda>g. Context_values True (ctx_a g) (ctx_b g)), Exits 0],
       ThreadFunction a_at b_at], threads_init 228 322 0)" by (simp add: pthread_intro_main_def)
  have "map_option (\<lambda>ts. remdups (map (\<lambda>t. (thread_out (snd t), joined_nothing (snd t), main_status (snd t))) ts))
      (explore 10 (script_act note_exit)
        ([[line (\<lambda>g. Context_addresses True a_at b_at), Go_on, join 1, line (\<lambda>g. Context_values True (ctx_a g) (ctx_b g)), Exits 0],
       ThreadFunction a_at b_at], threads_init 228 322 0)) =
    Some [([Context_addresses True a_at b_at], True, None)]"
    by code_simp
  from thread_resultsI[OF this] show ?thesis unfolding main by simp
qed

text \<open>
  C39. \<^verbatim>\<open>pthread_intro\<close>, for any result of \<^verbatim>\<open>pthread_create\<close> and all schedules. When the thread is created the program always prints the same lines: the
  two threads share the context, so that the parent sees the 238 of the thread. When it is not, for whatever documented error number,
  \<^verbatim>\<open>CHECK_ERROR\<close>, which compares with -1, does not notice, and \<^verbatim>\<open>main\<close> goes on to join a thread that does not exist, which is
  undefined behaviour.
\<close>

theorem pthread_intro_results:
  assumes "0 \<le> rc"
  shows "thread_results (pthread_intro_main rc a_at b_at) =
     (if rc = 0 then {([Context_addresses True a_at b_at, Context_addresses False a_at b_at, Context_values False 238 322, Context_values True 238 322], False, Some 0)}
      else {([Context_addresses True a_at b_at], True, None)})"
  using assms pthread_intro_created pthread_intro_not_created[of rc] by simp

text \<open>11 is \<^verbatim>\<open>EAGAIN\<close>.\<close>

theorem pthread_intro_results_witness: "thread_results (pthread_intro_main 11 1000 1004) = {([Context_addresses True 1000 1004], True, None)}"
  using pthread_intro_results[of 11 1000 1004] by simp

section \<open>jthread.cpp\<close>

datatype jthread_line = Hello_from_child | Stop_not_requested | Stop_requested

datatype jthread_pc =
    JM_First                        \<comment> \<open>\<^verbatim>\<open>main\<close>: start the first thread\<close>
  | JM_Join_first                   \<comment> \<open>end of the block: \<^verbatim>\<open>~jthread\<close>\<close>
  | JM_Second
  | JM_Request                      \<comment> \<open>\<^verbatim>\<open>thread.request_stop()\<close>\<close>
  | JM_Join_second
  | JM_Returned
  | JF_Hello | JF_Ended             \<comment> \<open>the first thread\<close>
  | JS_Check | JS_Print | JS_Sleep | JS_Stop | JS_Ended

record jthread_state =
  first_started :: bool
  first_ended :: bool
  second_started :: bool
  second_ended :: bool
  stop_requested :: bool
  jthread_out :: "jthread_line list"

definition put_line :: "jthread_line \<Rightarrow> jthread_state \<Rightarrow> jthread_state" where
  "put_line e g = g\<lparr>jthread_out := jthread_out g @ [e]\<rparr>"

fun jthread_act :: "nat \<Rightarrow> jthread_pc \<Rightarrow> jthread_state \<Rightarrow> (jthread_pc \<times> jthread_state) option" where
  "jthread_act i JM_First g = Some (JM_Join_first, g\<lparr>first_started := True\<rparr>)"
| "jthread_act i JM_Join_first g = (if first_ended g then Some (JM_Second, g) else None)"
| "jthread_act i JM_Second g = Some (JM_Request, g\<lparr>second_started := True\<rparr>)"
| "jthread_act i JM_Request g = Some (JM_Join_second, g\<lparr>stop_requested := True\<rparr>)"
| "jthread_act i JM_Join_second g = (if second_ended g then Some (JM_Returned, g) else None)"
| "jthread_act i JM_Returned g = None"
| "jthread_act i JF_Hello g = (if first_started g then Some (JF_Ended, put_line Hello_from_child (g\<lparr>first_ended := True\<rparr>)) else None)"
| "jthread_act i JF_Ended g = None"
| "jthread_act i JS_Check g = (if second_started g then Some (if stop_requested g then JS_Stop else JS_Print, g) else None)"
| "jthread_act i JS_Print g = Some (JS_Sleep, put_line Stop_not_requested g)"
| "jthread_act i JS_Sleep g = Some (JS_Check, g)"
| "jthread_act i JS_Stop g = Some (JS_Ended, put_line Stop_requested (g\<lparr>second_ended := True\<rparr>))"
| "jthread_act i JS_Ended g = None"

definition jthread_main :: "jthread_pc list \<times> jthread_state" where
  "jthread_main = ([JM_First, JF_Hello, JS_Check], \<lparr>first_started = False, first_ended = False, second_started = False, second_ended = False,
     stop_requested = False, jthread_out = []\<rparr>)"

definition jthread_done :: "jthread_pc list \<times> jthread_state \<Rightarrow> bool" where
  "jthread_done s \<longleftrightarrow> fst s = [JM_Returned, JF_Ended, JS_Ended]"

text \<open>Where \<^verbatim>\<open>main\<close> is, in numbers.\<close>

definition main_at :: "jthread_pc \<Rightarrow> nat" where
  "main_at p = (case p of JM_First \<Rightarrow> 0 | JM_Join_first \<Rightarrow> 1 | JM_Second \<Rightarrow> 2 | JM_Request \<Rightarrow> 3 | JM_Join_second \<Rightarrow> 4 | JM_Returned \<Rightarrow> 5 | _ \<Rightarrow> 6)"

text \<open>The output so far, and how far the threads are.\<close>

definition jthread_printed :: "jthread_pc \<Rightarrow> jthread_state \<Rightarrow> bool" where
  "jthread_printed s g \<longleftrightarrow> (\<exists>k. jthread_out g = (if first_ended g then [Hello_from_child] else []) @ replicate k Stop_not_requested @
     (if s = JS_Ended then [Stop_requested] else []) \<and> (second_started g \<or> k = 0))"

fun jthread_inv :: "jthread_pc list \<times> jthread_state \<Rightarrow> bool" where
  "jthread_inv ([m, f, s], g) \<longleftrightarrow>
     main_at m \<le> 5 \<and> (first_started g \<longleftrightarrow> main_at m \<ge> 1) \<and> (second_started g \<longleftrightarrow> main_at m \<ge> 3) \<and> (stop_requested g \<longleftrightarrow> main_at m \<ge> 4) \<and>
     f = (if first_ended g then JF_Ended else JF_Hello) \<and> (main_at m \<ge> 2 \<longrightarrow> first_ended g) \<and>
     s \<in> {JS_Check, JS_Print, JS_Sleep, JS_Stop, JS_Ended} \<and> (second_ended g \<longleftrightarrow> s = JS_Ended) \<and> (s \<noteq> JS_Check \<longrightarrow> second_started g) \<and>
     (s = JS_Stop \<or> s = JS_Ended \<longrightarrow> stop_requested g) \<and> (main_at m = 5 \<longrightarrow> second_ended g) \<and> jthread_printed s g"
| "jthread_inv _ \<longleftrightarrow> False"

lemma jthread_inv_shape: "jthread_inv (ls, g) \<Longrightarrow> \<exists>m f s. ls = [m, f, s]"
  by (cases "(ls, g)" rule: jthread_inv.cases) auto

lemma jthread_main_step: "jthread_inv ([m, f, s], g) \<Longrightarrow> jthread_act i m g = Some (m', g') \<Longrightarrow> jthread_inv ([m', f, s], g')"
  by (cases m) (auto simp: main_at_def jthread_printed_def split: if_splits)

lemma jthread_first_step: "jthread_inv ([m, f, s], g) \<Longrightarrow> jthread_act i f g = Some (f', g') \<Longrightarrow> jthread_inv ([m, f', s], g')"
  by (cases "first_ended g") (auto simp: jthread_printed_def put_line_def split: if_splits)

lemma jthread_second_printed:
  assumes "jthread_printed JS_Print g" "second_started g"
  shows "jthread_printed JS_Sleep (put_line Stop_not_requested g)"
proof -
  from assms obtain k where "jthread_out g = (if first_ended g then [Hello_from_child] else []) @ replicate k Stop_not_requested"
    by (auto simp: jthread_printed_def)
  then have "jthread_out (put_line Stop_not_requested g) = (if first_ended g then [Hello_from_child] else []) @ replicate (Suc k) Stop_not_requested"
    by (simp add: put_line_def replicate_append_same)
  then show ?thesis using assms(2) by (auto simp: jthread_printed_def put_line_def simp del: replicate.simps)
qed

lemma jthread_second_step:
  assumes inv: "jthread_inv ([m, f, s], g)" and act: "jthread_act i s g = Some (s', g')"
  shows "jthread_inv ([m, f, s'], g')"
proof -
  from inv consider "s = JS_Check" | "s = JS_Print" | "s = JS_Sleep" | "s = JS_Stop" | "s = JS_Ended" by auto
  then show ?thesis
  proof cases
    case 1
    from act 1 have e: "s' = (if stop_requested g then JS_Stop else JS_Print)" "g' = g" "second_started g" by (simp_all split: if_splits)
    show ?thesis using inv 1 e(3) unfolding e(1,2) by (auto simp: jthread_printed_def)
  next
    case 2
    from inv[unfolded 2 jthread_inv.simps] have "jthread_printed JS_Print g" "second_started g" by blast+
    then have "jthread_printed JS_Sleep (put_line Stop_not_requested g)" by (rule jthread_second_printed)
    moreover from act 2 have e: "s' = JS_Sleep" "g' = put_line Stop_not_requested g" by simp_all
    ultimately show ?thesis using inv 2 unfolding e by (auto simp: put_line_def)
  next
    case 3
    from act 3 have e: "s' = JS_Check" "g' = g" by simp_all
    show ?thesis using inv 3 unfolding e by (auto simp: jthread_printed_def)
  next
    case 4
    from act 4 have e: "s' = JS_Ended" "g' = put_line Stop_requested (g\<lparr>second_ended := True\<rparr>)" by simp_all
    show ?thesis using inv 4 unfolding e by (auto simp: jthread_printed_def put_line_def)
  next
    case 5
    then show ?thesis using act by simp
  qed
qed

lemma jthread_inv_step:
  assumes inv: "jthread_inv s" and st: "prog_step jthread_act s t"
  shows "jthread_inv t"
proof -
  obtain ls g where s: "s = (ls, g)" by (cases s)
  with jthread_inv_shape inv obtain m f x where ls: "ls = [m, f, x]" by blast
  from st[unfolded s] obtain i l' g' where i: "i < length ls" and act: "jthread_act i (ls ! i) g = Some (l', g')"
    and t: "t = (ls[i := l'], g')" by (rule prog_stepE)
  note inv = inv[unfolded s ls]
  from i ls consider "i = 0" | "i = 1" | "i = 2" by fastforce
  then show ?thesis
  proof cases
    case 1
    with act ls have "jthread_act i m g = Some (l', g')" by simp
    from jthread_main_step[OF inv this] show ?thesis by (simp only: t ls 1 list_update.simps nat.case)
  next
    case 2
    with act ls have "jthread_act i f g = Some (l', g')" by simp
    from jthread_first_step[OF inv this] show ?thesis by (simp only: t ls 2 One_nat_def list_update.simps nat.case)
  next
    case 3
    with act ls have "jthread_act i x g = Some (l', g')" by simp
    from jthread_second_step[OF inv this] show ?thesis by (simp only: t ls 3 numeral_2_eq_2 list_update.simps nat.case)
  qed
qed

definition jthread_left :: "jthread_pc \<Rightarrow> nat" where
  "jthread_left p = (case p of JF_Hello \<Rightarrow> 1 | JS_Print \<Rightarrow> 4 | JS_Sleep \<Rightarrow> 3 | JS_Check \<Rightarrow> 2 | JS_Stop \<Rightarrow> 1 | JF_Ended \<Rightarrow> 0 | JS_Ended \<Rightarrow> 0 | _ \<Rightarrow> 10 * (5 - main_at p))"

definition jthread_rank :: "jthread_pc list \<times> jthread_state \<Rightarrow> nat" where
  "jthread_rank s = sum_list (map jthread_left (fst s))"

lemma jthread_advances:
  assumes inv: "jthread_inv ([m, f, x], g)" and nf: "\<not> jthread_done ([m, f, x], g)"
  shows "\<exists>i<3. \<exists>l' g'. jthread_act i ([m, f, x] ! i) g = Some (l', g') \<and> jthread_left l' < jthread_left ([m, f, x] ! i)"
proof -
  have "\<exists>l' g'. jthread_act 0 m g = Some (l', g') \<and> jthread_left l' < jthread_left m" if "m \<in> {JM_First, JM_Second, JM_Request}"
    using that by (auto simp: jthread_left_def main_at_def)
  moreover have "\<exists>l' g'. jthread_act 0 m g = Some (l', g') \<and> jthread_left l' < jthread_left m" if "m = JM_Join_first" "first_ended g"
    using that by (auto simp: jthread_left_def main_at_def)
  moreover have "\<exists>l' g'. jthread_act 1 f g = Some (l', g') \<and> jthread_left l' < jthread_left f" if "m = JM_Join_first" "\<not> first_ended g"
    using that inv by (auto simp: jthread_left_def main_at_def)
  moreover have "\<exists>l' g'. jthread_act 0 m g = Some (l', g') \<and> jthread_left l' < jthread_left m" if "m = JM_Join_second" "second_ended g"
    using that by (auto simp: jthread_left_def main_at_def)
  moreover have "\<exists>l' g'. jthread_act 2 x g = Some (l', g') \<and> jthread_left l' < jthread_left x" if "m = JM_Join_second" "\<not> second_ended g"
    using that inv by (auto simp: jthread_left_def main_at_def)
  moreover have "m \<in> {JM_First, JM_Second, JM_Request, JM_Join_first, JM_Join_second}"
    using inv nf by (cases m) (auto simp: main_at_def jthread_done_def)
  ultimately consider "\<exists>l' g'. jthread_act 0 m g = Some (l', g') \<and> jthread_left l' < jthread_left m"
    | "\<exists>l' g'. jthread_act 1 f g = Some (l', g') \<and> jthread_left l' < jthread_left f"
    | "\<exists>l' g'. jthread_act 2 x g = Some (l', g') \<and> jthread_left l' < jthread_left x" by blast
  then show ?thesis
  proof cases
    case 1 then show ?thesis by (intro exI[of _ 0]) simp
  next
    case 2 then show ?thesis by (intro exI[of _ 1]) simp
  next
    case 3 then show ?thesis by (intro exI[of _ 2]) simp
  qed
qed

interpretation jthread: finishing_steps "\<lambda>s. s = jthread_main" "prog_step jthread_act" jthread_inv jthread_done jthread_rank
proof unfold_locales
  show "jthread_inv s" if "s = jthread_main" for s using that by (simp add: jthread_main_def main_at_def jthread_printed_def)
next
  fix s t assume "jthread_inv s" "prog_step jthread_act s t"
  then show "jthread_inv t" by (rule jthread_inv_step)
next
  fix s assume inv: "jthread_inv s" and nf: "\<not> jthread_done s"
  obtain ls g where s: "s = (ls, g)" by (cases s)
  with jthread_inv_shape inv obtain m f x where ls: "ls = [m, f, x]" by blast
  have "length ls = 3" by (simp add: ls)
  then obtain i l' g' where i: "i < length ls" "jthread_act i (ls ! i) g = Some (l', g')" "jthread_left l' < jthread_left (ls ! i)"
    using jthread_advances[OF inv[unfolded s ls] nf[unfolded s ls]] unfolding ls by metis
  from prog_stepI[of i ls jthread_act g l' g', OF i(1,2)] have "prog_step jthread_act s (ls[i := l'], g')" unfolding s .
  moreover have "jthread_rank (ls[i := l'], g') < jthread_rank s" using sum_list_map_update[OF i(1), of jthread_left l'] i(3) by (simp add: jthread_rank_def s)
  ultimately show "\<exists>t. prog_step jthread_act s t \<and> jthread_rank t < jthread_rank s" by blast
qed

text \<open>
  Over all schedules \<^verbatim>\<open>jthread.cpp\<close> can always be brought to its end, it does not block before it, and it then has printed the line of the first thread, any number of lines
  of the second, and last that the stop was requested.
\<close>

lemma jthread_program_ends:
  assumes "(prog_step jthread_act)\<^sup>*\<^sup>* jthread_main s"
  shows "\<exists>t. (prog_step jthread_act)\<^sup>*\<^sup>* s t \<and> jthread_done t" and "stuck (prog_step jthread_act) s \<Longrightarrow> jthread_done s"
    and "jthread_done s \<Longrightarrow> \<exists>k. jthread_out (snd s) = Hello_from_child # replicate k Stop_not_requested @ [Stop_requested]"
proof -
  show "\<exists>t. (prog_step jthread_act)\<^sup>*\<^sup>* s t \<and> jthread_done t" by (rule jthread.reaches_final[OF refl assms])
  show "stuck (prog_step jthread_act) s \<Longrightarrow> jthread_done s" by (rule jthread.stuck_final[OF refl assms])
  show "\<exists>k. jthread_out (snd s) = Hello_from_child # replicate k Stop_not_requested @ [Stop_requested]" if "jthread_done s"
  proof -
    have s: "s = ([JM_Returned, JF_Ended, JS_Ended], snd s)" using that by (simp add: jthread_done_def prod_eq_iff)
    have "jthread_inv s" by (rule jthread.inv_reachable[OF refl assms])
    then have "jthread_inv ([JM_Returned, JF_Ended, JS_Ended], snd s)" using s by simp
    then show ?thesis by (auto simp: main_at_def jthread_printed_def split: if_splits)
  qed
qed

end
