(* ===== verification/Execs.thy ===== *)
theory Execs
  imports Processes
begin

text \<open>
  The programs on \<^verbatim>\<open>exec\<close>, \<^verbatim>\<open>processes_and_threads/exec/exec_intro.cpp\<close> with the program \<^verbatim>\<open>dummy.cpp\<close> it runs and \<^verbatim>\<open>exec_fd.cpp\<close> with \<^verbatim>\<open>writer.cpp\<close>. The parent waits for
  each child, so that they run one after the other. Which programs can be found, and the results of \<^verbatim>\<open>fork\<close> and \<^verbatim>\<open>open\<close>, are parameters. The
  lemmas give the complete output, and what is left in the file.
\<close>

section \<open>dummy.cpp\<close>

text \<open>An environment is a list of entries \<^verbatim>\<open>NAME=value\<close>.\<close>

fun getenv :: "string list \<Rightarrow> string \<Rightarrow> string option" where
  "getenv [] name = None"
| "getenv (e # es) name =
     (if take (length name + 1) e = name @ ''='' then Some (drop (length name + 1) e) else getenv es name)"

definition dummy_main :: "string list \<Rightarrow> string list \<Rightarrow> string list" where
  "dummy_main argv environ =
     ''Dummy called with arguments: '' #
     map (\<lambda>i. ''argv['' @ decimal i @ '']='' @ argv ! i) [0..<length argv] @
     [case getenv environ ''EXAMPLE_ENV'' of Some envVar \<Rightarrow> ''EXAMPLE_ENV='' @ envVar | None \<Rightarrow> ''EXAMPLE_ENV is not set'']"

section \<open>exec_intro.cpp\<close>

datatype exec_call =
    Execl string "string list"
  | Execv string "string list"
  | Execvp string "string list"
  | Execve string "string list" "string list option"    \<comment> \<open>\<^verbatim>\<open>None\<close>: the null pointer, taken as the empty environment\<close>

text \<open>The system: the program at a path, the path of a program that is looked up in \<^verbatim>\<open>PATH\<close>, the text of an error and the error of a program that is not found.\<close>

record exec_system =
  program_at :: "string \<Rightarrow> (string list \<Rightarrow> string list \<Rightarrow> string list) option"
  in_path :: "string \<Rightarrow> string option"
  error_text :: "nat \<Rightarrow> string"
  not_found :: nat

text \<open>The process image is replaced and prints its lines, or the call returns -1.\<close>

datatype exec_result = Replaced "string list" | Returned int

definition exec_path :: "exec_system \<Rightarrow> string option \<Rightarrow> string list \<Rightarrow> string list \<Rightarrow> exec_result" where
  "exec_path sys path argv environ =
     (case Option.bind path (program_at sys) of None \<Rightarrow> Returned (- 1) | Some main \<Rightarrow> Replaced (main argv environ))"

fun exec :: "exec_system \<Rightarrow> string list \<Rightarrow> exec_call \<Rightarrow> exec_result" where
  "exec sys environ (Execl path argv) = exec_path sys (Some path) argv environ"
| "exec sys environ (Execv path argv) = exec_path sys (Some path) argv environ"
| "exec sys environ (Execvp file argv) = exec_path sys (in_path sys file) argv environ"
| "exec sys environ (Execve path argv env) = exec_path sys (Some path) argv (case env of None \<Rightarrow> [] | Some e \<Rightarrow> e)"

text \<open>The lines on the standard output and on the standard error, by all processes.\<close>

type_synonym exec_output = "string list \<times> string list"

definition exec_intro_loc :: "string \<Rightarrow> nat \<Rightarrow> source_location" where
  "exec_intro_loc f n = \<lparr>function_name = f, file_name = ''exec_intro.cpp'', loc_line = n\<rparr>"

text \<open>A spawner prints a line and calls \<^verbatim>\<open>exec\<close>, at a line of the source.\<close>

type_synonym spawner = "string \<times> exec_call \<times> nat"

definition run_spawner :: "exec_system \<Rightarrow> string list \<Rightarrow> spawner \<Rightarrow> exec_output" where
  "run_spawner sys environ sp = (case sp of (header, call, n) \<Rightarrow>
     (case exec sys environ call of Replaced ls \<Rightarrow> (header # ls, [])
      | Returned r \<Rightarrow> (case CHECK_ERROR (error_text sys) (not_found sys) (exec_intro_loc ''operator()'' n) r of
          Inl (log, _) \<Rightarrow> ([header], log)
        | Inr _ \<Rightarrow> ([header], [''spawner failed'']))))"

text \<open>\<open>childPid\<close> and \<open>errno\<close>: the result of \<^verbatim>\<open>fork\<close>. \<open>Inl\<close>: the program exits.\<close>

definition RunDummy :: "exec_system \<Rightarrow> string list \<Rightarrow> int \<times> nat \<Rightarrow> spawner \<Rightarrow> exec_output \<Rightarrow> exec_output + exec_output" where
  "RunDummy sys environ fork_result sp io = (case (fork_result, io) of ((childPid, errno), (out, err)) \<Rightarrow>
     (case CHECK_ERROR (error_text sys) errno (exec_intro_loc ''RunDummy'' 10) childPid of
        Inl (log, _) \<Rightarrow> Inl (out, err @ log)
      | Inr _ \<Rightarrow> (case run_spawner sys environ sp of (child_out, child_err) \<Rightarrow>
          Inr (out @ child_out @ [''-----------------------''], err @ child_err))))"

definition spawners :: "spawner list" where
  "spawners =
     [(''execl: '', Execl ''./dummy'' [''dummy'', ''hello'', ''from'', ''execl''], 26),
      (''execv: '', Execv ''./dummy'' [''./dummy'', ''vector'', ''data''], 33),
      (''execvp: '', Execvp ''dummy'' [''dummy'', ''found'', ''in'', ''path''], 40),
      (''execve without env override: '', Execve ''./dummy'' [''dummy'', ''with'', ''env''] None, 46),
      (''execve with env override: '', Execve ''./dummy'' [''dummy'', ''with'', ''env''] (Some [''EXAMPLE_ENV=322'']), 53)]"

fun run_dummies :: "exec_system \<Rightarrow> string list \<Rightarrow> (int \<times> nat) list \<Rightarrow> spawner list \<Rightarrow> exec_output \<Rightarrow> exec_output + exec_output" where
  "run_dummies sys environ (r # rs) (sp # sps) io =
     (case RunDummy sys environ r sp io of Inl io' \<Rightarrow> Inl io' | Inr io' \<Rightarrow> run_dummies sys environ rs sps io')"
| "run_dummies sys environ _ _ io = Inr io"

definition exec_intro_main :: "exec_system \<Rightarrow> string list \<Rightarrow> (int \<times> nat) list \<Rightarrow> exec_output + exec_output" where
  "exec_intro_main sys environ forks = run_dummies sys environ forks spawners ([], [])"

section \<open>exec_fd.cpp and writer.cpp\<close>

record example_state =
  example_txt :: string
  ex_out :: "string list"
  ex_err :: "string list"

definition ex_log :: "string list \<Rightarrow> example_state \<Rightarrow> example_state" where
  "ex_log ls s = s\<lparr>ex_err := ex_err s @ ls\<rparr>"

definition ex_print :: "string \<Rightarrow> example_state \<Rightarrow> example_state" where
  "ex_print l s = s\<lparr>ex_out := ex_out s @ [l]\<rparr>"

text \<open>\<^verbatim>\<open>std::stoi\<close>; \<open>None\<close>: it throws.\<close>

definition stoi :: "string \<Rightarrow> int option" where
  "stoi s = (let s1 = dropWhile is_space s;
       neg = (take 1 s1 = ''-'');
       s2 = (if take 1 s1 = ''-'' \<or> take 1 s1 = ''+'' then drop 1 s1 else s1);
       ds = takeWhile is_digit s2;
       n = (if neg then - int (digits_value ds) else int (digits_value ds))
     in if ds = [] \<or> n < - (2 ^ 31) \<or> 2 ^ 31 \<le> n then None else Some n)"

definition writer_Message :: string where
  "writer_Message = ''Write from child process'' @ [CHR 10]"

text \<open>The error number of a call with a descriptor that is not open.\<close>

definition EBADF :: nat where
  "EBADF = 9"

definition writer_loc :: "nat \<Rightarrow> source_location" where
  "writer_loc n = \<lparr>function_name = ''main'', file_name = ''writer.cpp'', loc_line = n\<rparr>"

text \<open>\<open>fds\<close>: the descriptors that are open on the file, in append mode. \<open>None\<close>: ended by an exception.\<close>

definition writer_main :: "(nat \<Rightarrow> string) \<Rightarrow> string list \<Rightarrow> int set \<Rightarrow> example_state \<Rightarrow> example_state \<times> nat option" where
  "writer_main strerror argv fds s =
     (if length argv \<noteq> 2 then (ex_log [''Invalid input''] s, Some 1)
      else case stoi (argv ! 1) of None \<Rightarrow> (s, None)
      | Some fd \<Rightarrow>
          (case CHECK_ERROR strerror EBADF (writer_loc 16) (if fd \<in> fds then int (length writer_Message) else - 1) of
             Inl (log, st) \<Rightarrow> (ex_log log s, Some st)
           | Inr _ \<Rightarrow>
               (let s' = (if fd \<in> fds then s\<lparr>example_txt := example_txt s @ writer_Message\<rparr> else s) in
                case CHECK_ERROR strerror EBADF (writer_loc 17) (if fd \<in> fds then 0 else - 1) of
                  Inl (log, st) \<Rightarrow> (ex_log log s', Some st)
                | Inr _ \<Rightarrow> (ex_print ''Successfully written to file from child process'' s', Some 0))))"

definition exec_fd_loc :: "nat \<Rightarrow> source_location" where
  "exec_fd_loc n = \<lparr>function_name = ''RunExample'', file_name = ''exec_fd.cpp'', loc_line = n\<rparr>"

text \<open>What the system calls return: \<^verbatim>\<open>open\<close>, \<^verbatim>\<open>fork\<close>, whether \<^verbatim>\<open>execl\<close> finds the program, and the error number when one fails.\<close>

record example_calls =
  open_returns :: int
  fork_returns :: int
  writer_found :: bool
  call_errno :: nat

definition RunExample :: "(nat \<Rightarrow> string) \<Rightarrow> example_calls \<Rightarrow> bool \<Rightarrow> example_state \<Rightarrow> example_state + example_state" where
  "RunExample strerror calls closeOnExec s =
     (let fd = open_returns calls in
      case CHECK_ERROR strerror (call_errno calls) (exec_fd_loc 14) fd of
        Inl (log, _) \<Rightarrow> Inl (ex_log log s)
      | Inr _ \<Rightarrow>
          (case CHECK_ERROR strerror (call_errno calls) (exec_fd_loc 19) (fork_returns calls) of
             Inl (log, _) \<Rightarrow> Inl (ex_log log s)
           | Inr _ \<Rightarrow>
               (let s1 = (if writer_found calls
                    then fst (writer_main strerror [''writer'', decimal_int fd] (if closeOnExec then {} else {fd}) s)
                    else ex_log (LogSystemError strerror (call_errno calls) (exec_fd_loc 22)) s)
                in Inr (ex_print ''-----------------------'' s1))))"

definition exec_fd_main :: "(nat \<Rightarrow> string) \<Rightarrow> example_calls \<Rightarrow> example_calls \<Rightarrow> example_state \<Rightarrow> example_state + example_state" where
  "exec_fd_main strerror calls1 calls2 s =
     (case RunExample strerror calls1 False s of Inl s' \<Rightarrow> Inl s' | Inr s' \<Rightarrow> RunExample strerror calls2 True s')"

section \<open>What the programs do\<close>

definition env_line :: "string list \<Rightarrow> string" where
  "env_line environ = (case getenv environ ''EXAMPLE_ENV'' of Some v \<Rightarrow> ''EXAMPLE_ENV='' @ v | None \<Rightarrow> ''EXAMPLE_ENV is not set'')"

lemma dummy_main_lines:
  "dummy_main argv environ = ''Dummy called with arguments: '' # map (\<lambda>i. ''argv['' @ decimal i @ '']='' @ argv ! i) [0..<length argv] @ [env_line environ]"
  by (simp add: dummy_main_def env_line_def)

lemma RunDummy_runs:
  assumes "exec sys environ call = Replaced ls" "pid \<noteq> - 1"
  shows "RunDummy sys environ (pid, errno) (header, call, n) (out, err) = Inr (out @ header # ls @ [''-----------------------''], err)"
  using assms by (simp add: RunDummy_def run_spawner_def CHECK_ERROR_def)

lemma RunDummy_not_found:
  assumes "exec sys environ call = Returned (- 1)" "pid \<noteq> - 1"
  shows "RunDummy sys environ (pid, errno) (header, call, n) (out, err) =
    Inr (out @ [header, ''-----------------------''], err @ LogSystemError (error_text sys) (not_found sys) (exec_intro_loc ''operator()'' n))"
  using assms by (simp add: RunDummy_def run_spawner_def CHECK_ERROR_def)

lemma small_decimals: "decimal 0 = ''0''" "decimal (Suc 0) = ''1''" "decimal (Suc (Suc 0)) = ''2''" "decimal (Suc (Suc (Suc 0))) = ''3''"
  by (simp_all add: decimal.simps char_of_digits)

lemma dummy_3: "dummy_main [a, b, c] environ = [''Dummy called with arguments: '', ''argv[0]='' @ a, ''argv[1]='' @ b, ''argv[2]='' @ c, env_line environ]"
  by (simp add: dummy_main_lines upt_rec small_decimals)

lemma dummy_4: "dummy_main [a, b, c, d] environ =
  [''Dummy called with arguments: '', ''argv[0]='' @ a, ''argv[1]='' @ b, ''argv[2]='' @ c, ''argv[3]='' @ d, env_line environ]"
  by (simp add: dummy_main_lines upt_rec small_decimals)

text \<open>
  The complete output of \<^verbatim>\<open>exec_intro\<close>, when the forks succeed and the program \<^verbatim>\<open>dummy\<close> is found both at \<^verbatim>\<open>./dummy\<close> and in the path: each call passes its
  arguments as they are, the first three pass the environment of the parent, the fourth an empty one and the last one its own; nothing goes to
  the standard error.
\<close>

lemma exec_intro_prints:
  assumes "program_at sys ''./dummy'' = Some dummy_main" "in_path sys ''dummy'' = Some p" "program_at sys p = Some dummy_main"
    "length forks = 5" "\<forall>r\<in>set forks. fst r \<noteq> - 1"
  shows "exec_intro_main sys environ forks = Inr (
    [''execl: '', ''Dummy called with arguments: '', ''argv[0]=dummy'', ''argv[1]=hello'', ''argv[2]=from'', ''argv[3]=execl'', env_line environ, ''-----------------------'',
     ''execv: '', ''Dummy called with arguments: '', ''argv[0]=./dummy'', ''argv[1]=vector'', ''argv[2]=data'', env_line environ, ''-----------------------'',
     ''execvp: '', ''Dummy called with arguments: '', ''argv[0]=dummy'', ''argv[1]=found'', ''argv[2]=in'', ''argv[3]=path'', env_line environ, ''-----------------------'',
     ''execve without env override: '', ''Dummy called with arguments: '', ''argv[0]=dummy'', ''argv[1]=with'', ''argv[2]=env'', ''EXAMPLE_ENV is not set'', ''-----------------------'',
     ''execve with env override: '', ''Dummy called with arguments: '', ''argv[0]=dummy'', ''argv[1]=with'', ''argv[2]=env'', ''EXAMPLE_ENV=322'', ''-----------------------''], [])"
proof -
  have found: "exec_path sys (Some ''./dummy'') argv e = Replaced (dummy_main argv e)" "exec_path sys (in_path sys ''dummy'') argv e = Replaced (dummy_main argv e)" for argv e
    using assms(1-3) by (simp_all add: exec_path_def)
  from assms(4) obtain r1 r2 r3 r4 r5 where forks: "forks = [r1, r2, r3, r4, r5]"
    by (auto simp: length_Suc_conv numeral_eq_Suc)
  have run: "RunDummy sys environ r (header, call, n) (out, err) = Inr (out @ header # ls @ [''-----------------------''], err)"
    if "r \<in> set forks" "exec sys environ call = Replaced ls" for r header call n out err ls
    using RunDummy_runs[OF that(2), of "fst r" "snd r"] assms(5) that(1) by simp
  have env: "env_line [] = ''EXAMPLE_ENV is not set''" "env_line [''EXAMPLE_ENV=322''] = ''EXAMPLE_ENV=322''" by (simp_all add: env_line_def)
  show ?thesis unfolding exec_intro_main_def spawners_def forks run_dummies.simps
    by (simp add: run[unfolded forks] found dummy_3 dummy_4 env)
qed

definition test_system :: exec_system where
  "test_system = \<lparr>program_at = (\<lambda>p. if p = ''./dummy'' \<or> p = ''/bin/dummy'' then Some dummy_main else None),
     in_path = (\<lambda>f. Some (''/bin/'' @ f)), error_text = (\<lambda>_. ''No such file or directory''), not_found = 2\<rparr>"

lemma exec_intro_prints_witness:
  "\<exists>out. exec_intro_main test_system [''HOME=/'', ''EXAMPLE_ENV=1''] (replicate 5 (7, 0)) = Inr (out, []) \<and> length out = 37 \<and> ''EXAMPLE_ENV=1'' \<in> set out"
proof -
  have e: "env_line [''HOME=/'', ''EXAMPLE_ENV=1''] = ''EXAMPLE_ENV=1''" by (simp add: env_line_def)
  show ?thesis
    using exec_intro_prints[of test_system "''/bin/dummy''" "replicate 5 (7, 0)" "[''HOME=/'', ''EXAMPLE_ENV=1'']"]
    unfolding e by (simp add: test_system_def)
qed

text \<open>The line \<^verbatim>\<open>spawner failed\<close> is never printed: a call that returns is caught by the error check before.\<close>

lemma spawner_failed_never_printed: "''spawner failed'' \<notin> set (snd (run_spawner sys environ sp))"
proof -
  have "''spawner failed'' \<notin> set (LogSystemError f e loc)" for f e loc by (simp add: LogSystemError_def)
  moreover have "exec sys environ call = Returned r \<Longrightarrow> r = - 1" for call r
    by (cases call) (auto simp: exec_path_def split: option.splits)
  ultimately show ?thesis by (auto simp: run_spawner_def CHECK_ERROR_def split: exec_result.splits prod.splits)
qed

lemma stoi_decimal_int: "0 \<le> fd \<Longrightarrow> fd < 2 ^ 31 \<Longrightarrow> stoi (decimal_int fd) = Some fd"
proof -
  assume r: "0 \<le> fd" "fd < 2 ^ 31"
  obtain c cs where d: "decimal (nat fd) = c # cs" "is_digit c" "list_all is_digit cs"
    using decimal_digits[of "nat fd"] by (cases "decimal (nat fd)") auto
  with r digit_not_space[OF d(2)] decimal_digits[of "nat fd"] show ?thesis
    by (simp add: decimal_int_def stoi_def Let_def list_all_iff takeWhile_eq_all_conv[THEN iffD2])
qed

lemma writer_inherits:
  assumes "0 \<le> fd" "fd < 2 ^ 31"
  shows "writer_main strerror [w, decimal_int fd] {fd} s =
     (ex_print ''Successfully written to file from child process'' (s\<lparr>example_txt := example_txt s @ writer_Message\<rparr>), Some 0)"
    and "writer_main strerror [w, decimal_int fd] {} s = (ex_log (LogSystemError strerror EBADF (writer_loc 16)) s, Some 1)"
  using stoi_decimal_int[OF assms] by (simp_all add: writer_main_def CHECK_ERROR_def)



end
