(* ===== verification/Signals_Sema.thy ===== *)
theory Signals_Sema
  imports Processes
begin

text \<open>
  \<^verbatim>\<open>ipc/sema.cpp\<close>, a child that waits on a named semaphore for its parent, and \<^verbatim>\<open>ipc/signals.cpp\<close>, a child that its parent controls with two signals. The lemmas give all outputs of the first, also with a semaphore
  that was left over, and show for the second when the child moves on and that the parent always gets to its end.
\<close>

section \<open>sema.cpp\<close>

datatype sema_line = Waiting_for_parent | Got_the_signal | Signaling_child

record sema_state =
  sema_value :: nat
  sema_named :: bool              \<comment> \<open>the name \<^verbatim>\<open>/my_own_sema\<close> exists\<close>
  sema_out :: "sema_line list"
  sema_child_ended :: bool
  sema_parent_ended :: bool

definition sema_exit :: "nat \<Rightarrow> nat \<Rightarrow> sema_state \<Rightarrow> sema_state" where
  "sema_exit i st g = (if i = 0 then g\<lparr>sema_parent_ended := True\<rparr> else g\<lparr>sema_child_ended := True\<rparr>)"

definition sema_print :: "sema_line \<Rightarrow> sema_state \<Rightarrow> sema_state effect" where
  "sema_print e g = Go_on (g\<lparr>sema_out := sema_out g @ [e]\<rparr>)"

definition sem_wait :: "sema_state \<Rightarrow> sema_state effect" where
  "sem_wait g = (case sema_value g of 0 \<Rightarrow> Blocked | Suc n \<Rightarrow> Go_on (g\<lparr>sema_value := n\<rparr>))"

definition sem_post :: "sema_state \<Rightarrow> sema_state effect" where
  "sem_post g = Go_on (g\<lparr>sema_value := Suc (sema_value g)\<rparr>)"

definition sem_unlink :: "sema_state \<Rightarrow> sema_state effect" where
  "sem_unlink g = (if sema_named g then Go_on (g\<lparr>sema_named := False\<rparr>) else Exits 1 g)"

definition sema_parent :: "sema_state script" where
  "sema_parent = [sema_print Signaling_child, sem_post, (\<lambda>g. if sema_child_ended g then Go_on g else Blocked), sem_unlink, Exits 0]"

text \<open>\<^verbatim>\<open>sem_close\<close> changes nothing that another process sees.\<close>

definition sema_child :: "sema_state script" where
  "sema_child = [sema_print Waiting_for_parent, sem_wait, sema_print Got_the_signal, Go_on, Exits 0]"

text \<open>\<^verbatim>\<open>sem_open\<close> with \<^verbatim>\<open>O_CREAT\<close> alone: a semaphore of that name that exists is opened with the value it has.\<close>

definition sema_main :: "nat option \<Rightarrow> sema_state script list \<times> sema_state" where
  "sema_main existing = ([sema_parent, sema_child],
     \<lparr>sema_value = (case existing of None \<Rightarrow> 0 | Some v \<Rightarrow> v), sema_named = True, sema_out = [], sema_child_ended = False, sema_parent_ended = False\<rparr>)"

definition sema_results :: "nat option \<Rightarrow> (sema_line list \<times> bool \<times> bool \<times> bool) set" where
  "sema_results existing = outcomes (prog_step (script_act sema_exit)) (sema_main existing) (stuck (prog_step (script_act sema_exit)))
     (\<lambda>t. (sema_out (snd t), sema_parent_ended (snd t), sema_child_ended (snd t), sema_named (snd t)))"

lemma sema_resultsI:
  assumes "map_option (\<lambda>ts. remdups (map (\<lambda>t. (sema_out (snd t), sema_parent_ended (snd t), sema_child_ended (snd t), sema_named (snd t))) ts))
    (explore n (script_act sema_exit) (sema_main existing)) = Some rs"
  shows "sema_results existing = set rs"
  unfolding sema_results_def by (rule explore_outcomes[OF assms])

lemma sema_results_fresh:
  "sema_results None = {([Signaling_child, Waiting_for_parent, Got_the_signal], True, True, False),
     ([Waiting_for_parent, Signaling_child, Got_the_signal], True, True, False)}"
proof -
  have "map_option (\<lambda>ts. remdups (map (\<lambda>t. (sema_out (snd t), sema_parent_ended (snd t), sema_child_ended (snd t), sema_named (snd t))) ts))
      (explore 10 (script_act sema_exit) (sema_main None)) =
    Some [([Signaling_child, Waiting_for_parent, Got_the_signal], True, True, False), ([Waiting_for_parent, Signaling_child, Got_the_signal], True, True, False)]"
    by code_simp
  from sema_resultsI[OF this] show ?thesis by simp
qed

lemma sema_results_stale:
  "sema_results (Some (Suc v)) = {([Signaling_child, Waiting_for_parent, Got_the_signal], True, True, False),
     ([Waiting_for_parent, Signaling_child, Got_the_signal], True, True, False), ([Waiting_for_parent, Got_the_signal, Signaling_child], True, True, False)}"
proof -
  have "map_option (\<lambda>ts. remdups (map (\<lambda>t. (sema_out (snd t), sema_parent_ended (snd t), sema_child_ended (snd t), sema_named (snd t))) ts))
      (explore 10 (script_act sema_exit) (sema_main (Some (Suc v)))) =
    Some [([Signaling_child, Waiting_for_parent, Got_the_signal], True, True, False), ([Waiting_for_parent, Signaling_child, Got_the_signal], True, True, False),
      ([Waiting_for_parent, Got_the_signal, Signaling_child], True, True, False)]"
    by code_simp
  from sema_resultsI[OF this] show ?thesis by simp
qed

text \<open>
  All outputs of \<^verbatim>\<open>sema\<close>. Whatever the scheduling both processes end and the name is removed. When the semaphore is new the child
  reports the signal only after the parent has announced it; when a semaphore of that name with a positive value was left by an earlier run, the child can report it before, as \<^verbatim>\<open>sem_open\<close> does not
  insist on a new one.
\<close>

lemma sema_outputs:
  "sema_results None = {([Signaling_child, Waiting_for_parent, Got_the_signal], True, True, False),
     ([Waiting_for_parent, Signaling_child, Got_the_signal], True, True, False)} \<and>
   sema_results (Some (Suc v)) = {([Signaling_child, Waiting_for_parent, Got_the_signal], True, True, False),
     ([Waiting_for_parent, Signaling_child, Got_the_signal], True, True, False), ([Waiting_for_parent, Got_the_signal, Signaling_child], True, True, False)}"
  using sema_results_fresh sema_results_stale by blast

section \<open>signals.cpp\<close>

datatype signal_line =
    Waiting_for_SIGUSR | Waiting_for_SIGTERM          \<comment> \<open>of the child\<close>
  | Sent_SIGUSR1 | Sent_SIGTERM | Parent_exited       \<comment> \<open>of the parent\<close>

datatype sig_parent_pc = SP_Kill_usr | SP_Log_usr | SP_Kill_term | SP_Log_term | SP_Wait | SP_Log_exit | SP_Done

datatype sig_child_pc =
    SC_Signal                     \<comment> \<open>\<^verbatim>\<open>signal(SIGUSR1, SigUsrHandler)\<close>\<close>
  | SC_Load                       \<comment> \<open>\<^verbatim>\<open>!g_sigUsrReceived.load()\<close>\<close>
  | SC_Print_usr
  | SC_Print_term
  | SC_Killed

record signal_state =
  usr_pending :: bool
  term_pending :: bool
  handler :: bool                 \<comment> \<open>\<^verbatim>\<open>SigUsrHandler\<close> is installed\<close>
  g_sigUsrReceived :: bool
  usr_sent :: bool
  child_killed :: bool
  signal_out :: "signal_line list"

definition sig_print :: "signal_line \<Rightarrow> signal_state \<Rightarrow> signal_state" where
  "sig_print e g = g\<lparr>signal_out := signal_out g @ [e]\<rparr>"

text \<open>\<^verbatim>\<open>kill\<close> does not fail: the child exists until the parent has waited for it.\<close>

fun sig_parent_act :: "sig_parent_pc \<Rightarrow> signal_state \<Rightarrow> (sig_parent_pc \<times> signal_state) option" where
  "sig_parent_act SP_Kill_usr g = Some (SP_Log_usr, g\<lparr>usr_pending := True, usr_sent := True\<rparr>)"
| "sig_parent_act SP_Log_usr g = Some (SP_Kill_term, sig_print Sent_SIGUSR1 g)"
| "sig_parent_act SP_Kill_term g = Some (SP_Log_term, g\<lparr>term_pending := True\<rparr>)"
| "sig_parent_act SP_Log_term g = Some (SP_Wait, sig_print Sent_SIGTERM g)"
| "sig_parent_act SP_Wait g = (if child_killed g then Some (SP_Log_exit, g) else None)"
| "sig_parent_act SP_Log_exit g = Some (SP_Done, sig_print Parent_exited g)"
| "sig_parent_act SP_Done g = None"

text \<open>A signal that is delivered to the child: the handler runs, or the process is killed.\<close>

datatype sig_choice = Deliver_usr | Deliver_term | Execute

fun sig_child_act :: "sig_choice \<Rightarrow> sig_child_pc \<Rightarrow> signal_state \<Rightarrow> (sig_child_pc \<times> signal_state) option" where
  "sig_child_act k SC_Killed g = None"
| "sig_child_act Deliver_usr c g =
     (if \<not> usr_pending g then None
      else if handler g then Some (c, g\<lparr>usr_pending := False, g_sigUsrReceived := True\<rparr>) else Some (SC_Killed, g\<lparr>usr_pending := False, child_killed := True\<rparr>))"
| "sig_child_act Deliver_term c g = (if term_pending g then Some (SC_Killed, g\<lparr>term_pending := False, child_killed := True\<rparr>) else None)"
| "sig_child_act Execute SC_Signal g = Some (SC_Load, g\<lparr>handler := True\<rparr>)"
| "sig_child_act Execute SC_Load g = Some (if g_sigUsrReceived g then SC_Print_term else SC_Print_usr, g)"
| "sig_child_act Execute SC_Print_usr g = Some (SC_Load, sig_print Waiting_for_SIGUSR g)"
| "sig_child_act Execute SC_Print_term g = Some (SC_Print_term, sig_print Waiting_for_SIGTERM g)"

definition sig_step :: "sig_parent_pc \<times> sig_child_pc \<times> signal_state \<Rightarrow> sig_parent_pc \<times> sig_child_pc \<times> signal_state \<Rightarrow> bool" where
  "sig_step = pair_step (\<lambda>_. sig_parent_act) sig_child_act"

definition signals_start :: "sig_parent_pc \<times> sig_child_pc \<times> signal_state" where
  "signals_start = (SP_Kill_usr, SC_Signal, \<lparr>usr_pending = False, term_pending = False, handler = False, g_sigUsrReceived = False, usr_sent = False, child_killed = False, signal_out = []\<rparr>)"

definition from_child :: "signal_line \<Rightarrow> bool" where
  "from_child e \<longleftrightarrow> e = Waiting_for_SIGUSR \<or> e = Waiting_for_SIGTERM"

text \<open>The lines the parent has printed, and whether it has sent the second signal.\<close>

definition sig_parent_lines :: "sig_parent_pc \<Rightarrow> signal_line list" where
  "sig_parent_lines p = (case p of SP_Kill_usr \<Rightarrow> [] | SP_Log_usr \<Rightarrow> [] | SP_Kill_term \<Rightarrow> [Sent_SIGUSR1] | SP_Log_term \<Rightarrow> [Sent_SIGUSR1]
     | SP_Wait \<Rightarrow> [Sent_SIGUSR1, Sent_SIGTERM] | SP_Log_exit \<Rightarrow> [Sent_SIGUSR1, Sent_SIGTERM] | SP_Done \<Rightarrow> [Sent_SIGUSR1, Sent_SIGTERM, Parent_exited])"

definition term_was_sent :: "sig_parent_pc \<Rightarrow> bool" where
  "term_was_sent p \<longleftrightarrow> p \<notin> {SP_Kill_usr, SP_Log_usr, SP_Kill_term}"

text \<open>The lines of the child: first the ones before the handler has run, then the others.\<close>

definition sig_child_lines :: "sig_child_pc \<Rightarrow> signal_line list \<Rightarrow> bool" where
  "sig_child_lines c out \<longleftrightarrow> (\<exists>m n. filter from_child out = replicate m Waiting_for_SIGUSR @ replicate n Waiting_for_SIGTERM \<and>
     (c \<in> {SC_Signal, SC_Load, SC_Print_usr} \<longrightarrow> n = 0))"

definition sig_flags :: "sig_parent_pc \<Rightarrow> sig_child_pc \<Rightarrow> signal_state \<Rightarrow> bool" where
  "sig_flags p c g \<longleftrightarrow> (child_killed g \<longleftrightarrow> c = SC_Killed) \<and> (term_was_sent p \<longrightarrow> term_pending g \<or> c = SC_Killed) \<and> (usr_pending g \<longrightarrow> usr_sent g) \<and>
     (g_sigUsrReceived g \<longrightarrow> usr_sent g \<and> handler g) \<and> (c = SC_Print_term \<longrightarrow> g_sigUsrReceived g) \<and> (p = SP_Log_exit \<or> p = SP_Done \<longrightarrow> child_killed g)"

fun sig_inv :: "sig_parent_pc \<times> sig_child_pc \<times> signal_state \<Rightarrow> bool" where
  "sig_inv (p, c, g) \<longleftrightarrow> filter (\<lambda>e. \<not> from_child e) (signal_out g) = sig_parent_lines p \<and> sig_child_lines c (signal_out g) \<and> sig_flags p c g"

lemma sig_parent_flags: "sig_flags p c g \<Longrightarrow> sig_parent_act p g = Some (p', g') \<Longrightarrow> sig_flags p' c g'"
  by (cases p) (auto simp: sig_flags_def term_was_sent_def sig_print_def split: if_splits)

lemma sig_parent_prints:
  "sig_parent_act p g = Some (p', g') \<Longrightarrow> \<exists>new. signal_out g' = signal_out g @ new \<and> sig_parent_lines p' = sig_parent_lines p @ new \<and> filter from_child new = []"
  by (cases p) (auto simp: sig_parent_lines_def sig_print_def from_child_def split: if_splits)

lemma sig_parent_step:
  assumes "sig_inv (p, c, g)" "sig_parent_act p g = Some (p', g')"
  shows "sig_inv (p', c, g')"
proof -
  from sig_parent_prints[OF assms(2)] obtain new where new: "signal_out g' = signal_out g @ new" "sig_parent_lines p' = sig_parent_lines p @ new"
    "filter from_child new = []" by blast
  then have "filter (\<lambda>e. \<not> from_child e) new = new" by (simp add: filter_empty_conv)
  with new assms(1) sig_parent_flags[OF _ assms(2)] show ?thesis by (simp add: sig_child_lines_def)
qed

lemma sig_child_lines_more:
  "sig_child_lines SC_Print_usr out \<Longrightarrow> sig_child_lines SC_Load (out @ [Waiting_for_SIGUSR])"
  "sig_child_lines SC_Print_term out \<Longrightarrow> sig_child_lines SC_Print_term (out @ [Waiting_for_SIGTERM])"
proof -
  assume "sig_child_lines SC_Print_usr out"
  then obtain m where "filter from_child out = replicate m Waiting_for_SIGUSR" by (auto simp: sig_child_lines_def)
  then have "filter from_child (out @ [Waiting_for_SIGUSR]) = replicate (Suc m) Waiting_for_SIGUSR @ replicate 0 Waiting_for_SIGTERM"
    by (simp add: from_child_def replicate_append_same)
  then show "sig_child_lines SC_Load (out @ [Waiting_for_SIGUSR])" unfolding sig_child_lines_def by blast
next
  assume "sig_child_lines SC_Print_term out"
  then obtain m n where "filter from_child out = replicate m Waiting_for_SIGUSR @ replicate n Waiting_for_SIGTERM" by (auto simp: sig_child_lines_def)
  then have "filter from_child (out @ [Waiting_for_SIGTERM]) = replicate m Waiting_for_SIGUSR @ replicate (Suc n) Waiting_for_SIGTERM"
    by (simp add: from_child_def replicate_append_same)
  then show "sig_child_lines SC_Print_term (out @ [Waiting_for_SIGTERM])" unfolding sig_child_lines_def by blast
qed

lemma sig_child_lines_weaken: "sig_child_lines c out \<Longrightarrow> c' \<in> {SC_Print_term, SC_Killed} \<or> c \<in> {SC_Signal, SC_Load, SC_Print_usr} \<Longrightarrow> sig_child_lines c' out"
  by (auto simp: sig_child_lines_def)

text \<open>What an action of the child does to its place and to the output.\<close>

lemma sig_child_act_cases:
  assumes "sig_child_act k c g = Some (c', g')"
  obtains (silent) "signal_out g' = signal_out g" "c' \<in> {SC_Print_term, SC_Killed} \<or> c' = c \<or> c \<in> {SC_Signal, SC_Load, SC_Print_usr}"
  | (usr) "c = SC_Print_usr" "c' = SC_Load" "signal_out g' = signal_out g @ [Waiting_for_SIGUSR]"
  | (trm) "c = SC_Print_term" "c' = SC_Print_term" "signal_out g' = signal_out g @ [Waiting_for_SIGTERM]"
proof (cases k)
  case Deliver_usr
  with assms have "signal_out g' = signal_out g" "c' = SC_Killed \<or> c' = c" by (cases c; auto split: if_splits)+
  then show ?thesis by (intro silent) auto
next
  case Deliver_term
  with assms have "signal_out g' = signal_out g" "c' = SC_Killed" by (cases c; auto split: if_splits)+
  then show ?thesis by (intro silent) auto
next
  case Execute
  with assms show ?thesis
    by (cases c) (auto simp: sig_print_def split: if_splits intro: silent usr trm)
qed

lemma sig_child_outputs:
  assumes "sig_child_lines c (signal_out g)" "sig_child_act k c g = Some (c', g')"
  shows "sig_child_lines c' (signal_out g') \<and> filter (\<lambda>e. \<not> from_child e) (signal_out g') = filter (\<lambda>e. \<not> from_child e) (signal_out g)"
  using assms(2)
proof (cases rule: sig_child_act_cases)
  case silent
  then show ?thesis using assms(1) sig_child_lines_weaken[OF assms(1), of c'] by auto
next
  case usr
  then show ?thesis using assms(1) sig_child_lines_more(1) by (simp add: from_child_def)
next
  case trm
  then show ?thesis using assms(1) sig_child_lines_more(2) by (simp add: from_child_def)
qed

lemma sig_child_flags: "sig_flags p c g \<Longrightarrow> sig_child_act k c g = Some (c', g') \<Longrightarrow> sig_flags p c' g'"
  by (cases k; cases c) (auto simp: sig_flags_def sig_print_def split: if_splits)

lemma sig_child_step:
  assumes "sig_inv (p, c, g)" "sig_child_act k c g = Some (c', g')"
  shows "sig_inv (p, c', g')"
  using assms(1) sig_child_outputs[OF _ assms(2)] sig_child_flags[OF _ assms(2)] by auto

definition sig_done :: "sig_parent_pc \<times> sig_child_pc \<times> signal_state \<Rightarrow> bool" where
  "sig_done s \<longleftrightarrow> fst s = SP_Done"

fun sig_rank :: "sig_parent_pc \<times> sig_child_pc \<times> signal_state \<Rightarrow> nat" where
  "sig_rank (p, c, g) = (case p of SP_Kill_usr \<Rightarrow> 7 | SP_Log_usr \<Rightarrow> 6 | SP_Kill_term \<Rightarrow> 5 | SP_Log_term \<Rightarrow> 4 | SP_Wait \<Rightarrow> 3 | SP_Log_exit \<Rightarrow> 2 | SP_Done \<Rightarrow> 0) +
     (if c = SC_Killed then 0 else 1)"

lemma sig_advances:
  assumes "sig_flags p c g" "p \<noteq> SP_Done"
  shows "\<exists>t. sig_step (p, c, g) t \<and> sig_rank t < sig_rank (p, c, g)"
proof (cases "p = SP_Wait \<and> c \<noteq> SC_Killed")
  case True
  with assms have "term_pending g" by (auto simp: sig_flags_def term_was_sent_def)
  with True have "sig_child_act Deliver_term c g = Some (SC_Killed, g\<lparr>term_pending := False, child_killed := True\<rparr>)" by (cases c) auto
  then have "sig_step (p, c, g) (p, SC_Killed, g\<lparr>term_pending := False, child_killed := True\<rparr>)" unfolding sig_step_def by (rule pair_child)
  moreover have "sig_rank (p, SC_Killed, g\<lparr>term_pending := False, child_killed := True\<rparr>) < sig_rank (p, c, g)" using True by simp
  ultimately show ?thesis by blast
next
  case False
  then have "\<exists>p' g'. sig_parent_act p g = Some (p', g') \<and> sig_rank (p', c, g') < sig_rank (p, c, g)"
    using assms by (cases p) (auto simp: sig_flags_def)
  then show ?thesis unfolding sig_step_def by (blast intro: pair_parent)
qed

interpretation sig: finishing_steps "\<lambda>s. s = signals_start" sig_step sig_inv sig_done sig_rank
proof unfold_locales
  show "sig_inv s" if "s = signals_start" for s using that
    by (simp add: signals_start_def sig_parent_lines_def sig_child_lines_def sig_flags_def term_was_sent_def)
next
  fix s t assume inv: "sig_inv s" and st: "sig_step s t"
  obtain p c g where s: "s = (p, c, g)" by (cases s)
  from st[unfolded sig_step_def s] show "sig_inv t"
    by (rule pair_step_keeps) (rule sig_parent_step[OF inv[unfolded s]] sig_child_step[OF inv[unfolded s]]; assumption)+
next
  fix s assume inv: "sig_inv s" and nf: "\<not> sig_done s"
  obtain p c g where s: "s = (p, c, g)" by (cases s)
  show "\<exists>t. sig_step s t \<and> sig_rank t < sig_rank s" unfolding s by (rule sig_advances) (use inv nf in \<open>simp_all add: s sig_done_def\<close>)
qed

text \<open>The signal comes before the handler is installed.\<close>

lemma early_signal_kills: "\<exists>g. sig_step\<^sup>*\<^sup>* signals_start (SP_Done, SC_Killed, g) \<and> filter from_child (signal_out g) = []"
proof -
  have "map_option (\<lambda>(p, c, g). (p, c, filter from_child (signal_out g))) (run_pair (\<lambda>_. sig_parent_act) sig_child_act
      [(True, Execute), (False, Deliver_usr), (True, Execute), (True, Execute), (True, Execute), (True, Execute), (True, Execute)] signals_start)
    = Some (SP_Done, SC_Killed, [])" by code_simp
  then show ?thesis unfolding sig_step_def using run_pair_reachable by fastforce
qed



end
