(* ===== verification/Futures.thy ===== *)
theory Futures
  imports Prelude
begin

text \<open>
  \<^verbatim>\<open>structured_concurrency/future.cpp\<close>, \<^verbatim>\<open>shared_future.cpp\<close> and \<^verbatim>\<open>async.cpp\<close>: a thread computes a value or an exception for a future, and \<^verbatim>\<open>main\<close> gets it. The lemmas give the output of the three
  programs for any list of arguments and all schedules.
\<close>

section \<open>The programs\<close>

datatype worker_result = Int_value int | Exception string

definition fits_int :: "int \<Rightarrow> bool" where
  "fits_int v \<longleftrightarrow> - (2 ^ 31) \<le> v \<and> v < 2 ^ 31"

text \<open>\<open>None\<close>: \<^verbatim>\<open>n * 2\<close> overflows, which is undefined.\<close>

definition WorkerFunction :: "int \<Rightarrow> worker_result option" where
  "WorkerFunction n = (if n = 228 then Some (Exception ''Invalid value'') else if fits_int (n * 2) then Some (Int_value (n * 2)) else None)"

datatype future_program = With_future | With_two_gets | With_async

datatype out_piece = Str string | Num int | Newline

datatype worker_phase = No_worker | Working int | Returning | Ended_worker

record future_state =
  promised :: "worker_result option"      \<comment> \<open>the shared state\<close>
  valid :: bool                           \<comment> \<open>\<^verbatim>\<open>future.valid()\<close>\<close>
  phase :: worker_phase
  future_ub :: bool
  future_out :: "out_piece list"

text \<open>\<^verbatim>\<open>RunWorker(n)\<close> in \<^verbatim>\<open>main\<close>, with the calls that are still to come.\<close>

datatype future_pc =
    F_Call "int list"
  | F_Print int "int list"                \<comment> \<open>\<^verbatim>\<open>std::cout << "Result: "\<close>, which comes before \<^verbatim>\<open>future.get()\<close>\<close>
  | F_Get int "int list"
  | F_Value int "int list"                \<comment> \<open>\<^verbatim>\<open><< value << "\\n"\<close>\<close>
  | F_Print_again "int list"              \<comment> \<open>\<^verbatim>\<open>"Another try: "\<close>\<close>
  | F_Get_again "int list"
  | F_Unwind string "int list"            \<comment> \<open>\<^verbatim>\<open>async\<close>: the future is destroyed before the handler and waits for the thread\<close>
  | F_Catch string "int list"
  | F_Join "int list"                     \<comment> \<open>\<^verbatim>\<open>~jthread\<close>, or the destructor of the future of \<^verbatim>\<open>async\<close>\<close>
  | F_Undefined
  | F_Returned

definition put :: "out_piece list \<Rightarrow> future_state \<Rightarrow> future_state" where
  "put ps g = g\<lparr>future_out := future_out g @ ps\<rparr>"

text \<open>
  \<^verbatim>\<open>get\<close> leaves a \<^verbatim>\<open>std::future\<close> without a shared state. A second call is undefined by the standard, which recommends to throw \<^verbatim>\<open>std::future_error\<close>; \<open>no_state\<close> is the text of that exception.
\<close>

fun main_act :: "future_program \<Rightarrow> string option \<Rightarrow> future_pc \<Rightarrow> future_state \<Rightarrow> (future_pc \<times> future_state) option" where
  "main_act pr no_state (F_Call ns) g =
     (case ns of [] \<Rightarrow> Some (F_Returned, g) | n # ns' \<Rightarrow> Some (F_Print n ns', g\<lparr>promised := None, valid := True, phase := Working n\<rparr>))"
| "main_act pr no_state (F_Print n ns) g = Some (F_Get n ns, put [Str ''Result: ''] g)"
| "main_act pr no_state (F_Get n ns) g =
     (case promised g of None \<Rightarrow> None
      | Some (Int_value v) \<Rightarrow> Some (F_Value v ns, g\<lparr>valid := False\<rparr>)
      | Some (Exception e) \<Rightarrow> Some (if pr = With_async then F_Unwind e ns else F_Catch e ns, g\<lparr>valid := False\<rparr>))"
| "main_act pr no_state (F_Value v ns) g =
     Some (if pr = With_two_gets then F_Print_again ns else F_Join ns, put [Num v, Newline] g)"
| "main_act pr no_state (F_Print_again ns) g = Some (F_Get_again ns, put [Str ''Another try: ''] g)"
| "main_act pr no_state (F_Get_again ns) g =
     (if valid g then None
      else case no_state of None \<Rightarrow> Some (F_Undefined, g\<lparr>future_ub := True\<rparr>) | Some e \<Rightarrow> Some (F_Catch e ns, g))"
| "main_act pr no_state (F_Unwind e ns) g = (if phase g = Ended_worker then Some (F_Catch e ns, g) else None)"
| "main_act pr no_state (F_Catch e ns) g = Some (F_Join ns, put [Str ''Exception caught: '', Str e, Newline] g)"
| "main_act pr no_state (F_Join ns) g = (if phase g = Ended_worker then Some (F_Call ns, g) else None)"
| "main_act pr no_state F_Undefined g = None"
| "main_act pr no_state F_Returned g = None"

text \<open>The thread: \<^verbatim>\<open>set_value\<close> or \<^verbatim>\<open>set_exception\<close>, then it ends.\<close>

definition thread_act :: "unit \<Rightarrow> future_state \<Rightarrow> (unit \<times> future_state) option" where
  "thread_act u g = (case phase g of
       Working n \<Rightarrow> (case WorkerFunction n of None \<Rightarrow> Some ((), g\<lparr>future_ub := True, phase := Returning\<rparr>)
         | Some r \<Rightarrow> Some ((), g\<lparr>promised := Some r, phase := Returning\<rparr>))
     | Returning \<Rightarrow> Some ((), g\<lparr>phase := Ended_worker\<rparr>)
     | _ \<Rightarrow> None)"

definition future_step :: "future_program \<Rightarrow> string option \<Rightarrow> future_pc \<times> unit \<times> future_state \<Rightarrow> future_pc \<times> unit \<times> future_state \<Rightarrow> bool" where
  "future_step pr no_state = pair_step (\<lambda>_ :: unit. main_act pr no_state) (\<lambda>_ :: unit. thread_act)"

definition future_start :: "int list \<Rightarrow> future_pc \<times> unit \<times> future_state" where
  "future_start ns = (F_Call ns, (), \<lparr>promised = None, valid = False, phase = No_worker, future_ub = False, future_out = []\<rparr>)"

text \<open>\<^verbatim>\<open>RunWorker(10); RunWorker(228);\<close>\<close>

definition future_main :: "future_pc \<times> unit \<times> future_state" where
  "future_main = future_start [10, 228]"

definition shared_future_step :: "string option \<Rightarrow> future_pc \<times> unit \<times> future_state \<Rightarrow> future_pc \<times> unit \<times> future_state \<Rightarrow> bool" where
  "shared_future_step no_state = future_step With_two_gets no_state"

definition async_step :: "future_pc \<times> unit \<times> future_state \<Rightarrow> future_pc \<times> unit \<times> future_state \<Rightarrow> bool" where
  "async_step = future_step With_async (Some [])"

section \<open>The output\<close>

text \<open>What a call prints from its value on.\<close>

definition after_get :: "future_program \<Rightarrow> string \<Rightarrow> worker_result \<Rightarrow> out_piece list" where
  "after_get pr e r = (case r of
       Int_value v \<Rightarrow> [Num v, Newline] @ (if pr = With_two_gets then [Str ''Another try: '', Str ''Exception caught: '', Str e, Newline] else [])
     | Exception t \<Rightarrow> [Str ''Exception caught: '', Str t, Newline])"

definition prints_for :: "future_program \<Rightarrow> string \<Rightarrow> int \<Rightarrow> out_piece list" where
  "prints_for pr e n = Str ''Result: '' # after_get pr e (the (WorkerFunction n))"

fun still_to_print :: "future_program \<Rightarrow> string \<Rightarrow> future_pc \<Rightarrow> out_piece list" where
  "still_to_print pr e (F_Call ns) = concat (map (prints_for pr e) ns)"
| "still_to_print pr e (F_Print n ns) = prints_for pr e n @ concat (map (prints_for pr e) ns)"
| "still_to_print pr e (F_Get n ns) = after_get pr e (the (WorkerFunction n)) @ concat (map (prints_for pr e) ns)"
| "still_to_print pr e (F_Value v ns) = after_get pr e (Int_value v) @ concat (map (prints_for pr e) ns)"
| "still_to_print pr e (F_Print_again ns) = [Str ''Another try: '', Str ''Exception caught: '', Str e, Newline] @ concat (map (prints_for pr e) ns)"
| "still_to_print pr e (F_Get_again ns) = [Str ''Exception caught: '', Str e, Newline] @ concat (map (prints_for pr e) ns)"
| "still_to_print pr e (F_Unwind t ns) = [Str ''Exception caught: '', Str t, Newline] @ concat (map (prints_for pr e) ns)"
| "still_to_print pr e (F_Catch t ns) = [Str ''Exception caught: '', Str t, Newline] @ concat (map (prints_for pr e) ns)"
| "still_to_print pr e (F_Join ns) = concat (map (prints_for pr e) ns)"
| "still_to_print pr e F_Undefined = []"
| "still_to_print pr e F_Returned = []"

definition calls_left :: "future_pc \<Rightarrow> int list" where
  "calls_left p = (case p of F_Call ns \<Rightarrow> ns | F_Print n ns \<Rightarrow> n # ns | F_Get n ns \<Rightarrow> n # ns | F_Value _ ns \<Rightarrow> ns | F_Print_again ns \<Rightarrow> ns | F_Get_again ns \<Rightarrow> ns
     | F_Unwind _ ns \<Rightarrow> ns | F_Catch _ ns \<Rightarrow> ns | F_Join ns \<Rightarrow> ns | F_Undefined \<Rightarrow> [] | F_Returned \<Rightarrow> [])"

text \<open>The thread and the shared state belong to the call that is running.\<close>

definition worker_of :: "future_pc \<Rightarrow> future_state \<Rightarrow> bool" where
  "worker_of p g \<longleftrightarrow> (case p of
       F_Call _ \<Rightarrow> phase g = No_worker \<or> phase g = Ended_worker
     | F_Returned \<Rightarrow> phase g = No_worker \<or> phase g = Ended_worker
     | F_Undefined \<Rightarrow> False
     | F_Print n _ \<Rightarrow> phase g = Working n \<and> promised g = None \<or> phase g \<in> {Returning, Ended_worker} \<and> promised g = WorkerFunction n
     | F_Get n _ \<Rightarrow> phase g = Working n \<and> promised g = None \<or> phase g \<in> {Returning, Ended_worker} \<and> promised g = WorkerFunction n
     | _ \<Rightarrow> phase g \<in> {Returning, Ended_worker} \<and> \<not> valid g)"

definition int_args :: "int list \<Rightarrow> bool" where
  "int_args ns \<longleftrightarrow> (\<forall>n\<in>set ns. fits_int (n * 2))"

fun future_inv :: "future_program \<Rightarrow> string \<Rightarrow> int list \<Rightarrow> future_pc \<times> unit \<times> future_state \<Rightarrow> bool" where
  "future_inv pr e ns (p, u, g) \<longleftrightarrow> future_out g @ still_to_print pr e p = concat (map (prints_for pr e) ns) \<and> int_args (calls_left p) \<and> worker_of p g \<and> \<not> future_ub g"

lemma WorkerFunction_defined: "fits_int (n * 2) \<Longrightarrow> \<exists>r. WorkerFunction n = Some r"
  by (simp add: WorkerFunction_def)

lemma thread_step:
  assumes "future_inv pr e ns (p, u, g)" "thread_act u g = Some (u', g')"
  shows "future_inv pr e ns (p, u', g')"
proof (cases "phase g")
  case (Working n)
  then have "n \<in> set (calls_left p)" using assms(1) by (cases p) (auto simp: worker_of_def calls_left_def)
  then obtain r where r: "WorkerFunction n = Some r" using assms(1) WorkerFunction_defined[of n] by (auto simp: int_args_def)
  then have "g' = g\<lparr>promised := Some r, phase := Returning\<rparr>" using assms(2) Working by (simp add: thread_act_def)
  moreover have "worker_of p (g\<lparr>promised := Some r, phase := Returning\<rparr>)" using assms(1) Working r by (cases p) (auto simp: worker_of_def)
  ultimately show ?thesis using assms(1) by simp
next
  case Returning
  then have "g' = g\<lparr>phase := Ended_worker\<rparr>" using assms(2) by (simp add: thread_act_def)
  moreover have "worker_of p (g\<lparr>phase := Ended_worker\<rparr>)" using assms(1) Returning by (cases p) (auto simp: worker_of_def)
  ultimately show ?thesis using assms(1) by simp
qed (use assms(2) in \<open>simp_all add: thread_act_def\<close>)

lemma get_result: "worker_of (F_Get n xs) g \<Longrightarrow> promised g = Some r \<Longrightarrow> WorkerFunction n = Some r \<and> phase g \<in> {Returning, Ended_worker}"
  by (auto simp: worker_of_def)

text \<open>The actions of \<^verbatim>\<open>main\<close> print what is to be printed, and keep the rest of the invariant.\<close>

lemma main_prints:
  assumes "main_act pr (Some e) p g = Some (p', g')" "worker_of p g"
  shows "future_out g' @ still_to_print pr e p' = future_out g @ still_to_print pr e p"
proof (cases "\<exists>n xs. p = F_Get n xs")
  case True
  then obtain n xs where p: "p = F_Get n xs" by blast
  with assms obtain r where r: "promised g = Some r" by (auto split: option.splits)
  then have "WorkerFunction n = Some r" using get_result assms(2) p by blast
  then show ?thesis using assms(1) p r by (cases r) (auto simp: after_get_def split: if_splits)
next
  case False
  then show ?thesis using assms(1) by (cases p) (auto simp: prints_for_def after_get_def put_def split: list.splits if_splits)
qed

lemma main_keeps:
  assumes "main_act pr (Some e) p g = Some (p', g')" "worker_of p g"
  shows "worker_of p' g'" and "set (calls_left p') \<subseteq> set (calls_left p)" and "future_ub g' = future_ub g"
proof -
  have "worker_of p' g' \<and> set (calls_left p') \<subseteq> set (calls_left p) \<and> future_ub g' = future_ub g"
  proof (cases "\<exists>n xs. p = F_Get n xs")
    case True
    then obtain n xs where p: "p = F_Get n xs" by blast
    with assms obtain r where r: "promised g = Some r" by (auto split: option.splits)
    then have "phase g \<in> {Returning, Ended_worker}" using get_result assms(2) p by blast
    then show ?thesis using assms(1) p r by (cases r) (auto simp: worker_of_def calls_left_def split: if_splits)
  next
    case False
    then show ?thesis using assms by (cases p) (auto simp: worker_of_def calls_left_def put_def split: list.splits if_splits)
  qed
  then show "worker_of p' g'" and "set (calls_left p') \<subseteq> set (calls_left p)" and "future_ub g' = future_ub g" by blast+
qed

lemma main_step:
  assumes "future_inv pr e ns (p, u, g)" "main_act pr (Some e) p g = Some (p', g')"
  shows "future_inv pr e ns (p', u, g')"
proof -
  have w: "worker_of p g" using assms(1) by simp
  show ?thesis using main_prints[OF assms(2) w] main_keeps[OF assms(2) w] assms(1) by (auto simp: int_args_def)
qed

section \<open>Termination\<close>

definition future_left :: "future_pc \<Rightarrow> nat" where
  "future_left p = (case p of F_Call ns \<Rightarrow> 20 * length ns + 1 | F_Print _ ns \<Rightarrow> 20 * length ns + 10 | F_Get _ ns \<Rightarrow> 20 * length ns + 9 | F_Value _ ns \<Rightarrow> 20 * length ns + 8
     | F_Print_again ns \<Rightarrow> 20 * length ns + 7 | F_Get_again ns \<Rightarrow> 20 * length ns + 6 | F_Unwind _ ns \<Rightarrow> 20 * length ns + 5 | F_Catch _ ns \<Rightarrow> 20 * length ns + 4
     | F_Join ns \<Rightarrow> 20 * length ns + 3 | F_Undefined \<Rightarrow> 0 | F_Returned \<Rightarrow> 0)"

definition phase_left :: "worker_phase \<Rightarrow> nat" where
  "phase_left w = (case w of Working _ \<Rightarrow> 2 | Returning \<Rightarrow> 1 | _ \<Rightarrow> 0)"

fun future_rank :: "future_pc \<times> unit \<times> future_state \<Rightarrow> nat" where
  "future_rank (p, u, g) = future_left p + phase_left (phase g)"

lemma main_rank: "main_act pr st p g = Some (p', g') \<Longrightarrow> future_rank (p', u, g') < future_rank (p, u, g)"
  by (cases p) (auto simp: future_left_def phase_left_def put_def split: list.splits option.splits worker_result.splits if_splits worker_phase.splits)

lemma thread_rank: "thread_act u g = Some (u', g') \<Longrightarrow> future_rank (p, u', g') < future_rank (p, u, g)"
  by (auto simp: thread_act_def phase_left_def split: worker_phase.splits option.splits)

definition future_done :: "future_pc \<times> unit \<times> future_state \<Rightarrow> bool" where
  "future_done s \<longleftrightarrow> fst s = F_Returned"

lemma future_progress:
  assumes "worker_of p g" "int_args (calls_left p)" "p \<noteq> F_Returned"
  shows "main_act pr (Some e) p g \<noteq> None \<or> thread_act u g \<noteq> None"
proof (cases "phase g \<in> {No_worker, Ended_worker}")
  case True
  have "main_act pr (Some e) p g \<noteq> None"
  proof (cases "\<exists>n xs. p = F_Get n xs")
    case get: True
    then obtain n xs where p: "p = F_Get n xs" by blast
    then have "promised g = WorkerFunction n" using assms(1) True by (auto simp: worker_of_def)
    moreover obtain r where "WorkerFunction n = Some r" using assms(2) p WorkerFunction_defined[of n] by (auto simp: int_args_def calls_left_def)
    ultimately show ?thesis using p by (cases r) auto
  next
    case False
    then show ?thesis using assms(1,3) True by (cases p) (auto simp: worker_of_def split: list.splits)
  qed
  then show ?thesis by blast
next
  case False
  then have "thread_act u g \<noteq> None" by (cases "phase g") (auto simp: thread_act_def split: option.splits)
  then show ?thesis by blast
qed

interpretation futures: terminating_steps "\<lambda>s. s = future_start ns \<and> int_args ns" "future_step pr (Some e)" "future_inv pr e ns" future_done future_rank for pr e ns
proof unfold_locales
  show "future_inv pr e ns s" if "s = future_start ns \<and> int_args ns" for s
    using that by (simp add: future_start_def calls_left_def worker_of_def)
next
  fix s t assume inv: "future_inv pr e ns s" and st: "future_step pr (Some e) s t"
  obtain p u g where s: "s = (p, u, g)" by (cases s)
  from st[unfolded future_step_def s] show "future_inv pr e ns t"
    by (rule pair_step_keeps) (rule main_step[OF inv[unfolded s]] thread_step[OF inv[unfolded s]]; assumption)+
  from st[unfolded future_step_def s] show "future_rank t < future_rank s" unfolding s
    by (rule pair_step_keeps) (rule main_rank thread_rank; assumption)+
next
  fix s assume inv: "future_inv pr e ns s" and nf: "\<not> future_done s"
  obtain p u g where s: "s = (p, u, g)" by (cases s)
  from inv nf have "main_act pr (Some e) p g \<noteq> None \<or> thread_act u g \<noteq> None"
    by (intro future_progress) (simp_all add: s future_done_def)
  then show "\<exists>t. future_step pr (Some e) s t" unfolding s future_step_def by (auto intro: pair_parent pair_child)
qed

text \<open>
  C23. The three programs with futures, for any arguments whose double is an \<^verbatim>\<open>int\<close> and every scheduling: every run ends after a number of actions linear in the number of calls, and the only
  possible output is that of the calls one after the other. A call prints the double of its argument; for 228 it prints the text of the exception, after the beginning of the line that was written before \<^verbatim>\<open>get\<close>. With two
  calls of \<^verbatim>\<open>get\<close> the second one always fails, with the error text of the library, since the first has taken the shared state: on a library that throws there, as the standard recommends.
\<close>

theorem future_programs_print:
  assumes "int_args ns"
  shows "outcomes (future_step pr (Some e)) (future_start ns) future_done (\<lambda>(p, u, g). (future_out g, future_ub g)) = {(concat (map (prints_for pr e) ns), False)} \<and>
    (stuck (future_step pr (Some e)) s \<and> (future_step pr (Some e))\<^sup>*\<^sup>* (future_start ns) s \<longrightarrow> future_done s) \<and>
    ((future_step pr (Some e) ^^ k) (future_start ns) s \<longrightarrow> k \<le> 20 * length ns + 1)"
proof -
  have init: "future_start ns = future_start ns \<and> int_args ns" using assms by simp
  have "outcomes (future_step pr (Some e)) (future_start ns) future_done (\<lambda>(p, u, g). (future_out g, future_ub g)) = {(concat (map (prints_for pr e) ns), False)}"
  proof (rule outcomes_unique)
    fix t assume r: "(future_step pr (Some e))\<^sup>*\<^sup>* (future_start ns) t" and d: "future_done t"
    obtain p u g where t: "t = (p, u, g)" by (cases t)
    from futures.inv_reachable[OF init r] d show "(case t of (p, u, g) \<Rightarrow> (future_out g, future_ub g)) = (concat (map (prints_for pr e) ns), False)"
      by (simp add: t future_done_def)
  next
    show "\<exists>t. (future_step pr (Some e))\<^sup>*\<^sup>* (future_start ns) t \<and> future_done t" by (rule futures.reaches_final[OF init rtranclp.rtrancl_refl])
  qed
  moreover have "future_rank (future_start ns) = 20 * length ns + 1" by (simp add: future_start_def future_left_def phase_left_def)
  then have "k \<le> 20 * length ns + 1" if "(future_step pr (Some e) ^^ k) (future_start ns) s"
    using futures.run_bounded[OF futures.inv_init[OF init] that] by linarith
  ultimately show ?thesis using futures.stuck_final[OF init] by blast
qed

theorem future_programs_print_witness:
  "outcomes (shared_future_step (Some ''No associated state'')) future_main future_done (\<lambda>(p, u, g). (future_out g, future_ub g)) =
    {([Str ''Result: '', Num 20, Newline, Str ''Another try: '', Str ''Exception caught: '', Str ''No associated state'', Newline,
       Str ''Result: '', Str ''Exception caught: '', Str ''Invalid value'', Newline], False)} \<and>
   outcomes async_step future_main future_done (\<lambda>(p, u, g). (future_out g, future_ub g)) =
    {([Str ''Result: '', Num 20, Newline, Str ''Result: '', Str ''Exception caught: '', Str ''Invalid value'', Newline], False)}"
proof -
  have "int_args [10, 228]" by (simp add: int_args_def fits_int_def)
  from future_programs_print[OF this, of With_two_gets "''No associated state''"] future_programs_print[OF this, of With_async "[]"] show ?thesis
    by (simp add: shared_future_step_def async_step_def future_main_def prints_for_def after_get_def WorkerFunction_def fits_int_def)
qed

end
