(* ===== verification/Senders.thy ===== *)
theory Senders
  imports Prelude "HOL-Library.Multiset"
begin

text \<open>
  \<^verbatim>\<open>structured_concurrency/continuations.cpp\<close> and \<^verbatim>\<open>stdexec_intro.cpp\<close>: chains of functions run on a thread pool by the library stdexec. The library is not part of the repository: it is a parameter, with its documented behaviour as a
  hypothesis. The lemmas give all outputs of the two programs.
\<close>

section \<open>The library\<close>

text \<open>
  A function that prints lines and returns a value or throws. A sender is waited for with some lines printed and either its values or an exception; the lines of work that runs in parallel come in any order, so \<open>sync_wait\<close> gives the set of the
  possible results.
\<close>

type_synonym step_fun = "int \<Rightarrow> string list \<times> (string + int)"
type_synonym sender_result = "string list \<times> (string + int list)"

record 's stdexec =
  just :: "int \<Rightarrow> 's"
  then_f :: "'s \<Rightarrow> step_fun \<Rightarrow> 's"
  starts_on :: "'s \<Rightarrow> 's"
  when_all :: "'s list \<Rightarrow> 's"
  sync_wait :: "'s \<Rightarrow> sender_result set"

text \<open>\<^verbatim>\<open>then\<close>: an exception skips the function.\<close>

definition then_result :: "step_fun \<Rightarrow> sender_result \<Rightarrow> sender_result" where
  "then_result f r = (case r of (ls, Inr [v]) \<Rightarrow> (case f v of (ls', Inl e) \<Rightarrow> (ls @ ls', Inl e) | (ls', Inr w) \<Rightarrow> (ls @ ls', Inr [w])) | _ \<Rightarrow> r)"

text \<open>\<^verbatim>\<open>when_all\<close>: the values one after the other, the lines interleaved. It is used on senders that do not fail.\<close>

definition both_results :: "sender_result \<Rightarrow> sender_result \<Rightarrow> sender_result set" where
  "both_results r q = (case (snd r, snd q) of (Inr vs, Inr ws) \<Rightarrow> (\<lambda>ls. (ls, Inr (vs @ ws))) ` shuffles (fst r) (fst q) | _ \<Rightarrow> {})"

fun all_results :: "sender_result set list \<Rightarrow> sender_result set" where
  "all_results [] = {([], Inr [])}"
| "all_results (R # Rs) = (\<Union>r\<in>R. \<Union>q\<in>all_results Rs. both_results r q)"

text \<open>What the programs rely on.\<close>

definition stdexec_ok :: "'s stdexec \<Rightarrow> bool" where
  "stdexec_ok lib \<longleftrightarrow>
     (\<forall>v. sync_wait lib (just lib v) = {([], Inr [v])}) \<and>
     (\<forall>s f. sync_wait lib (then_f lib s f) = then_result f ` sync_wait lib s) \<and>
     (\<forall>s. sync_wait lib (starts_on lib s) = sync_wait lib s) \<and>
     (\<forall>ss. (\<forall>s\<in>set ss. \<forall>r\<in>sync_wait lib s. \<exists>vs. snd r = Inr vs) \<longrightarrow> sync_wait lib (when_all lib ss) = all_results (map (sync_wait lib) ss))"

section \<open>continuations.cpp\<close>

text \<open>The values of the program are far from the limits of \<^verbatim>\<open>int\<close>.\<close>

definition Adder :: step_fun where
  "Adder i = ([''Adder: '' @ decimal_int i], Inr (i + 10))"

definition Multiplier :: step_fun where
  "Multiplier i = ([''Multiplier: '' @ decimal_int i], Inr (i * 2))"

text \<open>The division of C++ rounds towards zero.\<close>

definition Divider :: step_fun where
  "Divider i = ([''Divider: '' @ decimal_int i], Inr (if i < 0 then - ((- i) div 3) else i div 3))"

definition errorSpawner :: step_fun where
  "errorSpawner i = ([], Inl ''Some error'')"

text \<open>An exception leaves \<^verbatim>\<open>HappyPath\<close> and ends the program: \<open>Inl\<close>.\<close>

definition HappyPath :: "'s stdexec \<Rightarrow> (string list \<times> (string + unit)) set" where
  "HappyPath lib = (\<lambda>r. case r of (ls, Inl e) \<Rightarrow> (ls, Inl e) | (ls, Inr vs) \<Rightarrow> (ls @ [''Result: '' @ decimal_int (hd vs)], Inr ())) `
     sync_wait lib (starts_on lib (then_f lib (then_f lib (then_f lib (just lib 20) Adder) Multiplier) Divider))"

definition ErrorPath :: "'s stdexec \<Rightarrow> string list set" where
  "ErrorPath lib = (\<lambda>r. case r of (ls, Inl e) \<Rightarrow> ls @ [''Exception caught: '' @ e] | (ls, Inr vs) \<Rightarrow> ls @ [''Result: '' @ decimal_int (hd vs)]) `
     sync_wait lib (starts_on lib (then_f lib (then_f lib (then_f lib (then_f lib (just lib 20) Adder) Multiplier) errorSpawner) Divider))"

definition continuations_main :: "'s stdexec \<Rightarrow> string list set" where
  "continuations_main lib = (\<Union>h\<in>HappyPath lib. case h of (ls, Inl e) \<Rightarrow> {ls} | (ls, Inr _) \<Rightarrow> (\<lambda>ls'. ls @ ls') ` ErrorPath lib)"

section \<open>stdexec_intro.cpp\<close>

definition intro_fun :: step_fun where
  "intro_fun i = ([''Executing task for '' @ decimal_int i], Inr (i * i))"

definition intro_work :: "'s stdexec \<Rightarrow> 's" where
  "intro_work lib = when_all lib (map (\<lambda>i. starts_on lib (then_f lib (just lib i) intro_fun)) [0, 1, 2])"

definition stdexec_intro_main :: "'s stdexec \<Rightarrow> string list set" where
  "stdexec_intro_main lib = (\<lambda>r. case r of (ls, Inr [i, j, k]) \<Rightarrow> ''Before sync_wait'' # ls @ [decimal_int i @ '' '' @ decimal_int j @ '' '' @ decimal_int k]
      | (ls, _) \<Rightarrow> ''Before sync_wait'' # ls) ` sync_wait lib (intro_work lib)"

section \<open>What the programs print\<close>

lemma decimal_ints: "decimal_int 0 = ''0''" "decimal_int 1 = ''1''" "decimal_int 2 = ''2''" "decimal_int 4 = ''4''" "decimal_int 20 = ''20''" "decimal_int 30 = ''30''" "decimal_int 60 = ''60''"
  by (simp_all add: decimal_int_def decimal.simps char_of_digits)

lemma stdexecD:
  assumes "stdexec_ok lib"
  shows "sync_wait lib (just lib v) = {([], Inr [v])}" "sync_wait lib (then_f lib s f) = then_result f ` sync_wait lib s"
    "sync_wait lib (starts_on lib s) = sync_wait lib s"
    "(\<And>s r. s \<in> set ss \<Longrightarrow> r \<in> sync_wait lib s \<Longrightarrow> \<exists>vs. snd r = Inr vs) \<Longrightarrow> sync_wait lib (when_all lib ss) = all_results (map (sync_wait lib) ss)"
  using assms unfolding stdexec_ok_def by blast+

lemma continuations_output:
  assumes "stdexec_ok lib"
  shows "continuations_main lib =
    {[''Adder: 20'', ''Multiplier: 30'', ''Divider: 60'', ''Result: 20'', ''Adder: 20'', ''Multiplier: 30'', ''Exception caught: Some error'']}"
  by (simp add: continuations_main_def HappyPath_def ErrorPath_def stdexecD(1-3)[OF assms] then_result_def Adder_def Multiplier_def Divider_def errorSpawner_def decimal_ints)

lemma intro_part: "stdexec_ok lib \<Longrightarrow> sync_wait lib (starts_on lib (then_f lib (just lib i) intro_fun)) = {([''Executing task for '' @ decimal_int i], Inr [i * i])}"
  by (simp add: stdexecD(1-3) then_result_def intro_fun_def)

lemma mset_three: "mset ls = {#a, b, c#} \<longleftrightarrow> ls \<in> {[a, b, c], [a, c, b], [b, a, c], [b, c, a], [c, a, b], [c, b, a]}"
proof
  assume m: "mset ls = {#a, b, c#}"
  then have "length ls = 3" by (simp flip: size_mset)
  then obtain x y z where ls: "ls = [x, y, z]" by (auto simp: numeral_eq_Suc length_Suc_conv)
  with m show "ls \<in> {[a, b, c], [a, c, b], [b, a, c], [b, c, a], [c, a, b], [c, b, a]}" by (auto simp: add_eq_conv_ex)
qed (auto simp: add_mset_commute)

lemma stdexec_intro_output:
  assumes "stdexec_ok lib"
  shows "stdexec_intro_main lib = (\<lambda>ls. ''Before sync_wait'' # ls @ [''0 1 4'']) `
    {ls. mset ls = {#''Executing task for 0'', ''Executing task for 1'', ''Executing task for 2''#}}"
proof -
  have "sync_wait lib (intro_work lib) = all_results (map (sync_wait lib) (map (\<lambda>i. starts_on lib (then_f lib (just lib i) intro_fun)) [0, 1, 2]))"
    unfolding intro_work_def by (rule stdexecD(4)[OF assms]) (auto simp: intro_part[OF assms])
  also have "\<dots> = (\<lambda>ls. (ls, Inr [0, 1, 4])) ` {ls. mset ls = {#''Executing task for 0'', ''Executing task for 1'', ''Executing task for 2''#}}"
    unfolding mset_three by (simp add: intro_part[OF assms] both_results_def shuffles.simps decimal_ints) auto
  finally show ?thesis by (simp add: stdexec_intro_main_def image_image decimal_ints)
qed


text \<open>A library that has its results as senders.\<close>

definition direct_stdexec :: "sender_result set stdexec" where
  "direct_stdexec = \<lparr>just = (\<lambda>v. {([], Inr [v])}), then_f = (\<lambda>R f. then_result f ` R), starts_on = (\<lambda>R. R), when_all = all_results, sync_wait = (\<lambda>R. R)\<rparr>"

lemma direct_stdexec_ok: "stdexec_ok direct_stdexec"
  by (simp add: stdexec_ok_def direct_stdexec_def)


end
