(* ===== verification/Stack_Programs.thy ===== *)
theory Stack_Programs
  imports Stacks Stack_Conc
begin

text \<open>
  The programs that use the stacks: the \<^verbatim>\<open>main\<close> of \<^verbatim>\<open>lock_free/spsc_stack.cpp\<close>, a producer and a consumer thread on the stack with a mutex, and that of \<^verbatim>\<open>ipc/shm_atomics.cpp\<close>, a parent and a child process on the array stack in
  shared memory. The lemmas show that both programs come to their end, with an empty stack and as many values popped as pushed, and for the first that these are the values.
\<close>

section \<open>spsc_stack.cpp\<close>

datatype spsc_producer = Pr_Arrive | Pr_Wait | Pr_Push nat | Pr_Ended
datatype spsc_consumer = Co_Arrive | Co_Wait | Co_Pop nat | Co_Ended

record spsc_state =
  spsc_latch :: nat
  spsc_values :: spsc_stack              \<comment> \<open>the calls of \<^verbatim>\<open>Push\<close> and \<^verbatim>\<open>Pop\<close> hold the mutex of the stack\<close>
  spsc_popped :: "int list"

fun spsc_producer_act :: "nat \<Rightarrow> spsc_producer \<Rightarrow> spsc_state \<Rightarrow> (spsc_producer \<times> spsc_state) option" where
  "spsc_producer_act N Pr_Arrive g = Some (Pr_Wait, g\<lparr>spsc_latch := spsc_latch g - 1\<rparr>)"
| "spsc_producer_act N Pr_Wait g = (if spsc_latch g = 0 then Some (Pr_Push 0, g) else None)"
| "spsc_producer_act N (Pr_Push i) g =
     (if i < N then (case SPSCStack_Push (int i) (spsc_values g) of None \<Rightarrow> None | Some (_, s) \<Rightarrow> Some (Pr_Push (Suc i), g\<lparr>spsc_values := s\<rparr>))
      else Some (Pr_Ended, g))"
| "spsc_producer_act N Pr_Ended g = None"

fun spsc_consumer_act :: "nat \<Rightarrow> spsc_consumer \<Rightarrow> spsc_state \<Rightarrow> (spsc_consumer \<times> spsc_state) option" where
  "spsc_consumer_act N Co_Arrive g = Some (Co_Wait, g\<lparr>spsc_latch := spsc_latch g - 1\<rparr>)"
| "spsc_consumer_act N Co_Wait g = (if spsc_latch g = 0 then Some (Co_Pop 0, g) else None)"
| "spsc_consumer_act N (Co_Pop consumed) g =
     (if consumed < N then
        (case SPSCStack_Pop (spsc_values g) of None \<Rightarrow> None
         | Some (None, s) \<Rightarrow> Some (Co_Pop consumed, g\<lparr>spsc_values := s\<rparr>)
         | Some (Some v, s) \<Rightarrow> Some (Co_Pop (Suc consumed), g\<lparr>spsc_values := s, spsc_popped := spsc_popped g @ [v]\<rparr>))
      else Some (Co_Ended, g))"
| "spsc_consumer_act N Co_Ended g = None"

definition spsc_step :: "nat \<Rightarrow> spsc_producer \<times> spsc_consumer \<times> spsc_state \<Rightarrow> spsc_producer \<times> spsc_consumer \<times> spsc_state \<Rightarrow> bool" where
  "spsc_step N = pair_step (\<lambda>_ :: unit. spsc_producer_act N) (\<lambda>_ :: unit. spsc_consumer_act N)"

definition spsc_main :: "spsc_producer \<times> spsc_consumer \<times> spsc_state" where
  "spsc_main = (Pr_Arrive, Co_Arrive, \<lparr>spsc_latch = 2, spsc_values = [], spsc_popped = []\<rparr>)"

text \<open>\<^verbatim>\<open>NumberOfElements\<close>\<close>

definition spsc_elements :: nat where
  "spsc_elements = 5000000"

definition produced_to :: "nat \<Rightarrow> spsc_producer \<Rightarrow> nat" where
  "produced_to N p = (case p of Pr_Push i \<Rightarrow> i | Pr_Ended \<Rightarrow> N | _ \<Rightarrow> 0)"

definition consumed_to :: "nat \<Rightarrow> spsc_consumer \<Rightarrow> nat" where
  "consumed_to N c = (case c of Co_Pop k \<Rightarrow> k | Co_Ended \<Rightarrow> N | _ \<Rightarrow> 0)"

fun spsc_inv :: "nat \<Rightarrow> spsc_producer \<times> spsc_consumer \<times> spsc_state \<Rightarrow> bool" where
  "spsc_inv N (p, c, g) \<longleftrightarrow>
     spsc_latch g = (if p = Pr_Arrive then 1 else 0) + (if c = Co_Arrive then 1 else 0) \<and>
     (spsc_latch g = 0 \<or> p \<in> {Pr_Arrive, Pr_Wait} \<and> c \<in> {Co_Arrive, Co_Wait}) \<and>
     produced_to N p \<le> N \<and> length (spsc_popped g) = consumed_to N c \<and> consumed_to N c \<le> N \<and>
     mset (spsc_values g) + mset (spsc_popped g) = mset (map int [0..<produced_to N p])"

lemma spsc_producer_step: "spsc_inv N (p, c, g) \<Longrightarrow> spsc_producer_act N p g = Some (p', g') \<Longrightarrow> spsc_inv N (p', c, g')"
  by (cases p) (auto simp: produced_to_def SPSCStack_Push_def atLeast0_lessThan_Suc split: if_splits)

lemma spsc_consumer_step: "spsc_inv N (p, c, g) \<Longrightarrow> spsc_consumer_act N c g = Some (c', g') \<Longrightarrow> spsc_inv N (p, c', g')"
  by (cases c; cases "spsc_values g") (auto simp: consumed_to_def SPSCStack_Pop_def split: if_splits)

lemma spsc_sizes:
  assumes "spsc_inv N (p, c, g)"
  shows "length (spsc_values g) + length (spsc_popped g) = produced_to N p"
proof -
  have "mset (spsc_values g) + mset (spsc_popped g) = mset (map int [0..<produced_to N p])" using assms by simp
  from arg_cong[OF this, of size] show ?thesis by simp
qed

definition spsc_done :: "spsc_producer \<times> spsc_consumer \<times> spsc_state \<Rightarrow> bool" where
  "spsc_done s \<longleftrightarrow> fst s = Pr_Ended \<and> fst (snd s) = Co_Ended"

fun spsc_rank :: "nat \<Rightarrow> spsc_producer \<times> spsc_consumer \<times> spsc_state \<Rightarrow> nat" where
  "spsc_rank N (p, c, g) = (case p of Pr_Arrive \<Rightarrow> N + 3 | Pr_Wait \<Rightarrow> N + 2 | Pr_Push i \<Rightarrow> N - i + 1 | Pr_Ended \<Rightarrow> 0) +
     (case c of Co_Arrive \<Rightarrow> N + 3 | Co_Wait \<Rightarrow> N + 2 | Co_Pop k \<Rightarrow> N - k + 1 | Co_Ended \<Rightarrow> 0)"

lemma spsc_advances:
  assumes inv: "spsc_inv N (p, c, g)" and nf: "\<not> (p = Pr_Ended \<and> c = Co_Ended)"
  shows "(\<exists>p' g'. spsc_producer_act N p g = Some (p', g') \<and> spsc_rank N (p', c, g') < spsc_rank N (p, c, g)) \<or>
    (\<exists>c' g'. spsc_consumer_act N c g = Some (c', g') \<and> spsc_rank N (p, c', g') < spsc_rank N (p, c, g))"
proof (cases "p = Pr_Ended \<or> p = Pr_Wait \<and> spsc_latch g \<noteq> 0")
  case False
  then have "\<exists>p' g'. spsc_producer_act N p g = Some (p', g') \<and> spsc_rank N (p', c, g') < spsc_rank N (p, c, g)"
    by (cases p) (auto simp: SPSCStack_Push_def)
  then show ?thesis by blast
next
  case True
  then have "\<exists>c' g'. spsc_consumer_act N c g = Some (c', g') \<and> spsc_rank N (p, c', g') < spsc_rank N (p, c, g)"
  proof
    assume p: "p = Pr_Ended"
    show ?thesis
    proof (cases c)
      case (Co_Pop k)
      show ?thesis
      proof (cases "k < N")
        case True
        have "length (spsc_values g) + length (spsc_popped g) = N"
          using spsc_sizes[OF inv] p by (simp add: produced_to_def)
        then have "spsc_values g \<noteq> []" using inv True Co_Pop by (auto simp: consumed_to_def)
        with True Co_Pop show ?thesis by (simp add: SPSCStack_Pop_def)
      qed (use Co_Pop in simp)
    qed (use inv nf p in auto)
  next
    assume "p = Pr_Wait \<and> spsc_latch g \<noteq> 0"
    with inv have "c = Co_Arrive" by (auto split: if_splits)
    then show ?thesis by simp
  qed
  then show ?thesis by blast
qed

interpretation spsc_program: finishing_steps "\<lambda>s. s = spsc_main" "spsc_step N" "spsc_inv N" spsc_done "spsc_rank N" for N
proof unfold_locales
  show "spsc_inv N s" if "s = spsc_main" for s using that by (simp add: spsc_main_def produced_to_def consumed_to_def)
next
  fix s t assume inv: "spsc_inv N s" and st: "spsc_step N s t"
  obtain p c g where s: "s = (p, c, g)" by (cases s)
  from st[unfolded spsc_step_def s] show "spsc_inv N t"
    by (rule pair_step_keeps) (rule spsc_producer_step[OF inv[unfolded s]] spsc_consumer_step[OF inv[unfolded s]]; assumption)+
next
  fix s assume inv: "spsc_inv N s" and nf: "\<not> spsc_done s"
  obtain p c g where s: "s = (p, c, g)" by (cases s)
  from spsc_advances[OF inv[unfolded s]] nf show "\<exists>t. spsc_step N s t \<and> spsc_rank N t < spsc_rank N s"
    unfolding s spsc_step_def spsc_done_def fst_conv snd_conv by (blast intro: pair_parent pair_child)
qed

text \<open>
  C25. The program \<^verbatim>\<open>spsc_stack\<close>, for any number of elements, in particular for its 5000000: neither thread touches the stack before both have arrived at the latch; from every reachable state the program can be brought to
  its end, and no other reachable state is without a next action; at the end the stack is empty and every value has been popped exactly once.
\<close>

theorem spsc_program_pops_all:
  assumes "(spsc_step N)\<^sup>*\<^sup>* spsc_main (p, c, g)"
  shows "(spsc_latch g \<noteq> 0 \<longrightarrow> spsc_values g = [] \<and> spsc_popped g = []) \<and>
    (\<exists>t. (spsc_step N)\<^sup>*\<^sup>* (p, c, g) t \<and> spsc_done t) \<and> (stuck (spsc_step N) (p, c, g) \<longrightarrow> spsc_done (p, c, g)) \<and>
    (spsc_done (p, c, g) \<longrightarrow> spsc_values g = [] \<and> mset (spsc_popped g) = mset (map int [0..<N]))"
proof -
  have inv: "spsc_inv N (p, c, g)" by (rule spsc_program.inv_reachable[OF refl assms])
  have bal: "mset (spsc_values g) + mset (spsc_popped g) = mset (map int [0..<produced_to N p])" using inv by simp
  note size = spsc_sizes[OF inv]
  have "spsc_values g = [] \<and> mset (spsc_popped g) = mset (map int [0..<N])" if "spsc_done (p, c, g)"
  proof -
    have d: "produced_to N p = N" "length (spsc_popped g) = N" using that inv by (simp_all add: spsc_done_def produced_to_def consumed_to_def)
    then have "spsc_values g = []" using size by simp
    then show ?thesis using bal d(1) by simp
  qed
  moreover have "spsc_values g = [] \<and> spsc_popped g = []" if "spsc_latch g \<noteq> 0"
    using that inv size by (auto simp: produced_to_def)
  ultimately show ?thesis using spsc_program.reaches_final[OF refl assms] spsc_program.stuck_final[OF refl assms] by blast
qed

theorem spsc_program_pops_all_witness:
  "\<exists>g. (spsc_step spsc_elements)\<^sup>*\<^sup>* spsc_main (Pr_Ended, Co_Ended, g) \<and> spsc_values g = [] \<and> mset (spsc_popped g) = mset (map int [0..<spsc_elements])"
proof -
  obtain t where t: "(spsc_step spsc_elements)\<^sup>*\<^sup>* spsc_main t" "spsc_done t" using spsc_program.reaches_final[OF refl rtranclp.rtrancl_refl] by blast
  moreover obtain g where "t = (Pr_Ended, Co_Ended, g)" using t(2) by (cases t) (auto simp: spsc_done_def)
  ultimately show ?thesis using spsc_program_pops_all[of spsc_elements Pr_Ended Co_Ended g] by blast
qed

section \<open>shm_atomics.cpp\<close>

text \<open>The loops of the two processes, with the call of \<^verbatim>\<open>Push\<close> or \<^verbatim>\<open>Pop\<close> they are in.\<close>

datatype shm_child = Push_loop nat buffer_pc | Child_exited
datatype shm_parent = Pop_loop nat buffer_pc | Wait_for_child | Parent_done

text \<open>\<^verbatim>\<open>while (!stack->Push(i)) {}\<close>: the index goes on when the call returns true.\<close>

fun shm_child_act :: "nat \<Rightarrow> nat \<Rightarrow> stack_choice \<Rightarrow> shm_child \<Rightarrow> buffer_shared \<times> bool \<Rightarrow> (shm_child \<times> buffer_shared \<times> bool) option" where
  "shm_child_act Capacity N k (Push_loop i l) (g, e) =
     (if l = B_Idle then Some (if i < N then (Push_loop i (BPush_Load (int i)), g, e) else (Child_exited, g, True))
      else case buffer_act Capacity (\<lambda>_. False) k 1 l g of None \<Rightarrow> None
        | Some (l', g') \<Rightarrow> Some (Push_loop (if pushing l then Suc i else i) l', g', e))"
| "shm_child_act Capacity N k Child_exited (g, e) = None"

fun shm_parent_act :: "nat \<Rightarrow> nat \<Rightarrow> stack_choice \<Rightarrow> shm_parent \<Rightarrow> buffer_shared \<times> bool \<Rightarrow> (shm_parent \<times> buffer_shared \<times> bool) option" where
  "shm_parent_act Capacity N k (Pop_loop consumed l) (g, e) =
     (if l = B_Idle then Some (if consumed < N then Pop_loop consumed BPop_Load else Wait_for_child, g, e)
      else case buffer_act Capacity (\<lambda>_. True) k 0 l g of None \<Rightarrow> None
        | Some (l', g') \<Rightarrow> Some (Pop_loop (if popping l then Suc consumed else consumed) l', g', e))"
| "shm_parent_act Capacity N k Wait_for_child (g, e) = (if e then Some (Parent_done, g, e) else None)"
| "shm_parent_act Capacity N k Parent_done (g, e) = None"

definition shm_step :: "nat \<Rightarrow> nat \<Rightarrow> shm_parent \<times> shm_child \<times> buffer_shared \<times> bool \<Rightarrow> shm_parent \<times> shm_child \<times> buffer_shared \<times> bool \<Rightarrow> bool" where
  "shm_step Capacity N = pair_step (shm_parent_act Capacity N) (shm_child_act Capacity N)"

definition shm_forked :: "nat \<Rightarrow> shm_parent \<times> shm_child \<times> buffer_shared \<times> bool" where
  "shm_forked Capacity = (Pop_loop 0 B_Idle, Push_loop 0 B_Idle,
     \<lparr>bf_head = 0, bf_buffer = replicate Capacity 0, bf_fault = False, bf_pushed = [], bf_popped = []\<rparr>, False)"

text \<open>A failing \<^verbatim>\<open>mmap\<close> throws, a failing \<^verbatim>\<open>fork\<close> exits; otherwise the two processes run.\<close>

definition shm_atomics_main :: "bool \<Rightarrow> bool \<Rightarrow> string \<Rightarrow> string + (shm_parent \<times> shm_child \<times> buffer_shared \<times> bool)" where
  "shm_atomics_main mmap_ok fork_ok err = (if \<not> mmap_ok then Inl (''mmap failed, error: '' @ err) else if \<not> fork_ok then Inl err else Inr (shm_forked 1024))"

subsection \<open>The invariant\<close>

definition child_call :: "shm_child \<Rightarrow> buffer_pc" where
  "child_call c = (case c of Push_loop _ l \<Rightarrow> l | Child_exited \<Rightarrow> B_Idle)"

definition parent_call :: "shm_parent \<Rightarrow> buffer_pc" where
  "parent_call p = (case p of Pop_loop _ l \<Rightarrow> l | _ \<Rightarrow> B_Idle)"

definition pushes_done :: "nat \<Rightarrow> shm_child \<Rightarrow> nat" where
  "pushes_done N c = (case c of Push_loop i _ \<Rightarrow> i | Child_exited \<Rightarrow> N)"

definition pops_done :: "nat \<Rightarrow> shm_parent \<Rightarrow> nat" where
  "pops_done N p = (case p of Pop_loop k _ \<Rightarrow> k | _ \<Rightarrow> N)"

definition is_push :: "buffer_pc \<Rightarrow> bool" where
  "is_push l = (case l of BPush_Load _ \<Rightarrow> True | BPush_CAS _ _ \<Rightarrow> True | BPush_Write _ _ \<Rightarrow> True | _ \<Rightarrow> False)"

definition is_pop :: "buffer_pc \<Rightarrow> bool" where
  "is_pop l = (case l of BPop_Load \<Rightarrow> True | BPop_CAS _ \<Rightarrow> True | BPop_Read _ \<Rightarrow> True | _ \<Rightarrow> False)"

fun shm_inv :: "nat \<Rightarrow> nat \<Rightarrow> shm_parent \<times> shm_child \<times> buffer_shared \<times> bool \<Rightarrow> bool" where
  "shm_inv Capacity N (p, c, g, e) \<longleftrightarrow> buffer_inv Capacity ([parent_call p, child_call c], g) \<and>
     length (bf_pushed g) = pushes_done N c \<and> length (bf_popped g) = pops_done N p \<and>
     (child_call c = B_Idle \<or> is_push (child_call c) \<and> pushes_done N c < N) \<and> (parent_call p = B_Idle \<or> is_pop (parent_call p) \<and> pops_done N p < N) \<and>
     pushes_done N c \<le> N \<and> pops_done N p \<le> N \<and> (e \<longleftrightarrow> c = Child_exited) \<and> (p = Parent_done \<longrightarrow> e)"

lemma buffer_inv_act:
  assumes "buffer_inv Capacity (ls, g)" "i < length ls" "buffer_act Capacity consumer k i (ls ! i) g = Some (l', g')"
  shows "buffer_inv Capacity (ls[i := l'], g')"
  by (rule buffer_inv_step[OF assms(1)], rule choice_stepI[of i ls "buffer_act Capacity consumer" k, OF assms(2,3)])

lemma buffer_inv_call:
  "buffer_inv Capacity ([lp, B_Idle], g) \<Longrightarrow> buffer_inv Capacity ([lp, BPush_Load v], g)"
  "buffer_inv Capacity ([B_Idle, lc], g) \<Longrightarrow> buffer_inv Capacity ([BPop_Load, lc], g)"
  by (auto simp: buffer_inv_def index_ok_def pushing_def popping_def less_Suc_eq nth_Cons')

text \<open>What an action of a call does to the histories.\<close>

lemma push_act_histories:
  assumes "buffer_act Capacity (\<lambda>_. False) k i l g = Some (l', g')" "is_push l" "\<not> bf_fault g'"
  shows "length (bf_pushed g') = length (bf_pushed g) + (if pushing l then 1 else 0)" "bf_popped g' = bf_popped g"
    "if pushing l then l' = B_Idle else l' = B_Idle \<or> is_push l'"
  using assms by (cases l; auto simp: buffer_act_def is_push_def pushing_def split: if_splits)+

lemma pop_act_histories:
  assumes "buffer_act Capacity (\<lambda>_. True) k i l g = Some (l', g')" "is_pop l" "\<not> bf_fault g'"
  shows "length (bf_popped g') = length (bf_popped g) + (if popping l then 1 else 0)" "bf_pushed g' = bf_pushed g"
    "if popping l then l' = B_Idle else l' = B_Idle \<or> is_pop l'"
  using assms by (cases l; auto simp: buffer_act_def is_pop_def popping_def split: if_splits)+

lemma buffer_inv_no_fault: "buffer_inv Capacity (ls, g) \<Longrightarrow> \<not> bf_fault g"
  by (simp add: buffer_inv_def)

lemma shm_child_step:
  assumes inv: "shm_inv Capacity N (p, c, ge)" and act: "shm_child_act Capacity N k c ge = Some (c', ge')"
  shows "shm_inv Capacity N (p, c', ge')"
proof -
  obtain g e where ge: "ge = (g, e)" by (cases ge)
  from act obtain i l where c: "c = Push_loop i l" by (cases c) (auto simp: ge)
  note inv = inv[unfolded ge c shm_inv.simps child_call_def pushes_done_def shm_child.case]
  show ?thesis
  proof (cases "l = B_Idle")
    case True
    then have "buffer_inv Capacity ([parent_call p, BPush_Load (int i)], g)" using inv buffer_inv_call(1) by blast
    then show ?thesis using inv act True by (auto simp: ge c child_call_def pushes_done_def is_push_def split: if_splits)
  next
    case False
    then obtain l' g' where b: "buffer_act Capacity (\<lambda>_. False) k 1 l g = Some (l', g')"
      and c': "c' = Push_loop (if pushing l then Suc i else i) l'" "ge' = (g', e)" using act by (auto simp: ge c split: option.splits)
    have bi: "buffer_inv Capacity ([parent_call p, l'], g')"
      using buffer_inv_act[of Capacity "[parent_call p, l]" g 1 "\<lambda>_. False" k l' g'] inv b by simp
    have push: "is_push l" "i < N" using inv False by blast+
    note h = push_act_histories[OF b push(1) buffer_inv_no_fault[OF bi]]
    show ?thesis using bi h inv push by (auto simp: c' child_call_def pushes_done_def split: if_splits)
  qed
qed

lemma shm_parent_step:
  assumes inv: "shm_inv Capacity N (p, c, ge)" and act: "shm_parent_act Capacity N k p ge = Some (p', ge')"
  shows "shm_inv Capacity N (p', c, ge')"
proof -
  obtain g e where ge: "ge = (g, e)" by (cases ge)
  show ?thesis
  proof (cases p)
    case (Pop_loop n l)
    note inv = inv[unfolded ge Pop_loop shm_inv.simps parent_call_def pops_done_def shm_parent.case]
    show ?thesis
    proof (cases "l = B_Idle")
      case True
      then have "buffer_inv Capacity ([BPop_Load, child_call c], g)" using inv buffer_inv_call(2) by blast
      then show ?thesis using inv act True by (auto simp: ge Pop_loop parent_call_def pops_done_def is_pop_def split: if_splits)
    next
      case False
      then obtain l' g' where b: "buffer_act Capacity (\<lambda>_. True) k 0 l g = Some (l', g')"
        and p': "p' = Pop_loop (if popping l then Suc n else n) l'" "ge' = (g', e)" using act by (auto simp: ge Pop_loop split: option.splits)
      have bi: "buffer_inv Capacity ([l', child_call c], g')"
        using buffer_inv_act[of Capacity "[l, child_call c]" g 0 "\<lambda>_. True" k l' g'] inv b by simp
      have pop: "is_pop l" "n < N" using inv False by blast+
      note h = pop_act_histories[OF b pop(1) buffer_inv_no_fault[OF bi]]
      show ?thesis using bi h inv pop by (auto simp: p' parent_call_def pops_done_def split: if_splits)
    qed
  next
    case Wait_for_child
    then show ?thesis using inv act by (auto simp: ge parent_call_def pops_done_def split: if_splits)
  qed (use act in \<open>simp add: ge\<close>)
qed

subsection \<open>Getting to the end\<close>

text \<open>The actions left in a call; one that is about to fail in its \<^verbatim>\<open>compare_exchange_weak\<close> has to start again.\<close>

definition call_left :: "int \<Rightarrow> buffer_pc \<Rightarrow> nat" where
  "call_left h l = (case l of B_Idle \<Rightarrow> 8 | BPush_Load _ \<Rightarrow> 6 | BPush_CAS _ t \<Rightarrow> if t = h then 5 else 7 | BPush_Write _ _ \<Rightarrow> 1
     | BPop_Load \<Rightarrow> 6 | BPop_CAS t \<Rightarrow> if t = h then 5 else 7 | BPop_Read _ \<Rightarrow> 1)"

lemma call_left_other: "call_left h' l \<le> call_left h l + 2"
  by (cases l) (auto simp: call_left_def)

definition sure :: stack_choice where
  "sure = \<lparr>ch_value = 0, ch_addr = 0, ch_spurious = False\<rparr>"

lemma push_advances:
  assumes "\<not> bf_fault g" "is_push l" "\<not> (\<exists>v. l = BPush_Load v \<and> bf_head g = int Capacity)"
  shows "\<exists>l' g'. buffer_act Capacity (\<lambda>_. False) sure 1 l g = Some (l', g') \<and>
    call_left (bf_head g') l' + call_left (bf_head g') o' < call_left (bf_head g) l + call_left (bf_head g) o' + (if pushing l then 10 else 0)"
  using assms call_left_other[of "bf_head g + 1" o' "bf_head g"]
  by (cases l) (auto simp: buffer_act_def is_push_def pushing_def call_left_def[of _ B_Idle] call_left_def[of _ "BPush_Load _"] call_left_def[of _ "BPush_CAS _ _"]
    call_left_def[of _ "BPush_Write _ _"] sure_def)

lemma pop_advances:
  assumes "\<not> bf_fault g" "is_pop l" "\<not> (l = BPop_Load \<and> bf_head g = 0)"
  shows "\<exists>l' g'. buffer_act Capacity (\<lambda>_. True) sure 0 l g = Some (l', g') \<and>
    call_left (bf_head g') l' + call_left (bf_head g') o' < call_left (bf_head g) l + call_left (bf_head g) o' + (if popping l then 10 else 0)"
  using assms call_left_other[of "bf_head g - 1" o' "bf_head g"]
  by (cases l) (auto simp: buffer_act_def is_pop_def popping_def call_left_def[of _ B_Idle] call_left_def[of _ BPop_Load] call_left_def[of _ "BPop_CAS _"]
    call_left_def[of _ "BPop_Read _"] sure_def)

definition shm_child_left :: "nat \<Rightarrow> shm_child \<Rightarrow> int \<Rightarrow> nat" where
  "shm_child_left N c h = (case c of Push_loop i l \<Rightarrow> 10 * (N - i) + call_left h l | Child_exited \<Rightarrow> 0)"

definition shm_parent_left :: "nat \<Rightarrow> shm_parent \<Rightarrow> int \<Rightarrow> nat" where
  "shm_parent_left N p h = (case p of Pop_loop k l \<Rightarrow> 10 * (N - k) + call_left h l | Wait_for_child \<Rightarrow> 1 | Parent_done \<Rightarrow> 0)"

fun shm_rank :: "nat \<Rightarrow> shm_parent \<times> shm_child \<times> buffer_shared \<times> bool \<Rightarrow> nat" where
  "shm_rank N (p, c, g, e) = shm_parent_left N p (bf_head g) + shm_child_left N c (bf_head g)"

lemma shm_parent_left_split: "\<exists>a b. \<forall>h. shm_parent_left N p h + a = b + call_left h (parent_call p)"
  by (cases p) (auto simp: shm_parent_left_def parent_call_def call_left_def[of _ B_Idle] intro: exI[of _ 8] exI[of _ 0])

lemma shm_child_left_split: "\<exists>a b. \<forall>h. shm_child_left N c h + a = b + call_left h (child_call c)"
  by (cases c) (auto simp: shm_child_left_def child_call_def call_left_def[of _ B_Idle] intro: exI[of _ 8] exI[of _ 0])

lemma shm_child_advances:
  assumes inv: "shm_inv Capacity N (p, Push_loop i l, g, e)" and nf: "\<not> (\<exists>v. l = BPush_Load v \<and> bf_head g = int Capacity)"
  shows "\<exists>c' ge'. shm_child_act Capacity N sure (Push_loop i l) (g, e) = Some (c', ge') \<and> shm_rank N (p, c', ge') < shm_rank N (p, Push_loop i l, g, e)"
proof (cases "l = B_Idle")
  case True
  then show ?thesis by (auto simp: shm_child_left_def call_left_def)
next
  case False
  with inv have push: "is_push l" "i < N" and b: "buffer_inv Capacity ([parent_call p, l], g)" by (auto simp: child_call_def pushes_done_def)
  obtain l' g' where act: "buffer_act Capacity (\<lambda>_. False) sure 1 l g = Some (l', g')" and less:
    "call_left (bf_head g') l' + call_left (bf_head g') (parent_call p) < call_left (bf_head g) l + call_left (bf_head g) (parent_call p) + (if pushing l then 10 else 0)"
    using push_advances[OF buffer_inv_no_fault[OF b] push(1) nf] by blast
  obtain a d where ad: "\<And>h. shm_parent_left N p h + a = d + call_left h (parent_call p)" using shm_parent_left_split[of N p] by blast
  have "10 * (N - i) = 10 * (N - Suc i) + 10" using push(2) by simp
  then have "shm_rank N (p, Push_loop (if pushing l then Suc i else i) l', g', e) < shm_rank N (p, Push_loop i l, g, e)"
    using less ad[of "bf_head g"] ad[of "bf_head g'"] by (auto simp: shm_child_left_def split: if_splits)
  then show ?thesis using act False by simp
qed

lemma shm_parent_advances:
  assumes inv: "shm_inv Capacity N (Pop_loop k l, c, g, e)" and nf: "\<not> (l = BPop_Load \<and> bf_head g = 0)"
  shows "\<exists>p' ge'. shm_parent_act Capacity N sure (Pop_loop k l) (g, e) = Some (p', ge') \<and> shm_rank N (p', c, ge') < shm_rank N (Pop_loop k l, c, g, e)"
proof (cases "l = B_Idle")
  case True
  then show ?thesis by (auto simp: shm_parent_left_def call_left_def)
next
  case False
  with inv have pop: "is_pop l" "k < N" and b: "buffer_inv Capacity ([l, child_call c], g)" by (auto simp: parent_call_def pops_done_def)
  obtain l' g' where act: "buffer_act Capacity (\<lambda>_. True) sure 0 l g = Some (l', g')" and less:
    "call_left (bf_head g') l' + call_left (bf_head g') (child_call c) < call_left (bf_head g) l + call_left (bf_head g) (child_call c) + (if popping l then 10 else 0)"
    using pop_advances[OF buffer_inv_no_fault[OF b] pop(1) nf] by blast
  obtain a d where ad: "\<And>h. shm_child_left N c h + a = d + call_left h (child_call c)" using shm_child_left_split[of N c] by blast
  have "10 * (N - k) = 10 * (N - Suc k) + 10" using pop(2) by simp
  then have "shm_rank N (Pop_loop (if popping l then Suc k else k) l', c, g', e) < shm_rank N (Pop_loop k l, c, g, e)"
    using less ad[of "bf_head g"] ad[of "bf_head g'"] by (auto simp: shm_parent_left_def split: if_splits)
  then show ?thesis using act False by simp
qed

text \<open>The head, from the numbers of calls.\<close>

lemma shm_head:
  assumes "shm_inv Capacity N (p, c, g, e)"
  shows "bf_head g + int (pops_done N p) + (if popping (parent_call p) then 1 else 0) = int (pushes_done N c) + (if pushing (child_call c) then 1 else 0)"
    "\<not> bf_fault g" "0 \<le> bf_head g" "bf_head g \<le> int Capacity"
proof -
  have b: "buffer_inv Capacity ([parent_call p, child_call c], g)" using assms by simp
  have "\<not> popping (child_call c)" "\<not> pushing (parent_call p)"
    using assms by (cases "child_call c"; cases "parent_call p"; auto simp: is_push_def is_pop_def popping_def pushing_def)+
  then show "bf_head g + int (pops_done N p) + (if popping (parent_call p) then 1 else 0) = int (pushes_done N c) + (if pushing (child_call c) then 1 else 0)"
    using b assms by (auto simp: buffer_inv_def split: if_splits)
qed (use assms in \<open>simp_all add: buffer_inv_def\<close>)

definition shm_done :: "shm_parent \<times> shm_child \<times> buffer_shared \<times> bool \<Rightarrow> bool" where
  "shm_done s \<longleftrightarrow> fst s = Parent_done \<and> fst (snd s) = Child_exited"

lemma shm_advances:
  assumes inv: "shm_inv Capacity N (p, c, g, e)" and cap: "0 < Capacity" and nf: "\<not> shm_done (p, c, g, e)"
  shows "(\<exists>p' ge'. shm_parent_act Capacity N sure p (g, e) = Some (p', ge') \<and> shm_rank N (p', c, ge') < shm_rank N (p, c, g, e)) \<or>
    (\<exists>c' ge'. shm_child_act Capacity N sure c (g, e) = Some (c', ge') \<and> shm_rank N (p, c', ge') < shm_rank N (p, c, g, e))"
proof (cases "\<exists>i l. c = Push_loop i l \<and> \<not> (\<exists>v. l = BPush_Load v \<and> bf_head g = int Capacity)")
  case True
  then show ?thesis using shm_child_advances inv by blast
next
  case False
  then have c: "c = Child_exited \<or> (\<exists>i v. c = Push_loop i (BPush_Load v) \<and> bf_head g = int Capacity)" by (cases c) auto
  show ?thesis
  proof (cases p)
    case (Pop_loop k l)
    have "bf_head g \<noteq> 0" if "l = BPop_Load"
      using c shm_head(1)[OF inv] inv cap that by (auto simp: Pop_loop pops_done_def pushes_done_def parent_call_def child_call_def popping_def pushing_def)
    then show ?thesis using shm_parent_advances inv Pop_loop by blast
  next
    case Wait_for_child
    have "c = Child_exited"
      using c shm_head(1)[OF inv] inv cap by (auto simp: Wait_for_child pops_done_def pushes_done_def parent_call_def child_call_def popping_def pushing_def)
    then show ?thesis using inv by (auto simp: Wait_for_child shm_parent_left_def)
  next
    case Parent_done
    then show ?thesis using inv nf by (simp add: shm_done_def)
  qed
qed

interpretation shm_program: finishing_steps "\<lambda>s. s = shm_forked Capacity \<and> 0 < Capacity" "shm_step Capacity N" "\<lambda>s. shm_inv Capacity N s \<and> 0 < Capacity" shm_done "shm_rank N" for Capacity N
proof unfold_locales
  have "buffer_inv Capacity ([B_Idle, B_Idle], \<lparr>bf_head = 0, bf_buffer = replicate Capacity 0, bf_fault = False, bf_pushed = [], bf_popped = []\<rparr>)"
    using buffer_inv_start[of Capacity 2] by (simp add: buffer_start_def numeral_2_eq_2)
  then show "shm_inv Capacity N s \<and> 0 < Capacity" if "s = shm_forked Capacity \<and> 0 < Capacity" for s
    using that by (simp add: shm_forked_def parent_call_def child_call_def pushes_done_def pops_done_def)
next
  fix s t assume inv: "shm_inv Capacity N s \<and> 0 < Capacity" and st: "shm_step Capacity N s t"
  obtain p c ge where s: "s = (p, c, ge)" by (cases s)
  note i = conjunct1[OF inv[unfolded s]]
  from st[unfolded shm_step_def s] have "shm_inv Capacity N t"
    by (rule pair_step_keeps) (rule shm_parent_step[OF i] shm_child_step[OF i]; assumption)+
  then show "shm_inv Capacity N t \<and> 0 < Capacity" using inv by blast
next
  fix s assume inv: "shm_inv Capacity N s \<and> 0 < Capacity" and nf: "\<not> shm_done s"
  obtain p c g e where s: "s = (p, c, g, e)" by (cases s)
  from shm_advances[OF conjunct1[OF inv[unfolded s]] conjunct2[OF inv] nf[unfolded s]]
  show "\<exists>t. shm_step Capacity N s t \<and> shm_rank N t < shm_rank N s" unfolding s shm_step_def by (blast intro: pair_parent pair_child)
qed

text \<open>
  C26. The processes of \<^verbatim>\<open>shm_atomics\<close>, for any capacity above 0 and any number of elements, every interleaving of the atomic accesses and every pattern of spurious failures: no index outside the array is ever used; from every reachable state the
  program can be brought to its end, and no other reachable state is without a next action; at the end exactly the pushed number of values has been popped and the stack is empty. Which values these are is another matter: a pop can read a slot
  that is not yet written.
\<close>

theorem shm_program_ends_empty:
  assumes "0 < Capacity" "(shm_step Capacity N)\<^sup>*\<^sup>* (shm_forked Capacity) (p, c, g, e)"
  shows "\<not> bf_fault g \<and> 0 \<le> bf_head g \<and> bf_head g \<le> int Capacity \<and>
    (\<exists>t. (shm_step Capacity N)\<^sup>*\<^sup>* (p, c, g, e) t \<and> shm_done t) \<and> (stuck (shm_step Capacity N) (p, c, g, e) \<longrightarrow> shm_done (p, c, g, e)) \<and>
    (shm_done (p, c, g, e) \<longrightarrow> length (bf_pushed g) = N \<and> length (bf_popped g) = N \<and> bf_head g = 0)"
proof -
  have init: "shm_forked Capacity = shm_forked Capacity \<and> 0 < Capacity" using assms(1) by simp
  have inv: "shm_inv Capacity N (p, c, g, e)" using shm_program.inv_reachable[OF init assms(2)] by blast
  have "length (bf_pushed g) = N \<and> length (bf_popped g) = N \<and> bf_head g = 0" if d: "shm_done (p, c, g, e)"
    using d inv shm_head(1)[OF inv] by (auto simp: shm_done_def pushes_done_def pops_done_def parent_call_def child_call_def popping_def pushing_def)
  then show ?thesis
    using shm_head(2-4)[OF inv] shm_program.reaches_final[OF init assms(2)] shm_program.stuck_final[OF init assms(2)] by blast
qed

text \<open>\<^verbatim>\<open>NumberOfElements\<close> of \<^verbatim>\<open>shm_atomics\<close>.\<close>

definition shm_elements :: nat where
  "shm_elements = 1000000"

theorem shm_program_ends_empty_witness:
  "\<exists>p c g e. (shm_step 1024 shm_elements)\<^sup>*\<^sup>* (shm_forked 1024) (p, c, g, e) \<and> shm_done (p, c, g, e) \<and> length (bf_popped g) = shm_elements \<and> bf_head g = 0"
proof -
  have init: "shm_forked 1024 = shm_forked 1024 \<and> 0 < (1024 :: nat)" by simp
  obtain p c g e where t: "(shm_step 1024 shm_elements)\<^sup>*\<^sup>* (shm_forked 1024) (p, c, g, e)" "shm_done (p, c, g, e)"
    using shm_program.reaches_final[OF init rtranclp.rtrancl_refl] by (metis prod_cases4)
  then show ?thesis using shm_program_ends_empty[OF conjunct2[OF init] t(1)] by blast
qed

end
