(* ===== verification/Data_Manager.thy ===== *)
theory Data_Manager
  imports Prelude
begin

text \<open>
  The class \<^verbatim>\<open>DataManager\<close> of \<^verbatim>\<open>synchronization_primitives/mutex/shared_mutex.cpp\<close> with its data: any number of threads that call \<^verbatim>\<open>GetCopy\<close> and \<^verbatim>\<open>ChangeData\<close>. A copy is made element by element. The lemmas show that the
  mutex keeps the copies whole and that the calls never block for ever.
\<close>

datatype data_call = GetCopy | ChangeData "int list"

record data_manager =
  data_mtx :: "nat option"
  m_data :: "int list"
  returned :: "int list list"          \<comment> \<open>the copies that were returned\<close>
  changed :: "int list list"           \<comment> \<open>the vectors \<^verbatim>\<open>ChangeData\<close> has stored\<close>

datatype data_pc =
    D_Call "data_call list"            \<comment> \<open>the calls to come; takes the mutex for the next one\<close>
  | D_Copy "int list" "data_call list" \<comment> \<open>\<^verbatim>\<open>return m_data\<close>, with the elements copied so far\<close>
  | D_Move "int list" "data_call list" \<comment> \<open>\<^verbatim>\<open>m_data = std::move(newData)\<close>\<close>
  | D_Unlock "data_call list"

fun data_act :: "nat \<Rightarrow> data_pc \<Rightarrow> data_manager \<Rightarrow> (data_pc \<times> data_manager) option" where
  "data_act i (D_Call []) g = None"
| "data_act i (D_Call (c # cs)) g =
     (if data_mtx g = None then Some (case c of GetCopy \<Rightarrow> D_Copy [] cs | ChangeData v \<Rightarrow> D_Move v cs, g\<lparr>data_mtx := Some i\<rparr>) else None)"
| "data_act i (D_Copy acc cs) g =
     (if length acc < length (m_data g) then Some (D_Copy (acc @ [m_data g ! length acc]) cs, g)
      else Some (D_Unlock cs, g\<lparr>returned := returned g @ [acc]\<rparr>))"
| "data_act i (D_Move v cs) g = Some (D_Unlock cs, g\<lparr>m_data := v, changed := changed g @ [v]\<rparr>)"
| "data_act i (D_Unlock cs) g = Some (D_Call cs, g\<lparr>data_mtx := None\<rparr>)"

definition data_start :: "data_call list list \<Rightarrow> data_pc list \<times> data_manager" where
  "data_start css = (map D_Call css, \<lparr>data_mtx = None, m_data = [], returned = [], changed = []\<rparr>)"

text \<open>Two threads, five copies each.\<close>

definition data_main :: "data_pc list \<times> data_manager" where
  "data_main = data_start [replicate 5 GetCopy, replicate 5 GetCopy]"

section \<open>The invariant\<close>

definition in_call :: "data_pc \<Rightarrow> bool" where
  "in_call l = (case l of D_Call _ \<Rightarrow> False | _ \<Rightarrow> True)"

definition copy_ok :: "data_pc \<Rightarrow> int list \<Rightarrow> bool" where
  "copy_ok l d = (case l of D_Copy acc _ \<Rightarrow> take (length acc) d = acc | _ \<Rightarrow> True)"

definition vectors :: "data_pc \<Rightarrow> int list set" where
  "vectors l = (case l of D_Call cs \<Rightarrow> {v. ChangeData v \<in> set cs} | D_Copy _ cs \<Rightarrow> {v. ChangeData v \<in> set cs} | D_Move v cs \<Rightarrow> insert v {v. ChangeData v \<in> set cs}
     | D_Unlock cs \<Rightarrow> {v. ChangeData v \<in> set cs})"

definition data_inv :: "nat \<Rightarrow> data_pc list \<times> data_manager \<Rightarrow> bool" where
  "data_inv M s \<longleftrightarrow> (\<forall>i<length (fst s). (in_call (fst s ! i) \<longleftrightarrow> data_mtx (snd s) = Some i) \<and> copy_ok (fst s ! i) (m_data (snd s)) \<and>
       (\<forall>v\<in>vectors (fst s ! i). length v \<le> M)) \<and>
     (\<forall>j. data_mtx (snd s) = Some j \<longrightarrow> j < length (fst s)) \<and>
     m_data (snd s) \<in> insert [] (set (changed (snd s))) \<and> set (returned (snd s)) \<subseteq> insert [] (set (changed (snd s))) \<and> length (m_data (snd s)) \<le> M"

text \<open>What an action of the thread that may move does.\<close>

lemma data_act_effect:
  assumes "data_act i l g = Some (l', g')" "in_call l \<longleftrightarrow> data_mtx g = Some i" "copy_ok l (m_data g)"
  shows "data_mtx g' = (if in_call l' then Some i else None)" "data_mtx g = None \<or> data_mtx g = Some i" "copy_ok l' (m_data g')" "vectors l' \<subseteq> vectors l"
    "m_data g' = m_data g \<and> changed g' = changed g \<or> (\<exists>v\<in>vectors l. m_data g' = v \<and> changed g' = changed g @ [v])"
    "set (returned g') \<subseteq> insert (m_data g) (set (returned g))"
  using assms by (cases "(i, l, g)" rule: data_act.cases;
    auto simp: in_call_def copy_ok_def vectors_def take_Suc_conv_app_nth split: if_splits data_call.splits)+

lemma data_inv_step:
  assumes inv: "data_inv M s" and st: "prog_step data_act s t"
  shows "data_inv M t"
proof -
  obtain ls g where s: "s = (ls, g)" by (cases s)
  from st[unfolded s] obtain i l' g' where i: "i < length ls" and act: "data_act i (ls ! i) g = Some (l', g')"
    and t: "t = (ls[i := l'], g')" by (rule prog_stepE)
  have own: "in_call (ls ! i) \<longleftrightarrow> data_mtx g = Some i" "copy_ok (ls ! i) (m_data g)" using inv i by (auto simp: data_inv_def s)
  note e = data_act_effect[OF act own]
  have others: "(in_call (ls ! j) \<longleftrightarrow> data_mtx g' = Some j) \<and> copy_ok (ls ! j) (m_data g')" if "j < length ls" "j \<noteq> i" for j
  proof -
    have "\<not> in_call (ls ! j)" using inv that e(2) by (auto simp: data_inv_def s)
    then show ?thesis using that(2) by (simp add: e(1) copy_ok_def in_call_def split: data_pc.splits)
  qed
  have vecs: "\<forall>v\<in>vectors (ls ! i). length v \<le> M" using inv i by (simp add: data_inv_def s)
  have "(in_call (ls[i := l'] ! j) \<longleftrightarrow> data_mtx g' = Some j) \<and> copy_ok (ls[i := l'] ! j) (m_data g') \<and> (\<forall>v\<in>vectors (ls[i := l'] ! j). length v \<le> M)"
    if j: "j < length ls" for j
  proof (cases "j = i")
    case True
    then show ?thesis using i e(1,3,4) vecs by auto
  next
    case False
    have "\<forall>v\<in>vectors (ls ! j). length v \<le> M" using inv j by (simp add: data_inv_def s)
    then show ?thesis using others[OF j False] False by simp
  qed
  moreover have "\<forall>j. data_mtx g' = Some j \<longrightarrow> j < length ls" using e(1) i by simp
  moreover have "m_data g' \<in> insert [] (set (changed g')) \<and> set (returned g') \<subseteq> insert [] (set (changed g')) \<and> length (m_data g') \<le> M"
  proof -
    have old: "m_data g \<in> insert [] (set (changed g))" "set (returned g) \<subseteq> insert [] (set (changed g))" "length (m_data g) \<le> M"
      using inv by (simp_all add: data_inv_def s)
    have more: "set (changed g) \<subseteq> set (changed g')" using e(5) by auto
    have "m_data g' \<in> insert [] (set (changed g')) \<and> length (m_data g') \<le> M" using e(5) old(1,3) vecs by auto
    moreover have "set (returned g') \<subseteq> insert [] (set (changed g'))" using e(6) old(1,2) more by blast
    ultimately show ?thesis by blast
  qed
  ultimately show ?thesis by (simp add: data_inv_def t)
qed

section \<open>Termination\<close>

definition data_left :: "nat \<Rightarrow> data_pc \<Rightarrow> nat" where
  "data_left M l = (case l of D_Call cs \<Rightarrow> (M + 4) * length cs | D_Copy acc cs \<Rightarrow> (M + 4) * length cs + (M - length acc) + 2
     | D_Move _ cs \<Rightarrow> (M + 4) * length cs + 2 | D_Unlock cs \<Rightarrow> (M + 4) * length cs + 1)"

definition data_rank :: "nat \<Rightarrow> data_pc list \<times> data_manager \<Rightarrow> nat" where
  "data_rank M s = sum_list (map (data_left M) (fst s))"

definition data_done :: "data_pc list \<times> data_manager \<Rightarrow> bool" where
  "data_done s \<longleftrightarrow> (\<forall>i<length (fst s). fst s ! i = D_Call [])"

lemma data_act_less: "data_act i l g = Some (l', g') \<Longrightarrow> length (m_data g) \<le> M \<Longrightarrow> data_left M l' < data_left M l"
  by (cases "(i, l, g)" rule: data_act.cases) (auto simp: data_left_def split: if_splits data_call.splits)

lemma data_progress:
  assumes inv: "data_inv M (ls, g)" and nf: "\<not> data_done (ls, g)"
  shows "\<exists>i<length ls. data_act i (ls ! i) g \<noteq> None"
proof (cases "data_mtx g")
  case None
  from nf obtain i where i: "i < length ls" "ls ! i \<noteq> D_Call []" by (auto simp: data_done_def)
  moreover have "\<not> in_call (ls ! i)" using inv i None by (simp add: data_inv_def)
  ultimately have "data_act i (ls ! i) g \<noteq> None" using None by (cases "(i, ls ! i, g)" rule: data_act.cases) (auto simp: in_call_def)
  with i show ?thesis by blast
next
  case (Some j)
  then have "j < length ls" "in_call (ls ! j)" using inv by (simp_all add: data_inv_def)
  moreover from this(2) have "data_act j (ls ! j) g \<noteq> None" by (cases "(j, ls ! j, g)" rule: data_act.cases) (auto simp: in_call_def)
  ultimately show ?thesis by blast
qed

interpretation data: terminating_steps "\<lambda>s. s = data_start css \<and> (\<forall>cs\<in>set css. \<forall>v. ChangeData v \<in> set cs \<longrightarrow> length v \<le> M)" "prog_step data_act"
  "data_inv M" data_done "data_rank M" for css M
proof unfold_locales
  show "data_inv M s" if "s = data_start css \<and> (\<forall>cs\<in>set css. \<forall>v. ChangeData v \<in> set cs \<longrightarrow> length v \<le> M)" for s
    using that by (auto simp: data_inv_def data_start_def in_call_def copy_ok_def vectors_def)
next
  fix s t assume inv: "data_inv M s" and st: "prog_step data_act s t"
  show "data_inv M t" by (rule data_inv_step[OF inv st])
  obtain ls g where s: "s = (ls, g)" by (cases s)
  from st[unfolded s] obtain i l' g' where i: "i < length ls" and act: "data_act i (ls ! i) g = Some (l', g')"
    and t: "t = (ls[i := l'], g')" by (rule prog_stepE)
  have "data_left M l' < data_left M (ls ! i)" by (rule data_act_less[OF act]) (use inv in \<open>simp add: data_inv_def s\<close>)
  then show "data_rank M t < data_rank M s" using sum_list_map_update[OF i, of "data_left M" l'] by (simp add: data_rank_def s t)
next
  fix s assume inv: "data_inv M s" and nf: "\<not> data_done s"
  obtain ls g where s: "s = (ls, g)" by (cases s)
  from data_progress[OF inv[unfolded s] nf[unfolded s]] obtain i l' g' where "i < length ls" "data_act i (ls ! i) g = Some (l', g')" by auto
  from prog_stepI[of i ls data_act g l' g', OF this] show "\<exists>t. prog_step data_act s t" unfolding s by blast
qed

text \<open>
  C33. The data manager, for any number of threads with any calls of \<^verbatim>\<open>GetCopy\<close> and \<^verbatim>\<open>ChangeData\<close> and every scheduling: a copy that was returned is the empty vector of the start or one that was stored, never a
  mixture of two; no two threads are inside a call at the same time; every run ends, after a number of actions bounded by the calls and the longest vector, with all calls made.
\<close>

theorem copies_are_whole:
  assumes "\<forall>cs\<in>set css. \<forall>v. ChangeData v \<in> set cs \<longrightarrow> length v \<le> M" "(prog_step data_act)\<^sup>*\<^sup>* (data_start css) s"
  shows "set (returned (snd s)) \<subseteq> insert [] (set (changed (snd s))) \<and>
    (i < length (fst s) \<and> j < length (fst s) \<and> in_call (fst s ! i) \<and> in_call (fst s ! j) \<longrightarrow> i = j) \<and>
    (stuck (prog_step data_act) s \<longrightarrow> data_done s) \<and>
    ((prog_step data_act ^^ n) (data_start css) s \<longrightarrow> n \<le> data_rank M (data_start css))"
proof -
  have init: "data_start css = data_start css \<and> (\<forall>cs\<in>set css. \<forall>v. ChangeData v \<in> set cs \<longrightarrow> length v \<le> M)" using assms(1) by simp
  have inv: "data_inv M s" by (rule data.inv_reachable[OF init assms(2)])
  then have "set (returned (snd s)) \<subseteq> insert [] (set (changed (snd s)))" by (simp add: data_inv_def)
  moreover have "i < length (fst s) \<and> j < length (fst s) \<and> in_call (fst s ! i) \<and> in_call (fst s ! j) \<longrightarrow> i = j"
    using inv by (fastforce simp: data_inv_def)
  moreover have "(prog_step data_act ^^ n) (data_start css) s \<longrightarrow> n \<le> data_rank M (data_start css)"
    using data.run_bounded[OF data.inv_init[OF init], of n s] by linarith
  ultimately show ?thesis using data.stuck_final[OF init assms(2)] by blast
qed

text \<open>One thread stores a vector, another one copies it.\<close>

theorem copies_are_whole_witness:
  "\<exists>s. (prog_step data_act)\<^sup>*\<^sup>* (data_start [[ChangeData [4, 7]], [GetCopy]]) s \<and> returned (snd s) = [[4, 7]] \<and> data_done s"
proof -
  have "map_option (\<lambda>s. (returned (snd s), fst s)) (run_schedule data_act [0, 0, 0, 1, 1, 1, 1, 1] (data_start [[ChangeData [4, 7]], [GetCopy]])) =
    Some ([[4, 7]], [D_Call [], D_Call []])" by code_simp
  then obtain s where s: "run_schedule data_act [0, 0, 0, 1, 1, 1, 1, 1] (data_start [[ChangeData [4, 7]], [GetCopy]]) = Some s"
    "returned (snd s) = [[4, 7]]" "fst s = [D_Call [], D_Call []]" by auto
  note r = run_schedule_reachable[OF s(1)]
  obtain g where g: "s = ([D_Call [], D_Call []], g)" using s(3) by (metis prod.collapse)
  have "data_act k ([D_Call [], D_Call []] ! k) g = None" if "k < 2" for k using that by (auto simp: less_2_cases_iff)
  then have "stuck (prog_step data_act) s" by (simp add: g stuck_prog_step)
  then have "data_done s" using copies_are_whole[of "[[ChangeData [4, 7]], [GetCopy]]" 2 s] r by simp
  with r s(2) show ?thesis by blast
qed

end
