(* ===== verification/Spec2Isabelle.thy ===== *)
theory Spec2Isabelle
  imports Ipc_Queue_Conc Hw4_Programs Futex_Latch Stack_Conc CV_Lock Lock_Order Shm_Rendezvous Pipes Thread_Pool Message_Queue Channels Barrier Std_Latch Task_Worker Threads_Intro Execs Signals_Sema Futures Senders Stack_Programs Data_Manager
begin

text \<open>
  A verification development for the examples of concurrent programming under \<^verbatim>\<open>src/\<close>: a message queue between
  processes in shared memory, locks, latches, stacks, a thread pool, and small programs on processes, threads,
  pipes, semaphores, signals and futures.

  \<^bold>\<open>The program and its parts.\<close> The repository is a collection of programs. Only \<^verbatim>\<open>hw4\<close> has layers: its two
  programs use the queue of \<^verbatim>\<open>ipc_queue.cpp\<close>, which lies in a region made by \<^verbatim>\<open>shm_utils.cpp\<close>. The programs on processes
  share the error check of \<^verbatim>\<open>include/utils/error.hpp\<close>, \<^verbatim>\<open>shm_atomics.cpp\<close> and \<^verbatim>\<open>spsc_stack.cpp\<close> share a stack. The
  other programs stand alone.

  \<^bold>\<open>How programs are modelled.\<close> Sequential code is a function on its state, with undefined behaviour as
  \<open>None\<close> and errors as values of a sum. Concurrent code is cut into the atomic actions of each thread or process:
  a local state names the place in the code, an action function gives its effect on the shared state, and \<open>None\<close>
  says that the thread blocks or is through. \<^verbatim>\<open>Prelude\<close> makes step relations of such functions: \<open>prog_step\<close> for
  equal threads, \<open>choice_step\<close> when the environment chooses (values, addresses, spurious failures), \<open>pair_step\<close>
  for the two sides of a \<^verbatim>\<open>fork\<close>. The interleaving is sequentially consistent. The locales of
  \<^verbatim>\<open>Prelude\<close> are the interface between a component and its results: \<open>step_invariant\<close> (an invariant of reachable
  states), \<open>finishing_steps\<close> (from every reachable state the end can be reached, and no other state is
  stuck) and \<open>terminating_steps\<close> (every step decreases a measure, so that no run is longer than its initial
  value). Each component interprets one of them on its own definitions. A program whose runs are short is explored
  completely by \<open>explore\<close>; its length bound is checked with the result, which is \<open>None\<close> if it were too small.

  \<^bold>\<open>The theories.\<close>

  \<^item> \<^verbatim>\<open>Ipc_Queue\<close>: \<^verbatim>\<open>hw4/ipc_queue.h\<close> and \<^verbatim>\<open>.cpp\<close>, one call at a time. Machine integers are words, null pointers and accesses
    outside the memory are explicit. Push and pop refine a bounded queue, no call leaves the memory, and a push that fails on
    a full queue strands the next message.
  \<^item> \<^verbatim>\<open>Ipc_Queue_Conc\<close>: the same calls as atomic accesses, with any number of producers and one consumer. A call
    run alone is that of \<^verbatim>\<open>Ipc_Queue\<close>; calls are wait-free; a slot has one owner; messages are received at most once and intact.
  \<^item> \<^verbatim>\<open>Shm_Utils\<close>: \<^verbatim>\<open>hw4/shm_utils.cpp\<close> over the system calls, which are a parameter with the documented laws
    \<open>posix_shm\<close>; a concrete kernel satisfies them. \<^verbatim>\<open>Hw4_Programs\<close>: the two \<^verbatim>\<open>main\<close> functions of \<^verbatim>\<open>hw4\<close> down to
    their output, and producer runs followed by a consumer run.
  \<^item> \<^verbatim>\<open>Futex_Latch\<close>: \<^verbatim>\<open>futex/latch.cpp\<close>. No wake-up is lost and nobody passes early.
  \<^item> \<^verbatim>\<open>Stacks\<close>, \<^verbatim>\<open>Stack_Conc\<close>, \<^verbatim>\<open>Stack_Programs\<close>: \<^verbatim>\<open>lock_free/spsc_stack.cpp\<close> and \<^verbatim>\<open>ipc/shm_atomics.cpp\<close>. The stacks by one thread
    through a common interface, then as atomic accesses (linearizable with one consumer, faulty with two; the array stack stays within its bounds
    but can pop a slot that is not written), then the programs.
  \<^item> \<^verbatim>\<open>Counters\<close>: the counter programs of \<^verbatim>\<open>synchronization_primitives/\<close> with a mutex, a spin lock, atomics, a compare-and-exchange loop and
    a data race, and the program on atomic operations. A lock is a locale; the results give exactly what each program can print.
  \<^item> \<^verbatim>\<open>CV_Lock\<close>, \<^verbatim>\<open>Task_Worker\<close>: the two programs with a condition variable. \<^verbatim>\<open>Lock_Order\<close>, \<^verbatim>\<open>Data_Manager\<close>: the programs on
    several mutexes, and the data of \<^verbatim>\<open>shared_mutex.cpp\<close>. \<^verbatim>\<open>Barrier\<close>, \<^verbatim>\<open>Std_Latch\<close>: \<^verbatim>\<open>barrier.cpp\<close>, \<^verbatim>\<open>latch.cpp\<close> and
    \<^verbatim>\<open>cache/false_sharing.cpp\<close>.
  \<^item> \<^verbatim>\<open>Shm_Rendezvous\<close>, \<^verbatim>\<open>Pipes\<close>, \<^verbatim>\<open>Message_Queue\<close>, \<^verbatim>\<open>Signals_Sema\<close>: the programs of \<^verbatim>\<open>ipc/\<close>, with failing system calls and
    partial reads and writes where the code deals with them. What is sent arrives complete and in order; the conditions under which it does not are stated.
  \<^item> \<^verbatim>\<open>Thread_Pool\<close>, \<^verbatim>\<open>Futures\<close>, \<^verbatim>\<open>Senders\<close>: \<^verbatim>\<open>structured_concurrency/\<close>. The library stdexec is a parameter of \<^verbatim>\<open>Senders\<close>, with its
    documented behaviour \<open>stdexec_ok\<close> and an instance.
  \<^item> \<^verbatim>\<open>Channels\<close>: the benchmarks of the channel exercises over any channel with the contract of \<^verbatim>\<open>task.md\<close>, and the empty channels of the repository.
  \<^item> \<^verbatim>\<open>Processes\<close>, \<^verbatim>\<open>Threads_Intro\<close>, \<^verbatim>\<open>Execs\<close>: \<^verbatim>\<open>processes_and_threads/\<close>, and \<^verbatim>\<open>include/utils/error.hpp\<close>.

  Definitions have the names of the code where they can: \<open>try_push_message\<close>, \<open>CountDown\<close>, \<open>RunExample\<close>. The local states of a thread
  carry the source text of their action in a comment.

  \<^bold>\<open>Bounds and fuel.\<close> The loop of the consumer of \<^verbatim>\<open>hw4\<close> has 17 iterations as its fuel, one more than the
  queue has slots: an iteration that does not leave the loop empties a slot, and \<open>consumer_loop_left\<close> shows that the fuel is enough on every
  memory. The loop of the destructor of the linked stack is a partial function, and \<open>destructor_frees_all\<close> shows that it returns. Other loops
  have no fuel: they are steps, and runs are bounded by a measure that is part of the result. The numbers
  of threads, rounds, increments and lines are arbitrary, and those of the programs are instances. Schedules in witnesses are
  lists that are replayed by \<open>run_schedule\<close>, \<open>run_choices\<close> or \<open>run_pair\<close>.

  \<^bold>\<open>What the results found.\<close> Besides the positive results there are proofs of behaviour the code does not mean
  to have: the stranded message, the lock that does not exclude, the destructor that waits for ever, the unread error
  of \<^verbatim>\<open>pthread_create\<close>, the lines that overrun a buffer, the names that are removed too early.

  \<^bold>\<open>Not modelled.\<close> Weak memory: the atomics of the code use the default order or acquire and release, and data races are modelled with untorn accesses where a
  result about them is stated. Time: sleeps select some of the schedules, all of which are covered. \<^verbatim>\<open>structured_concurrency/echo_server.cpp\<close> is a sketch whose socket has no implementation. The
  test files of the channel exercises test code that is not in the repository. Registration with the benchmark library and build files have no behaviour of
  their own. System calls that the code does not check are taken to succeed.
\<close>

end
